(* ===== verification/Kernel_Prelude.thy ===== *)
theory Kernel_Prelude
  imports Main "HOL-Library.Word"
begin

text \<open>
  Shared vocabulary of the development: names for the machine types of the sources, the
  errno values the kernel returns, the collections the component theories add their facts
  to, and generic lemmas on bits, words and lists that more than one component uses.
\<close>

unbundle bit_operations_syntax

section \<open>Machine types and constants\<close>

type_synonym u8 = "8 word"
type_synonym u16 = "16 word"
type_synonym u32 = "32 word"
type_synonym u64 = "64 word"

type_synonym ptr = "64 word"

text \<open>The errno values of \<^verbatim>\<open>lib/libc/minimal/include/errno.h\<close> that the modelled code returns.\<close>

abbreviation (input) EPERM :: int where "EPERM \<equiv> 1"
abbreviation (input) EAGAIN :: int where "EAGAIN \<equiv> 11"
abbreviation (input) ENOMEM :: int where "ENOMEM \<equiv> 12"
abbreviation (input) EBUSY :: int where "EBUSY \<equiv> 16"
abbreviation (input) EINVAL :: int where "EINVAL \<equiv> 22"
abbreviation (input) EDEADLK :: int where "EDEADLK \<equiv> 45"
abbreviation (input) EMSGSIZE :: int where "EMSGSIZE \<equiv> 122"
abbreviation (input) ENOMSG :: int where "ENOMSG \<equiv> 35"

abbreviation (input) INT_MAX :: int where "INT_MAX \<equiv> 2147483647"

section \<open>Collections of facts\<close>

named_theorems kdefs \<open>unfolding rules of the small kernel accessors\<close>
named_theorems kinv_intros \<open>preservation of the scheduler invariants\<close>
named_theorems codec_simps \<open>byte and digit conversions\<close>

section \<open>Bits\<close>

lemma and_mask_bit: "(x AND 2 ^ n \<noteq> 0) = bit x n" for x :: "'a::len word"
  by (simp add: and_exp_eq_0_iff_not_bit)

lemma and_1_bit [simp]: "(x AND 1 = 0) = (\<not> bit x 0)" for x :: "'a::len word"
  using and_mask_bit [of x 0] by auto

lemma and_2_bit [simp]: "(x AND 2 = 0) = (\<not> bit x 1)" for x :: "'a::len word"
  using and_mask_bit [of x 1] by auto

lemma and_4_bit [simp]: "(x AND 4 = 0) = (\<not> bit x 2)" for x :: "'a::len word"
  using and_mask_bit [of x 2] by auto

lemma and_8_bit [simp]: "(x AND 8 = 0) = (\<not> bit x 3)" for x :: "'a::len word"
  using and_mask_bit [of x 3] by auto

lemma and_16_bit [simp]: "(x AND 16 = 0) = (\<not> bit x 4)" for x :: "'a::len word"
  using and_mask_bit [of x 4] by auto

lemma and_32_bit [simp]: "(x AND 32 = 0) = (\<not> bit x 5)" for x :: "'a::len word"
  using and_mask_bit [of x 5] by auto

lemma and_128_bit [simp]: "(x AND 128 = 0) = (\<not> bit x 7)" for x :: "'a::len word"
  using and_mask_bit [of x 7] by auto

lemma bit_or_exp: "bit (x OR 2 ^ m) n = (bit x n \<or> n = m \<and> m < LENGTH('a))"
  for x :: "'a::len word"
  by (auto simp: bit_simps)

lemma bit_andnot_exp: "bit (x AND NOT (2 ^ m)) n = (bit x n \<and> n \<noteq> m)"
  for x :: "'a::len word"
  by (auto simp: bit_simps dest: bit_imp_le_length)

lemma word_and_eq_0_iff: "(x AND y = 0) = (\<forall>n. \<not> (bit x n \<and> bit y n))" for x y :: "'a::len word"
proof
  assume "x AND y = 0"
  then have "bit (x AND y) n = bit (0::'a word) n" for n by simp
  then show "\<forall>n. \<not> (bit x n \<and> bit y n)" by (simp add: bit_and_iff)
next
  assume "\<forall>n. \<not> (bit x n \<and> bit y n)"
  then show "x AND y = 0" by (intro bit_eqI) (simp add: bit_and_iff)
qed

lemma sint_nonneg_u8: "0 \<le> sint x \<longleftrightarrow> unat x < 128" for x :: "u8"
proof -
  have "bit x 7 \<longleftrightarrow> odd (unat x div 128)"
    using bit_iff_odd [of "unat x" 7] by (simp add: bit_unsigned_iff)
  moreover have "unat x < 256" using unsigned_less [of x] by simp
  then have "unat x div 128 = (if unat x < 128 then 0 else 1)" by (auto intro: div_nat_eqI)
  moreover have "bit x 7 \<longleftrightarrow> sint x < 0" using bit_last_iff [of x] by simp
  ultimately show ?thesis by (auto split: if_splits)
qed

text \<open>Two bytes side by side compared with the largest non-negative signed byte.\<close>

lemma bytes_le_0x7F:
  fixes sl p :: "u8"
  shows "(push_bit 8 (ucast sl) OR ucast p :: u16) \<le> 0x7F \<longleftrightarrow> sl = 0 \<and> 0 \<le> sint p"
proof -
  let ?a = "push_bit 8 (ucast sl) :: u16" and ?b = "ucast p :: u16"
  have "?a AND ?b = 0"
    by (simp add: word_and_eq_0_iff bit_simps) (auto dest: bit_imp_le_length)
  then have s: "?a OR ?b = ?a + ?b" by (rule disjunctive_add_eq_or [symmetric])
  have lt: "unat sl < 256" "unat p < 256" using unsigned_less [of sl] unsigned_less [of p] by simp_all
  have a: "unat ?a = unat sl * 256"
    using lt by (simp add: push_bit_eq_mult unat_word_ariths unsigned_ucast_eq take_bit_nat_eq_self)
  have b: "unat ?b = unat p"
    using lt by (simp add: unsigned_ucast_eq take_bit_nat_eq_self)
  have u: "unat (?a + ?b) = unat sl * 256 + unat p"
    using lt a b by (simp add: unat_word_ariths)
  have "?a + ?b \<le> 0x7F \<longleftrightarrow> unat (?a + ?b) \<le> 127"
    by (simp add: word_le_nat_alt)
  also have "\<dots> \<longleftrightarrow> unat sl = 0 \<and> unat p < 128"
    unfolding u by linarith
  also have "\<dots> \<longleftrightarrow> sl = 0 \<and> 0 \<le> sint p"
    by (simp add: unat_eq_0 sint_nonneg_u8)
  finally show ?thesis unfolding s .
qed

section \<open>Lists kept sorted by a key\<close>

text \<open>
  \<open>insort_after\<close> is insertion behind all elements of the same key, what every
  priority-ordered list of the kernel does when a node is linked in.
\<close>

fun insort_after :: "('a \<Rightarrow> int) \<Rightarrow> 'a \<Rightarrow> 'a list \<Rightarrow> 'a list" where
  "insort_after f x [] = [x]"
| "insort_after f x (y # ys) = (if f x < f y then x # y # ys else y # insort_after f x ys)"

abbreviation sorted_key :: "('a \<Rightarrow> int) \<Rightarrow> 'a list \<Rightarrow> bool" where
  "sorted_key f \<equiv> sorted_wrt (\<lambda>x y. f x \<le> f y)"

lemma set_insort_after [simp]: "set (insort_after f x xs) = insert x (set xs)"
  by (induction xs) auto

lemma distinct_insort_after [simp]:
  "distinct (insort_after f x xs) = (x \<notin> set xs \<and> distinct xs)"
  by (induction xs) auto

lemma insort_after_neq_Nil [simp]: "insort_after f x xs \<noteq> []"
  by (cases xs) auto

lemma sorted_insort_after [simp]: "sorted_key f xs \<Longrightarrow> sorted_key f (insort_after f x xs)"
  by (induction xs) auto

lemma sorted_wrt_remove1 [simp]: "sorted_wrt P xs \<Longrightarrow> sorted_wrt P (remove1 x xs)"
  by (induction xs) (auto dest: notin_set_remove1)

lemma sorted_key_hd_le:
  "sorted_key f xs \<Longrightarrow> x \<in> set xs \<Longrightarrow> f (hd xs) \<le> f x"
  by (cases xs) auto

lemma insort_after_append:
  "sorted_key f xs \<Longrightarrow> \<forall>y\<in>set xs. f y \<le> f x \<Longrightarrow> insort_after f x xs = xs @ [x]"
  by (induction xs) auto

lemma insort_after_split:
  "sorted_key f xs \<Longrightarrow>
   insort_after f x xs = filter (\<lambda>y. f y \<le> f x) xs @ x # filter (\<lambda>y. f x < f y) xs"
proof (induction xs)
  case (Cons y ys)
  show ?case
  proof (cases "f x < f y")
    case True
    with Cons.prems have "\<forall>z\<in>set ys. f x < f z" by fastforce
    with True show ?thesis by (auto simp: filter_empty_conv)
  next
    case False
    with Cons show ?thesis by simp
  qed
qed simp

lemma insort_after_remove1:
  "distinct xs \<Longrightarrow> x \<notin> set xs \<Longrightarrow> remove1 x (insort_after f x xs) = xs"
  by (induction xs) auto

lemma insort_after_cong:
  "(\<And>y. y \<in> insert x (set xs) \<Longrightarrow> f y = g y) \<Longrightarrow> insort_after f x xs = insort_after g x xs"
  by (induction xs) auto

lemma sorted_key_cong:
  "(\<And>y. y \<in> set xs \<Longrightarrow> f y = g y) \<Longrightarrow> sorted_key f xs = sorted_key g xs"
  by (induction xs) auto

end
