(* ===== verification/Kernel_State.thy ===== *)
theory Kernel_State
  imports Kernel_Prelude
begin

text \<open>
  The kernel's data: \<^verbatim>\<open>struct k_thread\<close> with its embedded \<^verbatim>\<open>_thread_base\<close>
  (\<^verbatim>\<open>include/kernel/thread.h\<close>), \<^verbatim>\<open>struct _cpu\<close>, \<^verbatim>\<open>struct z_kernel\<close>
  (\<^verbatim>\<open>include/kernel_structs.h\<close>) and the file-scope variables of \<^verbatim>\<open>kernel/sched.c\<close> and
  \<^verbatim>\<open>kernel/timeout.c\<close>, together with the predicates and setters of
  \<^verbatim>\<open>kernel/include/ksched.h\<close>. Threads, wait queues and timeout records are named by their
  addresses; intrusive lists are the lists of the addresses linked in them (theory
  \<open>Dlist\<close> relates the two).
\<close>

section \<open>Addresses\<close>

type_synonym tid = nat
type_synonym cpu_id = nat

datatype wqid = ObjQ nat | JoinQ tid
  \<comment> \<open>a \<^verbatim>\<open>_wait_q_t\<close>: the one of a kernel object, or the join queue of a thread\<close>

datatype toid = ThreadTo tid | ObjTo nat
  \<comment> \<open>a \<^verbatim>\<open>struct _timeout\<close>: the one inside a thread, or inside a timer or work item\<close>

text \<open>
  What a call that may block its caller has done: it has returned a value, or the caller
  is waiting and the value is produced when it runs again.
\<close>

datatype 'a outcome = Returned 'a | Blocked

section \<open>Threads\<close>

abbreviation (input) THREAD_DUMMY :: u8 where "THREAD_DUMMY \<equiv> 1"
abbreviation (input) THREAD_PENDING :: u8 where "THREAD_PENDING \<equiv> 2"
abbreviation (input) THREAD_PRESTART :: u8 where "THREAD_PRESTART \<equiv> 4"
abbreviation (input) THREAD_DEAD :: u8 where "THREAD_DEAD \<equiv> 8"
abbreviation (input) THREAD_SUSPENDED :: u8 where "THREAD_SUSPENDED \<equiv> 16"
abbreviation (input) THREAD_ABORTING :: u8 where "THREAD_ABORTING \<equiv> 32"
abbreviation (input) THREAD_QUEUED :: u8 where "THREAD_QUEUED \<equiv> 128"

record k_thread =
  pended_on :: "wqid option"
  user_options :: u8
  thread_state :: u8
  prio :: u8
  sched_locked :: u8
  is_idle :: bool
  cpu_mask :: u8
  swap_data :: ptr
  swap_retval :: int

text \<open>
  \<open>prio\<close> is the \<^verbatim>\<open>int8_t\<close> of the struct, read with \<open>sint\<close>; the anonymous union
  overlays \<open>prio\<close> and \<open>sched_locked\<close> with the 16-bit \<open>preempt\<close> (little endian).
\<close>

abbreviation prio_of :: "k_thread \<Rightarrow> int" where "prio_of th \<equiv> sint (prio th)"

definition preempt :: "k_thread \<Rightarrow> u16" where
  "preempt th = push_bit 8 (ucast (sched_locked th)) OR ucast (prio th)"

section \<open>The kernel structure\<close>

record cpu =
  nested :: nat
  current :: tid
  idle_thread :: tid
  slice_ticks :: int
  swap_ok :: bool
  irq_masked :: bool
    \<comment> \<open>whether interrupts are masked by the caller, the value in the key of \<^verbatim>\<open>arch_irq_lock\<close>\<close>

record kernel =
  CONFIG_SMP :: bool
  CONFIG_MP_NUM_CPUS :: nat
  CONFIG_SCHED_CPU_MASK :: bool
  threads :: "tid \<Rightarrow> k_thread"
  cpus :: "cpu_id \<Rightarrow> cpu"
  cache :: tid
  runq :: "tid list"
  waitqs :: "wqid \<Rightarrow> tid list"
  timeout_list :: "(toid \<times> int) list"
  curr_tick :: u64
  announce_remaining :: int
  slice_time :: int
  slice_max_prio :: int
  clock_elapsed :: int
    \<comment> \<open>what the timer driver's \<^verbatim>\<open>sys_clock_elapsed()\<close> returns at this moment\<close>
  clock_timeout :: "(int \<times> bool) option"
    \<comment> \<open>arguments of the last call of the driver's \<^verbatim>\<open>sys_clock_set_timeout()\<close>\<close>

definition current_thread :: "cpu_id \<Rightarrow> kernel \<Rightarrow> tid" where
  [kdefs]: "current_thread c k = current (cpus k c)"

definition upd_thread :: "tid \<Rightarrow> (k_thread \<Rightarrow> k_thread) \<Rightarrow> kernel \<Rightarrow> kernel" where
  [kdefs]: "upd_thread t f k = k\<lparr>threads := (threads k)(t := f (threads k t))\<rparr>"

definition upd_cpu :: "cpu_id \<Rightarrow> (cpu \<Rightarrow> cpu) \<Rightarrow> kernel \<Rightarrow> kernel" where
  [kdefs]: "upd_cpu c f k = k\<lparr>cpus := (cpus k)(c := f (cpus k c))\<rparr>"

definition arch_is_in_isr :: "cpu_id \<Rightarrow> kernel \<Rightarrow> bool" where
  [kdefs]: "arch_is_in_isr c k \<longleftrightarrow> nested (cpus k c) \<noteq> 0"

section \<open>Priorities\<close>

abbreviation (input) CONFIG_NUM_COOP_PRIORITIES :: int where "CONFIG_NUM_COOP_PRIORITIES \<equiv> 16"
abbreviation (input) CONFIG_NUM_PREEMPT_PRIORITIES :: int where "CONFIG_NUM_PREEMPT_PRIORITIES \<equiv> 15"
abbreviation (input) CONFIG_NUM_METAIRQ_PRIORITIES :: int where "CONFIG_NUM_METAIRQ_PRIORITIES \<equiv> 0"
abbreviation (input) CONFIG_PRIORITY_CEILING :: int where "CONFIG_PRIORITY_CEILING \<equiv> - 127"

abbreviation (input) K_HIGHEST_THREAD_PRIO :: int where
  "K_HIGHEST_THREAD_PRIO \<equiv> - CONFIG_NUM_COOP_PRIORITIES"
abbreviation (input) K_LOWEST_THREAD_PRIO :: int where
  "K_LOWEST_THREAD_PRIO \<equiv> CONFIG_NUM_PREEMPT_PRIORITIES"
abbreviation (input) K_IDLE_PRIO :: int where "K_IDLE_PRIO \<equiv> K_LOWEST_THREAD_PRIO"
abbreviation (input) K_HIGHEST_APPLICATION_THREAD_PRIO :: int where
  "K_HIGHEST_APPLICATION_THREAD_PRIO \<equiv> K_HIGHEST_THREAD_PRIO"
abbreviation (input) K_LOWEST_APPLICATION_THREAD_PRIO :: int where
  "K_LOWEST_APPLICATION_THREAD_PRIO \<equiv> K_LOWEST_THREAD_PRIO - 1"

definition z_is_under_prio_ceiling :: "int \<Rightarrow> bool" where
  "z_is_under_prio_ceiling p \<longleftrightarrow> p \<ge> CONFIG_PRIORITY_CEILING"

definition z_get_new_prio_with_ceiling :: "int \<Rightarrow> int" where
  "z_get_new_prio_with_ceiling p = (if z_is_under_prio_ceiling p then p else CONFIG_PRIORITY_CEILING)"

definition z_is_prio_higher_or_equal :: "int \<Rightarrow> int \<Rightarrow> bool" where
  "z_is_prio_higher_or_equal p1 p2 \<longleftrightarrow> p1 \<le> p2"

definition z_is_prio_lower_or_equal :: "int \<Rightarrow> int \<Rightarrow> bool" where
  "z_is_prio_lower_or_equal p1 p2 \<longleftrightarrow> p1 \<ge> p2"

definition z_is_prio_higher :: "int \<Rightarrow> int \<Rightarrow> bool" where
  "z_is_prio_higher p test_prio \<longleftrightarrow> p < test_prio"

definition is_valid_prio :: "int \<Rightarrow> bool \<Rightarrow> bool" where
  "is_valid_prio p entry_is_idle =
     (if p = K_IDLE_PRIO \<and> entry_is_idle then True
      else if \<not> z_is_prio_higher_or_equal p K_LOWEST_APPLICATION_THREAD_PRIO then False
      else if \<not> z_is_prio_lower_or_equal p K_HIGHEST_APPLICATION_THREAD_PRIO then False
      else True)"

section \<open>State predicates and setters of \<^verbatim>\<open>ksched.h\<close>\<close>

definition z_is_idle_thread_object :: "kernel \<Rightarrow> tid \<Rightarrow> bool" where
  "z_is_idle_thread_object k t \<longleftrightarrow>
     (if CONFIG_SMP k then is_idle (threads k t) else t = idle_thread (cpus k 0))"

definition z_is_thread_suspended :: "k_thread \<Rightarrow> bool" where
  "z_is_thread_suspended th \<longleftrightarrow> thread_state th AND THREAD_SUSPENDED \<noteq> 0"

definition z_is_thread_pending :: "k_thread \<Rightarrow> bool" where
  "z_is_thread_pending th \<longleftrightarrow> thread_state th AND THREAD_PENDING \<noteq> 0"

definition z_is_thread_prevented_from_running :: "k_thread \<Rightarrow> bool" where
  "z_is_thread_prevented_from_running th \<longleftrightarrow>
     thread_state th AND (THREAD_PENDING OR THREAD_PRESTART OR THREAD_DEAD OR
                          THREAD_DUMMY OR THREAD_SUSPENDED) \<noteq> 0"

definition z_is_inactive_timeout :: "kernel \<Rightarrow> toid \<Rightarrow> bool" where
  "z_is_inactive_timeout k to \<longleftrightarrow> to \<notin> fst ` set (timeout_list k)"

definition z_is_thread_timeout_active :: "kernel \<Rightarrow> tid \<Rightarrow> bool" where
  "z_is_thread_timeout_active k t \<longleftrightarrow> \<not> z_is_inactive_timeout k (ThreadTo t)"

definition z_is_thread_ready :: "kernel \<Rightarrow> tid \<Rightarrow> bool" where
  "z_is_thread_ready k t \<longleftrightarrow>
     \<not> (z_is_thread_prevented_from_running (threads k t) \<or> z_is_thread_timeout_active k t)"

definition z_has_thread_started :: "k_thread \<Rightarrow> bool" where
  "z_has_thread_started th \<longleftrightarrow> thread_state th AND THREAD_PRESTART = 0"

definition z_is_thread_state_set :: "k_thread \<Rightarrow> u8 \<Rightarrow> bool" where
  "z_is_thread_state_set th st \<longleftrightarrow> thread_state th AND st \<noteq> 0"

definition z_is_thread_queued :: "k_thread \<Rightarrow> bool" where
  "z_is_thread_queued th \<longleftrightarrow> z_is_thread_state_set th THREAD_QUEUED"

definition z_set_thread_states :: "u8 \<Rightarrow> k_thread \<Rightarrow> k_thread" where
  "z_set_thread_states st th = th\<lparr>thread_state := thread_state th OR st\<rparr>"

definition z_reset_thread_states :: "u8 \<Rightarrow> k_thread \<Rightarrow> k_thread" where
  "z_reset_thread_states st th = th\<lparr>thread_state := thread_state th AND NOT st\<rparr>"

definition z_mark_thread_as_suspended :: "tid \<Rightarrow> kernel \<Rightarrow> kernel" where
  "z_mark_thread_as_suspended t = upd_thread t (z_set_thread_states THREAD_SUSPENDED)"

definition z_mark_thread_as_not_suspended :: "tid \<Rightarrow> kernel \<Rightarrow> kernel" where
  "z_mark_thread_as_not_suspended t = upd_thread t (z_reset_thread_states THREAD_SUSPENDED)"

definition z_mark_thread_as_started :: "tid \<Rightarrow> kernel \<Rightarrow> kernel" where
  "z_mark_thread_as_started t = upd_thread t (z_reset_thread_states THREAD_PRESTART)"

definition z_mark_thread_as_pending :: "tid \<Rightarrow> kernel \<Rightarrow> kernel" where
  "z_mark_thread_as_pending t = upd_thread t (z_set_thread_states THREAD_PENDING)"

definition z_mark_thread_as_not_pending :: "tid \<Rightarrow> kernel \<Rightarrow> kernel" where
  "z_mark_thread_as_not_pending t = upd_thread t (z_reset_thread_states THREAD_PENDING)"

definition z_sched_lock :: "cpu_id \<Rightarrow> kernel \<Rightarrow> kernel" where
  "z_sched_lock c k = upd_thread (current_thread c k) (\<lambda>th. th\<lparr>sched_locked := sched_locked th - 1\<rparr>) k"

definition z_sched_unlock_no_reschedule :: "cpu_id \<Rightarrow> kernel \<Rightarrow> kernel" where
  "z_sched_unlock_no_reschedule c k =
     upd_thread (current_thread c k) (\<lambda>th. th\<lparr>sched_locked := sched_locked th + 1\<rparr>) k"

definition arch_thread_return_value_set :: "tid \<Rightarrow> int \<Rightarrow> kernel \<Rightarrow> kernel" where
  "arch_thread_return_value_set t v = upd_thread t (\<lambda>th. th\<lparr>swap_retval := v\<rparr>)"

definition z_thread_return_value_set_with_data :: "tid \<Rightarrow> int \<Rightarrow> ptr \<Rightarrow> kernel \<Rightarrow> kernel" where
  "z_thread_return_value_set_with_data t v d k =
     upd_thread t (\<lambda>th. th\<lparr>swap_data := d\<rparr>) (arch_thread_return_value_set t v k)"

section \<open>Scheduler predicates at the head of \<^verbatim>\<open>sched.c\<close>\<close>

definition PREEMPT_THRESHOLD :: u16 where "PREEMPT_THRESHOLD = 0x80 - 1"

definition is_preempt :: "k_thread \<Rightarrow> bool" where
  "is_preempt th \<longleftrightarrow> preempt th \<le> PREEMPT_THRESHOLD"

definition is_metairq :: "k_thread \<Rightarrow> bool" where
  "is_metairq th \<longleftrightarrow>
     CONFIG_NUM_METAIRQ_PRIORITIES > 0 \<and>
     prio_of th - K_HIGHEST_THREAD_PRIO < CONFIG_NUM_METAIRQ_PRIORITIES"

definition z_sched_prio_cmp :: "k_thread \<Rightarrow> k_thread \<Rightarrow> int" where
  "z_sched_prio_cmp th1 th2 =
     (let b1 = prio_of th1; b2 = prio_of th2 in if b1 \<noteq> b2 then b2 - b1 else 0)"

definition is_aborting :: "k_thread \<Rightarrow> bool" where
  "is_aborting th \<longleftrightarrow> thread_state th AND THREAD_ABORTING \<noteq> 0"

section \<open>Reading the predicates bit by bit\<close>

lemma bit_thread_state:
  "z_is_thread_suspended th = bit (thread_state th) 4"
  "z_is_thread_pending th = bit (thread_state th) 1"
  "z_has_thread_started th = (\<not> bit (thread_state th) 2)"
  "z_is_thread_queued th = bit (thread_state th) 7"
  "is_aborting th = bit (thread_state th) 5"
  by (simp_all add: z_is_thread_suspended_def z_is_thread_pending_def z_has_thread_started_def
      z_is_thread_queued_def z_is_thread_state_set_def is_aborting_def)

lemma prevented_bits:
  "z_is_thread_prevented_from_running th =
     (bit (thread_state th) 0 \<or> bit (thread_state th) 1 \<or> bit (thread_state th) 2 \<or>
      bit (thread_state th) 3 \<or> bit (thread_state th) 4)"
proof -
  have "z_is_thread_prevented_from_running th =
      (thread_state th AND 31 \<noteq> 0)"
    by (simp add: z_is_thread_prevented_from_running_def)
  also have "(31 :: u8) = mask 5" by (simp add: mask_eq_exp_minus_1)
  also have "(thread_state th AND mask 5 \<noteq> 0) = (\<exists>n<5. bit (thread_state th) n)"
  proof -
    have "bit (mask 5 :: u8) n \<longleftrightarrow> n < 5" for n by (auto simp: bit_mask_iff)
    then show ?thesis by (simp add: word_and_eq_0_iff) blast
  qed
  also have "\<dots> = (bit (thread_state th) 0 \<or> bit (thread_state th) 1 \<or> bit (thread_state th) 2 \<or>
      bit (thread_state th) 3 \<or> bit (thread_state th) 4)"
    by (auto simp: numeral_eq_Suc less_Suc_eq)
  finally show ?thesis .
qed

lemma bit_set_states [simp]:
  "bit (thread_state (z_set_thread_states (2 ^ m) th)) n =
     (bit (thread_state th) n \<or> n = m \<and> m < 8)"
  by (simp add: z_set_thread_states_def bit_or_exp)

lemma bit_reset_states [simp]:
  "bit (thread_state (z_reset_thread_states (2 ^ m) th)) n = (bit (thread_state th) n \<and> n \<noteq> m)"
  by (simp add: z_reset_thread_states_def bit_andnot_exp)

lemmas bit_set_flags [simp] =
  bit_set_states [of 1, simplified] bit_set_states [of 4, simplified]
  bit_set_states [of 3, simplified] bit_set_states [of 5, simplified]
  bit_set_states [of 7, simplified]
  bit_reset_states [of 1, simplified] bit_reset_states [of 2, simplified]
  bit_reset_states [of 4, simplified] bit_reset_states [of 5, simplified]
  bit_reset_states [of 7, simplified]

lemma not_metairq [simp]: "\<not> is_metairq th"
  by (simp add: is_metairq_def)

text \<open>The 16-bit comparison of \<open>is_preempt\<close> tests both bytes at once.\<close>

lemma is_preempt_iff: "is_preempt th \<longleftrightarrow> sched_locked th = 0 \<and> 0 \<le> prio_of th"
  using bytes_le_0x7F by (simp add: is_preempt_def preempt_def PREEMPT_THRESHOLD_def)

lemma z_sched_prio_cmp_pos: "0 < z_sched_prio_cmp th1 th2 \<longleftrightarrow> prio_of th1 < prio_of th2"
  by (simp add: z_sched_prio_cmp_def Let_def)

end
