(* ===== verification/Dlist.thy ===== *)
theory Dlist
  imports Kernel_Prelude
begin

text \<open>
  The intrusive doubly-linked list of \<^verbatim>\<open>include/sys/dlist.h\<close>, at pointer level: a store
  holds the \<open>next\<close>/\<open>prev\<close> word of every node address, the list head is itself a node
  whose \<open>head\<close>/\<open>tail\<close> share the words of \<open>next\<close>/\<open>prev\<close> (the unions of the struct).
  Address 0 is NULL. \<open>dlist_rep m l xs\<close> relates the circular chain at the head \<open>l\<close> to the
  list \<open>xs\<close> of the addresses of its nodes; the lemmas show that every operation refines
  the corresponding operation on \<open>xs\<close> and leaves disjoint lists alone. The scheduler,
  wait-queue and timeout models use the list level.
\<close>

section \<open>The store and the operations\<close>

type_synonym addr = nat

abbreviation (input) NULL :: addr where "NULL \<equiv> 0"

record dmem =
  nxt :: "addr \<Rightarrow> addr"
  prv :: "addr \<Rightarrow> addr"

abbreviation set_nxt :: "addr \<Rightarrow> addr \<Rightarrow> dmem \<Rightarrow> dmem" where
  "set_nxt a v m \<equiv> m\<lparr>nxt := (nxt m)(a := v)\<rparr>"

abbreviation set_prv :: "addr \<Rightarrow> addr \<Rightarrow> dmem \<Rightarrow> dmem" where
  "set_prv a v m \<equiv> m\<lparr>prv := (prv m)(a := v)\<rparr>"

definition sys_dlist_init :: "addr \<Rightarrow> dmem \<Rightarrow> dmem" where
  "sys_dlist_init l m = set_prv l l (set_nxt l l m)"

definition sys_dnode_init :: "addr \<Rightarrow> dmem \<Rightarrow> dmem" where
  "sys_dnode_init n m = set_prv n NULL (set_nxt n NULL m)"

definition sys_dnode_is_linked :: "dmem \<Rightarrow> addr \<Rightarrow> bool" where
  "sys_dnode_is_linked m n \<longleftrightarrow> nxt m n \<noteq> NULL"

definition sys_dlist_is_head :: "dmem \<Rightarrow> addr \<Rightarrow> addr \<Rightarrow> bool" where
  "sys_dlist_is_head m l n \<longleftrightarrow> nxt m l = n"

definition sys_dlist_is_tail :: "dmem \<Rightarrow> addr \<Rightarrow> addr \<Rightarrow> bool" where
  "sys_dlist_is_tail m l n \<longleftrightarrow> prv m l = n"

definition sys_dlist_is_empty :: "dmem \<Rightarrow> addr \<Rightarrow> bool" where
  "sys_dlist_is_empty m l \<longleftrightarrow> nxt m l = l"

definition sys_dlist_has_multiple_nodes :: "dmem \<Rightarrow> addr \<Rightarrow> bool" where
  "sys_dlist_has_multiple_nodes m l \<longleftrightarrow> nxt m l \<noteq> prv m l"

definition sys_dlist_peek_head :: "dmem \<Rightarrow> addr \<Rightarrow> addr" where
  "sys_dlist_peek_head m l = (if sys_dlist_is_empty m l then NULL else nxt m l)"

definition sys_dlist_peek_head_not_empty :: "dmem \<Rightarrow> addr \<Rightarrow> addr" where
  "sys_dlist_peek_head_not_empty m l = nxt m l"

definition sys_dlist_peek_next_no_check :: "dmem \<Rightarrow> addr \<Rightarrow> addr \<Rightarrow> addr" where
  "sys_dlist_peek_next_no_check m l n = (if n = prv m l then NULL else nxt m n)"

definition sys_dlist_peek_next :: "dmem \<Rightarrow> addr \<Rightarrow> addr \<Rightarrow> addr" where
  "sys_dlist_peek_next m l n = (if n \<noteq> NULL then sys_dlist_peek_next_no_check m l n else NULL)"

definition sys_dlist_peek_prev_no_check :: "dmem \<Rightarrow> addr \<Rightarrow> addr \<Rightarrow> addr" where
  "sys_dlist_peek_prev_no_check m l n = (if n = nxt m l then NULL else prv m n)"

definition sys_dlist_peek_prev :: "dmem \<Rightarrow> addr \<Rightarrow> addr \<Rightarrow> addr" where
  "sys_dlist_peek_prev m l n = (if n \<noteq> NULL then sys_dlist_peek_prev_no_check m l n else NULL)"

definition sys_dlist_peek_tail :: "dmem \<Rightarrow> addr \<Rightarrow> addr" where
  "sys_dlist_peek_tail m l = (if sys_dlist_is_empty m l then NULL else prv m l)"

definition sys_dlist_append :: "addr \<Rightarrow> addr \<Rightarrow> dmem \<Rightarrow> dmem" where
  "sys_dlist_append l n m =
     (let tail = prv m l;
          m = set_nxt n l m;
          m = set_prv n tail m;
          m = set_nxt tail n m
      in set_prv l n m)"

definition sys_dlist_prepend :: "addr \<Rightarrow> addr \<Rightarrow> dmem \<Rightarrow> dmem" where
  "sys_dlist_prepend l n m =
     (let head = nxt m l;
          m = set_nxt n head m;
          m = set_prv n l m;
          m = set_prv head n m
      in set_nxt l n m)"

definition sys_dlist_insert :: "addr \<Rightarrow> addr \<Rightarrow> dmem \<Rightarrow> dmem" where
  "sys_dlist_insert successor n m =
     (let prev = prv m successor;
          m = set_prv n prev m;
          m = set_nxt n successor m;
          m = set_nxt prev n m
      in set_prv successor n m)"

definition sys_dlist_remove :: "addr \<Rightarrow> dmem \<Rightarrow> dmem" where
  "sys_dlist_remove n m =
     (let prev = prv m n;
          next = nxt m n;
          m = set_nxt prev next m;
          m = set_prv next prev m
      in sys_dnode_init n m)"

definition sys_dlist_get :: "addr \<Rightarrow> dmem \<Rightarrow> addr \<times> dmem" where
  "sys_dlist_get l m =
     (if \<not> sys_dlist_is_empty m l
      then (nxt m l, sys_dlist_remove (nxt m l) m) else (NULL, m))"

text \<open>
  The search loop of \<open>sys_dlist_insert_at\<close> (and of \<open>SYS_DLIST_FOR_EACH_NODE\<close> loops that
  stop at the first match): the position is followed with \<open>peek_next\<close> until the condition
  holds or NULL is reached. A corrupted chain may be followed forever, so the loop carries
  fuel; \<open>find_pos_rep\<close> below shows that one unit per node is enough.
\<close>

fun sys_dlist_find :: "nat \<Rightarrow> (addr \<Rightarrow> bool) \<Rightarrow> dmem \<Rightarrow> addr \<Rightarrow> addr \<Rightarrow> addr option" where
  "sys_dlist_find 0 cond m l pos = None"
| "sys_dlist_find (Suc f) cond m l pos =
     (if pos \<noteq> NULL \<and> \<not> cond pos then sys_dlist_find f cond m l (sys_dlist_peek_next m l pos)
      else Some pos)"

definition sys_dlist_insert_at :: "nat \<Rightarrow> addr \<Rightarrow> addr \<Rightarrow> (addr \<Rightarrow> bool) \<Rightarrow> dmem \<Rightarrow> dmem option" where
  "sys_dlist_insert_at fuel l n cond m =
     (if sys_dlist_is_empty m l then Some (sys_dlist_append l n m)
      else case sys_dlist_find fuel cond m l (sys_dlist_peek_head m l) of
             None \<Rightarrow> None
           | Some pos \<Rightarrow> Some (if pos \<noteq> NULL then sys_dlist_insert pos n m
                               else sys_dlist_append l n m))"

lemmas dlist_defs =
  sys_dlist_init_def sys_dnode_init_def sys_dnode_is_linked_def sys_dlist_is_head_def
  sys_dlist_is_tail_def sys_dlist_is_empty_def sys_dlist_has_multiple_nodes_def
  sys_dlist_peek_head_def sys_dlist_peek_head_not_empty_def sys_dlist_peek_next_no_check_def
  sys_dlist_peek_next_def sys_dlist_peek_prev_no_check_def sys_dlist_peek_prev_def
  sys_dlist_peek_tail_def sys_dlist_append_def sys_dlist_prepend_def sys_dlist_insert_def
  sys_dlist_remove_def sys_dlist_get_def

section \<open>The representation relation\<close>

fun links :: "dmem \<Rightarrow> addr list \<Rightarrow> bool" where
  "links m (a # b # r) \<longleftrightarrow> nxt m a = b \<and> prv m b = a \<and> links m (b # r)"
| "links m _ \<longleftrightarrow> True"

definition dlist_rep :: "dmem \<Rightarrow> addr \<Rightarrow> addr list \<Rightarrow> bool" where
  "dlist_rep m l xs \<longleftrightarrow> links m (l # xs @ [l]) \<and> distinct (l # xs) \<and> NULL \<notin> set (l # xs)"

lemma links_append:
  "links m (xs @ a # ys) \<longleftrightarrow> links m (xs @ [a]) \<and> links m (a # ys)"
  by (induction m xs rule: links.induct) auto

lemma links_Cons: "links m (a # xs) \<longleftrightarrow> (xs \<noteq> [] \<longrightarrow> nxt m a = hd xs \<and> prv m (hd xs) = a) \<and> links m xs"
  by (cases xs) auto

lemma links_snoc: "links m (xs @ [a]) \<longleftrightarrow> (xs \<noteq> [] \<longrightarrow> nxt m (last xs) = a \<and> prv m a = last xs) \<and> links m xs"
  by (induction m xs rule: links.induct) auto

text \<open>A write to a word that no link of the chain reads keeps the chain.\<close>

lemma links_cong:
  "\<forall>a\<in>set (butlast xs). nxt m' a = nxt m a \<Longrightarrow> \<forall>b\<in>set (tl xs). prv m' b = prv m b \<Longrightarrow>
   links m' xs = links m xs"
  by (induction m xs rule: links.induct) auto

lemma links_disjoint:
  "\<forall>a\<in>set xs. nxt m' a = nxt m a \<and> prv m' a = prv m a \<Longrightarrow> links m' xs = links m xs"
  by (induction m xs rule: links.induct) auto

lemma dlist_rep_disjoint:
  "\<forall>a\<in>set (l # xs). nxt m' a = nxt m a \<and> prv m' a = prv m a \<Longrightarrow>
   dlist_rep m' l xs = dlist_rep m l xs"
  unfolding dlist_rep_def using links_disjoint [of "l # xs @ [l]" m' m] by auto

lemma dlist_rep_head: "dlist_rep m l xs \<Longrightarrow> nxt m l = (if xs = [] then l else hd xs)"
  by (cases xs) (auto simp: dlist_rep_def)

lemma dlist_rep_tail: "dlist_rep m l xs \<Longrightarrow> prv m l = (if xs = [] then l else last xs)"
  by (auto simp: dlist_rep_def links_Cons links_snoc)

lemma dlist_rep_mid:
  "dlist_rep m l (ys @ n # zs) \<Longrightarrow>
   prv m n = (if ys = [] then l else last ys) \<and> nxt m n = (if zs = [] then l else hd zs)"
proof -
  assume "dlist_rep m l (ys @ n # zs)"
  then have "links m ((l # ys) @ n # zs @ [l])" by (simp add: dlist_rep_def)
  then have "links m ((l # ys) @ [n])" "links m (n # zs @ [l])"
    using links_append [of m "l # ys" n "zs @ [l]"] by simp_all
  then have "prv m n = last (l # ys)" "nxt m n = hd (zs @ [l])"
    using links_snoc [of m "l # ys" n] links_Cons [of m n "zs @ [l]"] by simp_all
  then show ?thesis by (cases zs) auto
qed

lemma dlist_rep_unique:
  assumes "dlist_rep m l xs" "dlist_rep m l ys" shows "xs = ys"
proof -
  have gen: "links m (a # us @ [l]) \<Longrightarrow> links m (a # vs @ [l]) \<Longrightarrow> l \<notin> set us \<Longrightarrow> l \<notin> set vs \<Longrightarrow> us = vs"
    for a us vs
  proof (induction us arbitrary: a vs)
    case Nil
    then show ?case by (cases vs) auto
  next
    case (Cons u us)
    then show ?case by (cases vs) auto
  qed
  show ?thesis using assms gen [of l xs ys] by (auto simp: dlist_rep_def)
qed


section \<open>The operations refine operations on lists\<close>

lemma not_last_butlast: "distinct xs \<Longrightarrow> a \<in> set (butlast xs) \<Longrightarrow> a \<noteq> last xs"
  by (induction xs) (auto split: if_splits)

lemma sys_dlist_init_rep: "l \<noteq> NULL \<Longrightarrow> dlist_rep (sys_dlist_init l m) l []"
  by (simp add: dlist_rep_def dlist_defs)

lemma sys_dlist_is_empty_rep: "dlist_rep m l xs \<Longrightarrow> sys_dlist_is_empty m l = (xs = [])"
  by (cases xs) (auto simp: dlist_rep_def dlist_defs)

lemma sys_dlist_peek_head_rep:
  "dlist_rep m l xs \<Longrightarrow> sys_dlist_peek_head m l = (case xs of [] \<Rightarrow> NULL | x # _ \<Rightarrow> x)"
  by (cases xs) (auto simp: dlist_rep_def dlist_defs)

lemma sys_dlist_peek_tail_rep:
  "dlist_rep m l xs \<Longrightarrow> sys_dlist_peek_tail m l = (if xs = [] then NULL else last xs)"
  using dlist_rep_tail sys_dlist_is_empty_rep by (simp add: sys_dlist_peek_tail_def)

lemma sys_dlist_peek_next_rep:
  assumes "dlist_rep m l (ys @ n # zs)"
  shows "sys_dlist_peek_next m l n = (case zs of [] \<Rightarrow> NULL | z # _ \<Rightarrow> z)"
proof -
  have "n \<noteq> NULL" "n = prv m l \<longleftrightarrow> zs = []"
    using assms dlist_rep_tail [OF assms] by (cases zs; auto simp: dlist_rep_def)+
  then show ?thesis
    using dlist_rep_mid [OF assms] by (cases zs) (auto simp: dlist_defs)
qed

lemma sys_dlist_peek_prev_rep:
  assumes "dlist_rep m l (ys @ n # zs)"
  shows "sys_dlist_peek_prev m l n = (if ys = [] then NULL else last ys)"
proof -
  have "n \<noteq> NULL" "n = nxt m l \<longleftrightarrow> ys = []"
    using assms dlist_rep_head [OF assms] by (cases ys; auto simp: dlist_rep_def)+
  then show ?thesis
    using dlist_rep_mid [OF assms] by (auto simp: dlist_defs)
qed

lemma dlist_rep_linked: "dlist_rep m l xs \<Longrightarrow> n \<in> set xs \<Longrightarrow> sys_dnode_is_linked m n"
proof -
  assume rep: "dlist_rep m l xs" and "n \<in> set xs"
  then obtain ys zs where "xs = ys @ n # zs" by (meson split_list)
  with rep dlist_rep_mid [of m l ys n zs] show ?thesis
    by (cases zs) (auto simp: sys_dnode_is_linked_def dlist_rep_def)
qed

lemma sys_dlist_append_rep:
  assumes rep: "dlist_rep m l xs" and n: "n \<notin> set (l # xs)" "n \<noteq> NULL"
  shows "dlist_rep (sys_dlist_append l n m) l (xs @ [n])"
proof -
  let ?m = "sys_dlist_append l n m" and ?t = "last (l # xs)"
  have tail: "prv m l = ?t" using dlist_rep_tail [OF rep] by auto
  have tn: "?t \<noteq> n" using n last_in_set [of "l # xs"] by auto
  have d: "distinct (l # xs)" using rep by (simp add: dlist_rep_def)
  have old: "links m (l # xs)"
    using rep links_snoc [of m "l # xs" l] by (simp add: dlist_rep_def)
  have "links ?m (l # xs) = links m (l # xs)"
  proof (rule links_cong)
    show "\<forall>a\<in>set (butlast (l # xs)). nxt ?m a = nxt m a"
      using not_last_butlast [OF d] n
      by (auto simp: sys_dlist_append_def Let_def tail dest: in_set_butlastD)
    show "\<forall>b\<in>set (tl (l # xs)). prv ?m b = prv m b"
      using n d by (auto simp: sys_dlist_append_def Let_def)
  qed
  then have "links ?m ((l # xs) @ [n])"
    using old tn tail n
    by (subst links_snoc) (simp add: sys_dlist_append_def Let_def)
  then have "links ?m (((l # xs) @ [n]) @ [l])"
    using tn n by (subst links_snoc) (simp add: sys_dlist_append_def Let_def tail)
  then show ?thesis using rep n by (auto simp: dlist_rep_def)
qed

lemma sys_dlist_insert_rep:
  assumes rep: "dlist_rep m l (ys @ s # zs)" and n: "n \<notin> set (l # ys @ s # zs)" "n \<noteq> NULL"
  shows "dlist_rep (sys_dlist_insert s n m) l (ys @ n # s # zs)"
proof -
  let ?m = "sys_dlist_insert s n m" and ?p = "last (l # ys)"
  have p: "prv m s = ?p" using dlist_rep_mid [OF rep] by auto
  have d: "distinct (l # ys @ s # zs)" using rep by (simp add: dlist_rep_def)
  have pn: "?p \<noteq> n" "?p \<noteq> s"
    using n d last_in_set [of "l # ys"] by (auto split: if_splits)
  have all: "links m ((l # ys) @ s # zs @ [l])" using rep by (simp add: dlist_rep_def)
  have fr: "links m (l # ys)" and bk: "links m (s # zs @ [l])"
    using all links_append [of m "l # ys" s "zs @ [l]"] links_snoc [of m "l # ys" s] by auto
  have "links ?m (l # ys) = links m (l # ys)"
  proof (rule links_cong)
    show "\<forall>a\<in>set (butlast (l # ys)). nxt ?m a = nxt m a"
      using not_last_butlast [of "l # ys"] d n
      by (auto simp: sys_dlist_insert_def Let_def p dest: in_set_butlastD)
    show "\<forall>b\<in>set (tl (l # ys)). prv ?m b = prv m b"
      using n d by (auto simp: sys_dlist_insert_def Let_def)
  qed
  moreover have "links ?m (s # zs @ [l]) = links m (s # zs @ [l])"
  proof (rule links_cong)
    have "?p \<in> set (l # ys)" by (rule last_in_set) simp
    with d have "?p \<notin> set (s # zs)" by auto
    then show "\<forall>a\<in>set (butlast (s # zs @ [l])). nxt ?m a = nxt m a"
      using n by (auto simp: sys_dlist_insert_def Let_def p butlast_append)
    show "\<forall>b\<in>set (tl (s # zs @ [l])). prv ?m b = prv m b"
      using n d by (auto simp: sys_dlist_insert_def Let_def)
  qed
  moreover have "nxt ?m ?p = n" "prv ?m n = ?p" "nxt ?m n = s" "prv ?m s = n"
    using pn n by (auto simp: sys_dlist_insert_def Let_def p)
  ultimately have "links ?m ((l # ys) @ [n])" "links ?m (n # s # zs @ [l])"
    using fr bk links_snoc [of ?m "l # ys" n] by auto
  then have "links ?m ((l # ys) @ n # s # zs @ [l])"
    using links_append [of ?m "l # ys" n "s # zs @ [l]"] by simp
  then show ?thesis using rep n by (auto simp: dlist_rep_def)
qed


lemma sys_dlist_prepend_rep:
  assumes rep: "dlist_rep m l xs" and n: "n \<notin> set (l # xs)" "n \<noteq> NULL"
  shows "dlist_rep (sys_dlist_prepend l n m) l (n # xs)"
proof (cases xs)
  case Nil
  then have "sys_dlist_prepend l n m = sys_dlist_append l n m"
    using rep n by (auto simp: dlist_rep_def sys_dlist_prepend_def sys_dlist_append_def Let_def)
  then show ?thesis using sys_dlist_append_rep [OF rep n] Nil by simp
next
  case (Cons h zs)
  then have "prv m h = l" "nxt m l = h"
    using dlist_rep_mid [of m l "[]" h zs] dlist_rep_head [of m l xs] rep by auto
  then have "sys_dlist_prepend l n m = sys_dlist_insert h n m"
    using n Cons by (simp add: sys_dlist_prepend_def sys_dlist_insert_def Let_def fun_upd_twist)
  then show ?thesis using sys_dlist_insert_rep [of m l "[]" h zs n] rep n Cons by simp
qed

lemma sys_dlist_remove_rep:
  assumes rep: "dlist_rep m l (ys @ n # zs)"
  shows "dlist_rep (sys_dlist_remove n m) l (ys @ zs)"
proof -
  let ?m = "sys_dlist_remove n m" and ?p = "last (l # ys)" and ?s = "hd (zs @ [l])"
  have ps: "prv m n = ?p" "nxt m n = ?s"
    using dlist_rep_mid [OF rep] by (auto simp: hd_append)
  have d: "distinct (l # ys @ n # zs)" using rep by (simp add: dlist_rep_def)
  have pin: "?p \<in> set (l # ys)" by (rule last_in_set) simp
  have sin: "?s \<in> set (l # zs)" by (cases zs) auto
  have neq: "?p \<noteq> n" "?s \<noteq> n" using pin sin d by auto
  have all: "links m ((l # ys) @ n # zs @ [l])" using rep by (simp add: dlist_rep_def)
  have fr: "links m (l # ys)" and bk: "links m (zs @ [l])"
    using all links_append [of m "l # ys" n "zs @ [l]"] links_snoc [of m "l # ys" n]
      links_Cons [of m n "zs @ [l]"] by auto
  have "links ?m (l # ys) = links m (l # ys)"
  proof (rule links_cong)
    have "distinct (l # ys)" using d by simp
    then have "?p \<notin> set (butlast (l # ys))"
      using not_last_butlast [of "l # ys" ?p] by blast
    then show "\<forall>a\<in>set (butlast (l # ys)). nxt ?m a = nxt m a"
      using d by (auto simp: sys_dlist_remove_def sys_dnode_init_def Let_def ps dest: in_set_butlastD)
    show "\<forall>b\<in>set (tl (l # ys)). prv ?m b = prv m b"
      using d sin by (auto simp: sys_dlist_remove_def sys_dnode_init_def Let_def ps)
  qed
  moreover have "links ?m (zs @ [l]) = links m (zs @ [l])"
  proof (rule links_cong)
    show "\<forall>a\<in>set (butlast (zs @ [l])). nxt ?m a = nxt m a"
      using d pin by (auto simp: sys_dlist_remove_def sys_dnode_init_def Let_def ps)
    show "\<forall>b\<in>set (tl (zs @ [l])). prv ?m b = prv m b"
      using d by (cases zs) (auto simp: sys_dlist_remove_def sys_dnode_init_def Let_def ps)
  qed
  moreover have "nxt ?m ?p = ?s" "prv ?m ?s = ?p"
    using neq by (auto simp: sys_dlist_remove_def sys_dnode_init_def Let_def ps)
  ultimately have "links ?m ((l # ys) @ [?s])" "links ?m (zs @ [l])"
    using fr bk links_snoc [of ?m "l # ys" ?s] by auto
  then have "links ?m ((l # ys) @ zs @ [l])"
    using links_append [of ?m "l # ys" ?s "tl (zs @ [l])"] by (cases zs) auto
  then show ?thesis using rep by (auto simp: dlist_rep_def)
qed

lemma sys_dlist_remove_unlinks: "\<not> sys_dnode_is_linked (sys_dlist_remove n m) n"
  by (simp add: sys_dnode_is_linked_def sys_dlist_remove_def sys_dnode_init_def Let_def)

text \<open>On a list without duplicates, unlinking is \<open>remove1\<close>.\<close>

lemma sys_dlist_remove_remove1:
  assumes "dlist_rep m l xs" "n \<in> set xs"
  shows "dlist_rep (sys_dlist_remove n m) l (remove1 n xs)"
proof -
  obtain ys zs where xs: "xs = ys @ n # zs" "n \<notin> set ys"
    using assms(2) by (meson split_list_first)
  then show ?thesis
    using sys_dlist_remove_rep [of m l ys n zs] assms(1) by (simp add: remove1_append)
qed

lemma sys_dlist_get_rep:
  assumes "dlist_rep m l xs"
  shows "case xs of [] \<Rightarrow> sys_dlist_get l m = (NULL, m)
         | x # r \<Rightarrow> fst (sys_dlist_get l m) = x \<and> dlist_rep (snd (sys_dlist_get l m)) l r"
  using assms sys_dlist_is_empty_rep [OF assms] dlist_rep_head [OF assms]
    sys_dlist_remove_rep [of m l "[]"]
  by (auto simp: sys_dlist_get_def split: list.splits)

text \<open>Lists that share no node with the operated one keep their representation.\<close>

lemma sys_dlist_append_frame:
  assumes "dlist_rep m l xs" "dlist_rep m l' ys" "set (l' # ys) \<inter> set (n # l # xs) = {}"
  shows "dlist_rep (sys_dlist_append l n m) l' ys"
proof -
  have "prv m l \<in> set (l # xs)" using dlist_rep_tail [OF assms(1)] by auto
  then have "dlist_rep (sys_dlist_append l n m) l' ys = dlist_rep m l' ys"
    using assms(3) by (intro dlist_rep_disjoint) (auto simp: sys_dlist_append_def Let_def)
  then show ?thesis using assms(2) by simp
qed

lemma sys_dlist_insert_frame:
  assumes "dlist_rep m l (us @ s # vs)" "dlist_rep m l' ys"
    "set (l' # ys) \<inter> set (n # l # us @ s # vs) = {}"
  shows "dlist_rep (sys_dlist_insert s n m) l' ys"
proof -
  have "prv m s \<in> set (l # us)" using dlist_rep_mid [OF assms(1)] by auto
  then have "dlist_rep (sys_dlist_insert s n m) l' ys = dlist_rep m l' ys"
    using assms(3) by (intro dlist_rep_disjoint) (auto simp: sys_dlist_insert_def Let_def)
  then show ?thesis using assms(2) by simp
qed

lemma sys_dlist_remove_frame:
  assumes "dlist_rep m l (us @ n # vs)" "dlist_rep m l' ys"
    "set (l' # ys) \<inter> set (l # us @ n # vs) = {}"
  shows "dlist_rep (sys_dlist_remove n m) l' ys"
proof -
  have "prv m n \<in> set (l # us)" "nxt m n \<in> set (l # vs)"
    using dlist_rep_mid [OF assms(1)] by auto
  then have "dlist_rep (sys_dlist_remove n m) l' ys = dlist_rep m l' ys"
    using assms(3)
    by (intro dlist_rep_disjoint) (auto simp: sys_dlist_remove_def sys_dnode_init_def Let_def)
  then show ?thesis using assms(2) by simp
qed

section \<open>Searching and insertion at a position\<close>

fun insert_before_first :: "('a \<Rightarrow> bool) \<Rightarrow> 'a \<Rightarrow> 'a list \<Rightarrow> 'a list" where
  "insert_before_first P x [] = [x]"
| "insert_before_first P x (y # ys) = (if P y then x # y # ys else y # insert_before_first P x ys)"

lemma insert_before_first_split:
  "insert_before_first P x xs = takeWhile (\<lambda>y. \<not> P y) xs @ x # dropWhile (\<lambda>y. \<not> P y) xs"
  by (induction xs) auto

lemma insort_after_insert_before_first:
  "insort_after f x xs = insert_before_first (\<lambda>y. f x < f y) x xs"
  by (induction xs) auto

lemma find_pos_rep:
  assumes "dlist_rep m l (ys @ zs)" "length zs < fuel"
  shows "sys_dlist_find fuel cond m l (case zs of [] \<Rightarrow> NULL | z # _ \<Rightarrow> z) =
    Some (case dropWhile (\<lambda>y. \<not> cond y) zs of [] \<Rightarrow> NULL | z # _ \<Rightarrow> z)"
  using assms
proof (induction zs arbitrary: ys fuel)
  case Nil
  then show ?case by (cases fuel) auto
next
  case (Cons z zs)
  obtain f where f: "fuel = Suc f" using Cons.prems by (cases fuel) auto
  have "z \<noteq> NULL" using Cons.prems by (auto simp: dlist_rep_def)
  moreover have "sys_dlist_peek_next m l z = (case zs of [] \<Rightarrow> NULL | z # _ \<Rightarrow> z)"
    using Cons.prems by (intro sys_dlist_peek_next_rep) auto
  ultimately show ?case
    using Cons.IH [of "ys @ [z]" f] Cons.prems f by simp
qed

lemma sys_dlist_insert_at_rep:
  assumes rep: "dlist_rep m l xs" and n: "n \<notin> set (l # xs)" "n \<noteq> NULL" and f: "length xs < fuel"
  shows "\<exists>m'. sys_dlist_insert_at fuel l n cond m = Some m' \<and>
    dlist_rep m' l (insert_before_first cond n xs)"
proof -
  let ?p = "takeWhile (\<lambda>y. \<not> cond y) xs" and ?d = "dropWhile (\<lambda>y. \<not> cond y) xs"
  have find: "sys_dlist_find fuel cond m l (sys_dlist_peek_head m l) =
      Some (case ?d of [] \<Rightarrow> NULL | z # _ \<Rightarrow> z)"
    using find_pos_rep [of m l "[]" xs] sys_dlist_peek_head_rep [OF rep] rep f by simp
  have res: "insert_before_first cond n xs = ?p @ n # ?d" by (rule insert_before_first_split)
  show ?thesis
  proof (cases ?d)
    case Nil
    then have "sys_dlist_insert_at fuel l n cond m = Some (sys_dlist_append l n m)"
      using find by (simp only: sys_dlist_insert_at_def list.case option.case) simp
    moreover have "?p = xs" using Nil by (metis append_Nil2 takeWhile_dropWhile_id)
    then have "insert_before_first cond n xs = xs @ [n]" using res Nil by metis
    ultimately show ?thesis using sys_dlist_append_rep [OF rep n] by simp
  next
    case (Cons z zs)
    have xs: "xs = ?p @ z # zs" using Cons by (metis takeWhile_dropWhile_id)
    then have zin: "z \<in> set xs" using in_set_conv_decomp by fastforce
    have "NULL \<notin> set xs" using rep by (simp add: dlist_rep_def)
    with zin have "z \<noteq> NULL" "xs \<noteq> []" by (metis, auto)
    then have "sys_dlist_insert_at fuel l n cond m = Some (sys_dlist_insert z n m)"
      using find Cons sys_dlist_is_empty_rep [OF rep] by (simp add: sys_dlist_insert_at_def)
    moreover have "dlist_rep (sys_dlist_insert z n m) l (?p @ n # z # zs)"
      using sys_dlist_insert_rep [of m l ?p z zs n] rep n xs by simp
    ultimately show ?thesis using res Cons by simp
  qed
qed

section \<open>Properties\<close>

text \<open>
  C9: The pointer operations of the doubly linked list refine the operations on lists:
  append, prepend and the conditional insertion put the node where the list operation puts
  it, the search loop of the insertion ends, and removing the appended node restores the
  list and leaves the node unlinked.
\<close>

theorem dlist_refines_lists:
  assumes "dlist_rep m l xs" "n \<notin> set (l # xs)" "n \<noteq> NULL" "length xs < fuel"
  shows "dlist_rep (sys_dlist_append l n m) l (xs @ [n]) \<and> dlist_rep (sys_dlist_prepend l n m) l (n # xs) \<and>
    (\<exists>m'. sys_dlist_insert_at fuel l n cond m = Some m' \<and> dlist_rep m' l (insert_before_first cond n xs)) \<and>
    dlist_rep (sys_dlist_remove n (sys_dlist_append l n m)) l xs \<and>
    \<not> sys_dnode_is_linked (sys_dlist_remove n (sys_dlist_append l n m)) n"
  using sys_dlist_append_rep [OF assms(1-3)] sys_dlist_prepend_rep [OF assms(1-3)]
    sys_dlist_insert_at_rep [OF assms] sys_dlist_remove_rep [of "sys_dlist_append l n m" l xs n "[]"]
    sys_dlist_remove_unlinks by simp

definition sample_nodes :: dmem where
  "sample_nodes = sys_dlist_init 5 \<lparr>nxt = (\<lambda>_. 0), prv = (\<lambda>_. 0)\<rparr>"

lemma sample_nodes_rep: "dlist_rep sample_nodes 5 []"
  unfolding sample_nodes_def by (rule sys_dlist_init_rep) simp

theorem dlist_refines_lists_witness: "dlist_rep (sys_dlist_append 5 6 sample_nodes) 5 [6]"
  using dlist_refines_lists [OF sample_nodes_rep, of 6 1 "\<lambda>_. True"] by simp

end
