(* ===== verification/Priq.thy ===== *)
theory Priq
  imports Kernel_State Dlist
begin

text \<open>
  Priority-queue back ends of \<^verbatim>\<open>kernel/sched.c\<close>. The configured one, used for the
  ready queue and every wait queue, is the \<open>dumb\<close> sorted list; \<open>mq\<close> is the array of
  queues with a bitmap. Both are shown to implement one interface, the locale
  \<open>prio_queue\<close>: the queue stands for a sequence ordered by priority and, within a
  priority, by arrival, and \<open>best\<close> is its head. The pointer-level insertion loop is
  related to the list one at the end.
\<close>

section \<open>The interface\<close>

text \<open>
  \<open>tab\<close> is the table of thread structures the queue is read against: the queues hold
  addresses, the priorities are in the structures.
\<close>

locale prio_queue =
  fixes empty :: 'q
    and add :: "(tid \<Rightarrow> k_thread) \<Rightarrow> 'q \<Rightarrow> tid \<Rightarrow> 'q"
    and remove :: "(tid \<Rightarrow> k_thread) \<Rightarrow> 'q \<Rightarrow> tid \<Rightarrow> 'q"
    and best :: "'q \<Rightarrow> tid option"
    and seq :: "'q \<Rightarrow> tid list"
    and invar :: "(tid \<Rightarrow> k_thread) \<Rightarrow> 'q \<Rightarrow> bool"
    and ok :: "k_thread \<Rightarrow> bool"
  assumes seq_empty: "seq empty = []"
    and invar_empty: "invar tab empty"
    and seq_add: "invar tab q \<Longrightarrow> ok (tab t) \<Longrightarrow> t \<notin> set (seq q) \<Longrightarrow>
      seq (add tab q t) = insort_after (\<lambda>t. prio_of (tab t)) t (seq q)"
    and invar_add: "invar tab q \<Longrightarrow> ok (tab t) \<Longrightarrow> t \<notin> set (seq q) \<Longrightarrow> invar tab (add tab q t)"
    and seq_remove: "invar tab q \<Longrightarrow> t \<in> set (seq q) \<Longrightarrow> seq (remove tab q t) = remove1 t (seq q)"
    and invar_remove: "invar tab q \<Longrightarrow> t \<in> set (seq q) \<Longrightarrow> invar tab (remove tab q t)"
    and best_seq: "invar tab q \<Longrightarrow> best q = (case seq q of [] \<Rightarrow> None | t # _ \<Rightarrow> Some t)"
    and seq_sorted: "invar tab q \<Longrightarrow> sorted_key (\<lambda>t. prio_of (tab t)) (seq q)"
    and seq_distinct: "invar tab q \<Longrightarrow> distinct (seq q)"
begin

lemma best_is_highest:
  assumes "invar tab q" "t \<in> set (seq q)"
  shows "\<exists>b. best q = Some b \<and> b \<in> set (seq q) \<and> prio_of (tab b) \<le> prio_of (tab t)"
  using assms best_seq [of tab q] seq_sorted [of tab q] by (cases "seq q") auto

lemma best_None_iff: "invar tab q \<Longrightarrow> best q = None \<longleftrightarrow> seq q = []"
  by (auto simp: best_seq split: list.splits)

lemma best_in_seq: "invar tab q \<Longrightarrow> best q = Some b \<Longrightarrow> b \<in> set (seq q)"
  by (auto simp: best_seq split: list.splits)

text \<open>Threads of one priority are served in the order in which they were added.\<close>

lemma add_behind_equals:
  assumes "invar tab q" "ok (tab t)" "t \<notin> set (seq q)"
  shows "filter (\<lambda>u. prio_of (tab u) = prio_of (tab t)) (seq (add tab q t)) =
    filter (\<lambda>u. prio_of (tab u) = prio_of (tab t)) (seq q) @ [t]"
proof -
  let ?f = "\<lambda>u. prio_of (tab u)"
  have "seq (add tab q t) = filter (\<lambda>y. ?f y \<le> ?f t) (seq q) @ t # filter (\<lambda>y. ?f t < ?f y) (seq q)"
    using assms seq_sorted [of tab q] by (simp add: seq_add insort_after_split)
  moreover have "filter (\<lambda>u. ?f u = ?f t) (filter (\<lambda>y. ?f t < ?f y) (seq q)) = []"
    by (auto simp: filter_empty_conv)
  moreover have "filter (\<lambda>u. ?f u = ?f t) (filter (\<lambda>y. ?f y \<le> ?f t) (seq q)) =
      filter (\<lambda>u. ?f u = ?f t) (seq q)"
    by (simp add: conj_commute) (rule filter_cong, auto)
  ultimately show ?thesis by simp
qed

lemma add_remove_restores:
  assumes "invar tab q" "ok (tab t)" "t \<notin> set (seq q)"
  shows "seq (remove tab (add tab q t) t) = seq q"
  using assms invar_add seq_distinct [of tab q]
  by (simp add: seq_remove seq_add insort_after_remove1)

end

section \<open>The sorted list (\<^verbatim>\<open>CONFIG_SCHED_DUMB\<close>, \<^verbatim>\<open>CONFIG_WAITQ_DUMB\<close>)\<close>

fun z_priq_dumb_add :: "(tid \<Rightarrow> k_thread) \<Rightarrow> tid list \<Rightarrow> tid \<Rightarrow> tid list" where
  "z_priq_dumb_add tab [] thread = [thread]"
| "z_priq_dumb_add tab (t # ts) thread =
     (if z_sched_prio_cmp (tab thread) (tab t) > 0 then thread # t # ts
      else t # z_priq_dumb_add tab ts thread)"

definition z_priq_dumb_remove :: "(tid \<Rightarrow> k_thread) \<Rightarrow> tid list \<Rightarrow> tid \<Rightarrow> tid list" where
  "z_priq_dumb_remove tab pq thread = remove1 thread pq"

definition z_priq_dumb_best :: "tid list \<Rightarrow> tid option" where
  "z_priq_dumb_best pq = (case pq of [] \<Rightarrow> None | n # _ \<Rightarrow> Some n)"

fun priq_dumb_mask_best :: "(tid \<Rightarrow> k_thread) \<Rightarrow> cpu_id \<Rightarrow> tid list \<Rightarrow> tid option" where
  "priq_dumb_mask_best tab c [] = None"
| "priq_dumb_mask_best tab c (t # ts) =
     (if cpu_mask (tab t) AND push_bit c 1 \<noteq> 0 then Some t else priq_dumb_mask_best tab c ts)"

lemma z_priq_dumb_add_insort:
  "z_priq_dumb_add tab pq t = insort_after (\<lambda>t. prio_of (tab t)) t pq"
  by (induction pq) (auto simp: z_sched_prio_cmp_pos)

definition dumb_invar :: "(tid \<Rightarrow> k_thread) \<Rightarrow> tid list \<Rightarrow> bool" where
  "dumb_invar tab pq \<longleftrightarrow> distinct pq \<and> sorted_key (\<lambda>t. prio_of (tab t)) pq"

interpretation dumbq: prio_queue "[]" z_priq_dumb_add z_priq_dumb_remove z_priq_dumb_best
  "\<lambda>pq. pq" dumb_invar "\<lambda>_. True"
  by unfold_locales
    (auto simp: dumb_invar_def z_priq_dumb_add_insort z_priq_dumb_remove_def z_priq_dumb_best_def
      split: list.splits)

lemma priq_dumb_mask_best_find:
  "priq_dumb_mask_best tab c pq = List.find (\<lambda>t. bit (cpu_mask (tab t)) c) pq"
proof (induction pq)
  case (Cons t ts)
  have "(cpu_mask (tab t) AND push_bit c 1 \<noteq> 0) = bit (cpu_mask (tab t)) c"
    using and_mask_bit [of "cpu_mask (tab t)" c] by (simp add: push_bit_of_1)
  then show ?case using Cons by simp
qed simp

lemma priq_dumb_mask_best_best:
  assumes "dumb_invar tab pq" "t \<in> set pq" "bit (cpu_mask (tab t)) c"
  shows "\<exists>b. priq_dumb_mask_best tab c pq = Some b \<and> b \<in> set pq \<and> bit (cpu_mask (tab b)) c \<and>
    prio_of (tab b) \<le> prio_of (tab t)"
  using assms unfolding dumb_invar_def priq_dumb_mask_best_find
  by (induction pq) auto

lemma priq_dumb_mask_best_SomeD:
  "priq_dumb_mask_best tab c pq = Some b \<Longrightarrow> b \<in> set pq \<and> bit (cpu_mask (tab b)) c"
  by (auto simp: priq_dumb_mask_best_find find_Some_iff)

lemma priq_dumb_mask_best_NoneD:
  "priq_dumb_mask_best tab c pq = None \<Longrightarrow> t \<in> set pq \<Longrightarrow> \<not> bit (cpu_mask (tab t)) c"
  by (auto simp: priq_dumb_mask_best_find find_None_iff)


section \<open>The array of queues (\<^verbatim>\<open>CONFIG_SCHED_MULTIQ\<close>)\<close>

record priq_mq =
  queues :: "nat \<Rightarrow> tid list"
  bitmask :: u32

definition builtin_ctz :: "u32 \<Rightarrow> nat" where
  "builtin_ctz w = length (takeWhile (\<lambda>n. \<not> bit w n) [0..<32])"

definition priority_bit :: "k_thread \<Rightarrow> nat" where
  "priority_bit th = nat (prio_of th - K_HIGHEST_THREAD_PRIO)"

definition mq_empty :: priq_mq where
  "mq_empty = \<lparr>queues = (\<lambda>_. []), bitmask = 0\<rparr>"

definition z_priq_mq_add :: "(tid \<Rightarrow> k_thread) \<Rightarrow> priq_mq \<Rightarrow> tid \<Rightarrow> priq_mq" where
  "z_priq_mq_add tab pq thread =
     (let b = priority_bit (tab thread);
          pq = pq\<lparr>queues := (queues pq)(b := queues pq b @ [thread])\<rparr>
      in pq\<lparr>bitmask := bitmask pq OR 2 ^ b\<rparr>)"

definition z_priq_mq_remove :: "(tid \<Rightarrow> k_thread) \<Rightarrow> priq_mq \<Rightarrow> tid \<Rightarrow> priq_mq" where
  "z_priq_mq_remove tab pq thread =
     (let b = priority_bit (tab thread);
          pq = pq\<lparr>queues := (\<lambda>i. remove1 thread (queues pq i))\<rparr>
      in if queues pq b = [] then pq\<lparr>bitmask := bitmask pq AND NOT (2 ^ b)\<rparr> else pq)"

definition z_priq_mq_best :: "priq_mq \<Rightarrow> tid option" where
  "z_priq_mq_best pq =
     (if bitmask pq = 0 then None
      else case queues pq (builtin_ctz (bitmask pq)) of [] \<Rightarrow> None | n # _ \<Rightarrow> Some n)"

definition mq_seq :: "priq_mq \<Rightarrow> tid list" where
  "mq_seq pq = concat (map (queues pq) [0..<32])"

definition valid_mq_prio :: "k_thread \<Rightarrow> bool" where
  "valid_mq_prio th \<longleftrightarrow> K_HIGHEST_THREAD_PRIO \<le> prio_of th \<and> prio_of th \<le> K_LOWEST_THREAD_PRIO"

definition mq_invar :: "(tid \<Rightarrow> k_thread) \<Rightarrow> priq_mq \<Rightarrow> bool" where
  "mq_invar tab pq \<longleftrightarrow>
     (\<forall>i. (\<forall>t\<in>set (queues pq i). i = priority_bit (tab t) \<and> valid_mq_prio (tab t)) \<and>
          distinct (queues pq i)) \<and>
     (\<forall>i<32. bit (bitmask pq) i \<longleftrightarrow> queues pq i \<noteq> [])"

text \<open>Every bucket holds one priority, so the buckets in ascending order are one sorted sequence.\<close>

lemma priority_bit_prio:
  "valid_mq_prio th \<Longrightarrow> prio_of th = int (priority_bit th) + K_HIGHEST_THREAD_PRIO \<and> priority_bit th < 32"
  by (auto simp: valid_mq_prio_def priority_bit_def)

lemma sorted_key_concat:
  assumes "\<And>i x. i \<in> set is \<Longrightarrow> x \<in> set (q i) \<Longrightarrow> f x = int i + c"
    and "sorted is"
  shows "sorted_key f (concat (map q is))"
  using assms
proof (induction "is")
  case (Cons i "is")
  have "sorted_key f (q i)"
  proof -
    have "\<forall>x\<in>set (q i). f x = int i + c" using Cons.prems by auto
    then show ?thesis by (induction "q i") (auto simp: sorted_wrt_iff_nth_less)
  qed
  moreover have "\<forall>x\<in>set (q i). \<forall>y\<in>set (concat (map q is)). f x \<le> f y"
    using Cons.prems by fastforce
  moreover have "sorted_key f (concat (map q is))" using Cons by auto
  ultimately show ?case by (simp add: sorted_wrt_append)
qed simp

lemma mq_bucketD:
  "mq_invar tab pq \<Longrightarrow> t \<in> set (queues pq i) \<Longrightarrow>
   prio_of (tab t) = int i + K_HIGHEST_THREAD_PRIO \<and> i < 32 \<and> i = priority_bit (tab t)"
  using priority_bit_prio unfolding mq_invar_def by metis

lemma mq_seq_sorted: "mq_invar tab pq \<Longrightarrow> sorted_key (\<lambda>t. prio_of (tab t)) (mq_seq pq)"
  unfolding mq_seq_def by (rule sorted_key_concat) (auto dest: mq_bucketD)

lemma set_mq_seq: "mq_invar tab pq \<Longrightarrow> t \<in> set (mq_seq pq) \<longleftrightarrow> t \<in> set (queues pq (priority_bit (tab t)))"
  by (force simp: mq_seq_def dest: mq_bucketD)

lemma mq_seq_split:
  "i < 32 \<Longrightarrow> mq_seq pq = concat (map (queues pq) [0..<i]) @ queues pq i @ concat (map (queues pq) [Suc i..<32])"
proof -
  assume "i < 32"
  then have "[0..<32] = [0..<i] @ i # [Suc i..<32]"
    by (metis le_add1 less_imp_add_positive upt_add_eq_append upt_conv_Cons plus_nat.add_0 zero_le)
  then show ?thesis by (simp add: mq_seq_def)
qed

lemma mq_seq_changed:
  assumes "i < 32" and "\<And>j. j \<noteq> i \<Longrightarrow> queues pq' j = queues pq j"
  shows "mq_seq pq' = concat (map (queues pq) [0..<i]) @ queues pq' i @ concat (map (queues pq) [Suc i..<32])"
proof -
  have "map (queues pq') [0..<i] = map (queues pq) [0..<i]"
    "map (queues pq') [Suc i..<32] = map (queues pq) [Suc i..<32]"
    using assms(2) by simp_all
  then show ?thesis by (simp only: mq_seq_split [OF assms(1), of pq'])
qed

lemma mq_seq_distinct: "mq_invar tab pq \<Longrightarrow> distinct (mq_seq pq)"
proof -
  assume inv: "mq_invar tab pq"
  have "distinct (concat (map (queues pq) is))" if "distinct is" for "is"
    using that
  proof (induction "is")
    case (Cons i "is")
    moreover have "distinct (queues pq i)" using inv by (auto simp: mq_invar_def)
    ultimately show ?case using inv by (auto dest: mq_bucketD)
  qed simp
  then show ?thesis by (simp add: mq_seq_def)
qed

lemma z_priq_mq_add_seq:
  assumes inv: "mq_invar tab pq" and v: "valid_mq_prio (tab t)"
  shows "mq_seq (z_priq_mq_add tab pq t) = insort_after (\<lambda>t. prio_of (tab t)) t (mq_seq pq)"
proof -
  let ?b = "priority_bit (tab t)" and ?f = "\<lambda>t. prio_of (tab t)"
  have b: "?b < 32" "?f t = int ?b + K_HIGHEST_THREAD_PRIO" using priority_bit_prio [OF v] by auto
  let ?lo = "concat (map (queues pq) [0..<?b])" and ?hi = "concat (map (queues pq) [Suc ?b..<32])"
  have lo: "\<forall>x\<in>set (?lo @ queues pq ?b). ?f x \<le> ?f t" using inv b by (auto dest: mq_bucketD)
  have hi: "\<forall>x\<in>set ?hi. ?f t < ?f x" using inv b by (auto dest: mq_bucketD)
  have "insort_after ?f t (mq_seq pq) = (?lo @ queues pq ?b) @ t # ?hi"
    using lo hi mq_seq_sorted [OF inv] mq_seq_split [OF b(1), of pq]
    by (simp add: insort_after_split filter_empty_conv not_le not_less cong: filter_cong)
  moreover have "mq_seq (z_priq_mq_add tab pq t) = ?lo @ (queues pq ?b @ [t]) @ ?hi"
    using mq_seq_changed [OF b(1), of "z_priq_mq_add tab pq t" pq]
    by (simp add: z_priq_mq_add_def Let_def)
  ultimately show ?thesis by simp
qed

lemma z_priq_mq_add_invar:
  assumes inv: "mq_invar tab pq" and v: "valid_mq_prio (tab t)" and t: "t \<notin> set (mq_seq pq)"
  shows "mq_invar tab (z_priq_mq_add tab pq t)"
proof -
  have "t \<notin> set (queues pq (priority_bit (tab t)))" using t set_mq_seq [OF inv] by simp
  then show ?thesis
    using inv v by (auto simp: mq_invar_def z_priq_mq_add_def Let_def bit_or_exp)
qed

lemma mq_remove1_other:
  "mq_invar tab pq \<Longrightarrow> i \<noteq> priority_bit (tab t) \<Longrightarrow> remove1 t (queues pq i) = queues pq i"
  by (metis mq_bucketD remove1_idem)

lemma z_priq_mq_remove_seq:
  assumes inv: "mq_invar tab pq" and t: "t \<in> set (mq_seq pq)"
  shows "mq_seq (z_priq_mq_remove tab pq t) = remove1 t (mq_seq pq)"
proof -
  let ?b = "priority_bit (tab t)"
  have tq: "t \<in> set (queues pq ?b)" using t set_mq_seq [OF inv] by simp
  have b: "?b < 32" using mq_bucketD [OF inv tq] by simp
  have lo: "t \<notin> set (concat (map (queues pq) [0..<?b]))" using inv by (auto dest: mq_bucketD)
  have "queues (z_priq_mq_remove tab pq t) = (\<lambda>i. remove1 t (queues pq i))"
    by (simp add: z_priq_mq_remove_def Let_def)
  then have "mq_seq (z_priq_mq_remove tab pq t) =
      concat (map (queues pq) [0..<?b]) @ remove1 t (queues pq ?b) @ concat (map (queues pq) [Suc ?b..<32])"
    using mq_seq_changed [OF b, of "z_priq_mq_remove tab pq t" pq] mq_remove1_other [OF inv]
    by simp
  then show ?thesis using mq_seq_split [OF b, of pq] lo tq by (simp add: remove1_append)
qed

lemma z_priq_mq_remove_invar:
  assumes inv: "mq_invar tab pq"
  shows "mq_invar tab (z_priq_mq_remove tab pq t)"
proof -
  let ?b = "priority_bit (tab t)"
  have q: "queues (z_priq_mq_remove tab pq t) = (\<lambda>i. remove1 t (queues pq i))"
    by (simp add: z_priq_mq_remove_def Let_def)
  have "bit (bitmask (z_priq_mq_remove tab pq t)) i \<longleftrightarrow> remove1 t (queues pq i) \<noteq> []" if "i < 32" for i
  proof (cases "i = ?b")
    case True
    have "queues pq ?b \<noteq> []" if "remove1 t (queues pq ?b) \<noteq> []" using that by auto
    then show ?thesis
      using True that inv by (auto simp: z_priq_mq_remove_def Let_def bit_andnot_exp mq_invar_def)
  next
    case False
    then show ?thesis
      using mq_remove1_other [OF inv False] that inv
      by (auto simp: z_priq_mq_remove_def Let_def bit_andnot_exp mq_invar_def)
  qed
  moreover have "\<forall>x\<in>set (remove1 t (queues pq i)). i = priority_bit (tab x) \<and> valid_mq_prio (tab x)" for i
    using inv notin_set_remove1 unfolding mq_invar_def by fast
  moreover have "distinct (remove1 t (queues pq i))" for i
    using inv by (simp add: mq_invar_def)
  ultimately show ?thesis by (simp add: mq_invar_def q)
qed

lemma builtin_ctz_least:
  assumes "w \<noteq> 0"
  shows "builtin_ctz w < 32 \<and> bit w (builtin_ctz w) \<and> (\<forall>n<builtin_ctz w. \<not> bit w n)"
proof -
  obtain n where n: "bit w n" using assms by (metis bit_eqI bit_0_eq bot_apply bot_bool_def)
  then have n32: "n < 32" using bit_imp_le_length [OF n] by simp
  let ?k = "length (takeWhile (\<lambda>n. \<not> bit w n) [0..<32])"
  have k: "?k < length [0..<32::nat]"
  proof (rule ccontr)
    assume "\<not> ?k < length [0..<32::nat]"
    then have "takeWhile (\<lambda>n. \<not> bit w n) [0..<32] = [0..<32]"
      by (metis length_takeWhile_le le_antisym not_less takeWhile_eq_take take_all order_refl)
    then show False using n n32 by (metis atLeastLessThan_iff set_upt takeWhile_eq_all_conv zero_le)
  qed
  moreover have "bit w ?k" using nth_length_takeWhile [OF k] k by simp
  moreover have "\<not> bit w m" if "m < ?k" for m
  proof -
    have "takeWhile (\<lambda>n. \<not> bit w n) [0..<32] ! m = m" using that k by (simp add: takeWhile_nth)
    then show ?thesis using set_takeWhileD nth_mem that by metis
  qed
  ultimately show ?thesis by (simp add: builtin_ctz_def)
qed

lemma z_priq_mq_best_seq:
  assumes inv: "mq_invar tab pq"
  shows "z_priq_mq_best pq = (case mq_seq pq of [] \<Rightarrow> None | t # _ \<Rightarrow> Some t)"
proof (cases "bitmask pq = 0")
  case True
  then have "\<forall>i<32. queues pq i = []" using inv by (simp add: mq_invar_def)
  then have "mq_seq pq = []" by (simp add: mq_seq_def)
  then show ?thesis using True by (simp add: z_priq_mq_best_def)
next
  case False
  let ?i = "builtin_ctz (bitmask pq)"
  have i: "?i < 32" "bit (bitmask pq) ?i" "\<forall>n<?i. \<not> bit (bitmask pq) n"
    using builtin_ctz_least [OF False] by auto
  then have "queues pq ?i \<noteq> []" "concat (map (queues pq) [0..<?i]) = []" using inv by (auto simp: mq_invar_def)
  then show ?thesis
    using mq_seq_split [OF i(1), of pq] False
    by (auto simp: z_priq_mq_best_def neq_Nil_conv simp del: concat_eq_Nil_conv)
qed

interpretation multiq: prio_queue mq_empty z_priq_mq_add z_priq_mq_remove z_priq_mq_best
  mq_seq mq_invar valid_mq_prio
proof
  show "mq_seq mq_empty = []" by (simp add: mq_seq_def mq_empty_def)
  show "mq_invar tab mq_empty" for tab by (simp add: mq_invar_def mq_empty_def)
qed (simp_all add: z_priq_mq_add_seq z_priq_mq_add_invar z_priq_mq_remove_seq z_priq_mq_remove_invar
    z_priq_mq_best_seq mq_seq_sorted mq_seq_distinct)

section \<open>The insertion loop on linked nodes\<close>

text \<open>
  \<open>z_priq_dumb_add\<close> as the code runs it: the loop over the nodes of the intrusive list
  compares priorities and links the new node before the first worse one. The container of
  a node is looked up with \<open>container\<close> (\<^verbatim>\<open>CONTAINER_OF\<close> with the thread's structure).
\<close>

definition z_priq_dumb_add_nodes ::
  "nat \<Rightarrow> (addr \<Rightarrow> k_thread) \<Rightarrow> addr \<Rightarrow> addr \<Rightarrow> dmem \<Rightarrow> dmem option" where
  "z_priq_dumb_add_nodes fuel container pq node m =
     (case sys_dlist_find fuel (\<lambda>t. z_sched_prio_cmp (container node) (container t) > 0) m pq
             (sys_dlist_peek_head m pq) of
        None \<Rightarrow> None
      | Some t \<Rightarrow> Some (if t \<noteq> NULL then sys_dlist_insert t node m else sys_dlist_append pq node m))"

lemma z_priq_dumb_add_nodes_rep:
  assumes rep: "dlist_rep m pq xs" and n: "n \<notin> set (pq # xs)" "n \<noteq> NULL" and f: "length xs < fuel"
  shows "\<exists>m'. z_priq_dumb_add_nodes fuel container pq n m = Some m' \<and>
    dlist_rep m' pq (z_priq_dumb_add container xs n)"
proof -
  let ?cond = "\<lambda>t. z_sched_prio_cmp (container n) (container t) > 0"
  have "z_priq_dumb_add container xs n = insert_before_first ?cond n xs"
    by (induction xs) auto
  moreover have "z_priq_dumb_add_nodes fuel container pq n m = sys_dlist_insert_at fuel pq n ?cond m"
  proof (cases xs)
    case Nil
    then have "sys_dlist_is_empty m pq" "sys_dlist_peek_head m pq = NULL"
      using sys_dlist_is_empty_rep [OF rep] sys_dlist_peek_head_rep [OF rep] by simp_all
    then show ?thesis
      using f by (cases fuel) (simp_all add: z_priq_dumb_add_nodes_def sys_dlist_insert_at_def)
  next
    case Cons
    then show ?thesis
      using sys_dlist_is_empty_rep [OF rep]
      by (simp add: z_priq_dumb_add_nodes_def sys_dlist_insert_at_def)
  qed
  ultimately show ?thesis using sys_dlist_insert_at_rep [OF rep n f] by simp
qed

section \<open>Properties\<close>


definition sample_thread :: k_thread where
  "sample_thread = \<lparr>pended_on = None, user_options = 0, thread_state = 0, prio = 3, sched_locked = 0,
     is_idle = False, cpu_mask = 0, swap_data = 0, swap_retval = 0\<rparr>"

definition sample_mq :: priq_mq where "sample_mq = \<lparr>queues = (\<lambda>_. []), bitmask = 0\<rparr>"


text \<open>
  C11: The sorted-list back end on linked nodes, the code as it runs, refines the list
  operation: its insertion loop ends and leaves a well-linked list in which the thread
  stands behind all threads of its own or a more urgent priority.
\<close>

theorem dumb_nodes_refine:
  assumes "dlist_rep m pq xs" "n \<notin> set (pq # xs)" "n \<noteq> NULL" "length xs < fuel"
  shows "\<exists>m'. z_priq_dumb_add_nodes fuel container pq n m = Some m' \<and>
    dlist_rep m' pq (insort_after (\<lambda>t. prio_of (container t)) n xs)"
  using z_priq_dumb_add_nodes_rep [OF assms, of container] by (simp add: z_priq_dumb_add_insort)

theorem dumb_nodes_refine_witness:
  "\<exists>m'. z_priq_dumb_add_nodes 4 (\<lambda>_. sample_thread) 5 6 sample_nodes = Some m' \<and> dlist_rep m' 5 [6]"
  using dumb_nodes_refine [OF sample_nodes_rep, of 6 4 "\<lambda>_. sample_thread"] by simp

end
