(* ===== verification/Timeout.thy ===== *)
theory Timeout
  imports Kernel_State
begin

text \<open>
  The timeout queue of \<^verbatim>\<open>kernel/timeout.c\<close>: a list in which every entry holds the ticks
  that separate it from its predecessor. The first part shows that insertion and removal
  on these differences are insertion and removal of absolute deadlines in a list ordered by
  deadline (locale \<open>deadline_queue\<close>); the second part has the operations of the file on
  the kernel state. \<^verbatim>\<open>sys_clock_announce\<close> is in theory \<open>Clock\<close>, since it calls
  handlers of the scheduler.
\<close>

section \<open>Timeout values\<close>

text \<open>
  A \<^verbatim>\<open>k_timeout_t\<close> is its \<^verbatim>\<open>int64_t\<close> tick count; the negative numbers below
  \<^verbatim>\<open>K_TICKS_FOREVER\<close> encode absolute times.
\<close>

type_synonym k_timeout_t = int

abbreviation (input) K_TICKS_FOREVER :: int where "K_TICKS_FOREVER \<equiv> - 1"
abbreviation (input) K_FOREVER :: k_timeout_t where "K_FOREVER \<equiv> K_TICKS_FOREVER"
abbreviation (input) K_NO_WAIT :: k_timeout_t where "K_NO_WAIT \<equiv> 0"
abbreviation (input) MAX_WAIT :: int where "MAX_WAIT \<equiv> INT_MAX"

definition Z_TICK_ABS :: "int \<Rightarrow> int" where
  "Z_TICK_ABS t = K_TICKS_FOREVER - 1 - t"

section \<open>The list of differences\<close>

fun insert_delta :: "toid \<Rightarrow> int \<Rightarrow> (toid \<times> int) list \<Rightarrow> (toid \<times> int) list" where
  "insert_delta to d [] = [(to, d)]"
| "insert_delta to d ((t, dt) # ts) =
     (if dt > d then (to, d) # (t, dt - d) # ts
      else (t, dt) # insert_delta to (d - dt) ts)"

fun remove_delta :: "toid \<Rightarrow> (toid \<times> int) list \<Rightarrow> (toid \<times> int) list" where
  "remove_delta to [] = []"
| "remove_delta to ((t, dt) # ts) =
     (if t = to
      then (case ts of [] \<Rightarrow> [] | (n, dn) # ns \<Rightarrow> (n, dn + dt) # ns)
      else (t, dt) # remove_delta to ts)"

fun sum_delta :: "toid \<Rightarrow> int \<Rightarrow> (toid \<times> int) list \<Rightarrow> int" where
  "sum_delta to ticks [] = ticks"
| "sum_delta to ticks ((t, dt) # ts) =
     (if to = t then ticks + dt else sum_delta to (ticks + dt) ts)"

text \<open>What the list stands for: every timeout with its distance from the start of the list.\<close>

fun deadlines :: "int \<Rightarrow> (toid \<times> int) list \<Rightarrow> (toid \<times> int) list" where
  "deadlines b [] = []"
| "deadlines b ((t, d) # ts) = (t, b + d) # deadlines (b + d) ts"

definition tlist_wf :: "(toid \<times> int) list \<Rightarrow> bool" where
  "tlist_wf ts \<longleftrightarrow> distinct (map fst ts) \<and> (\<forall>d\<in>snd ` set ts. 0 \<le> d)"

section \<open>The interface\<close>

locale deadline_queue =
  fixes insert :: "toid \<Rightarrow> int \<Rightarrow> 'q \<Rightarrow> 'q"
    and remove :: "toid \<Rightarrow> 'q \<Rightarrow> 'q"
    and due :: "'q \<Rightarrow> (toid \<times> int) list"
    and wf :: "'q \<Rightarrow> bool"
  assumes due_insert: "wf q \<Longrightarrow> due (insert t d q) = insort_after snd (t, d) (due q)"
    and due_remove: "wf q \<Longrightarrow> due (remove t q) = filter (\<lambda>e. fst e \<noteq> t) (due q)"
    and wf_insert: "wf q \<Longrightarrow> 0 \<le> d \<Longrightarrow> t \<notin> fst ` set (due q) \<Longrightarrow> wf (insert t d q)"
    and wf_remove: "wf q \<Longrightarrow> wf (remove t q)"
    and due_sorted: "wf q \<Longrightarrow> sorted_key snd (due q)"
    and due_distinct: "wf q \<Longrightarrow> distinct (map fst (due q))"
begin

definition deadline :: "toid \<Rightarrow> 'q \<Rightarrow> int option" where
  "deadline t q = map_of (due q) t"

lemma deadline_in: "wf q \<Longrightarrow> deadline t q = Some d \<longleftrightarrow> (t, d) \<in> set (due q)"
  by (simp add: deadline_def due_distinct)

lemma deadline_insert:
  assumes "wf q" "0 \<le> d" "t \<notin> fst ` set (due q)"
  shows "deadline u (insert t d q) = (if u = t then Some d else deadline u q)"
proof -
  have "deadline u (insert t d q) = Some e \<longleftrightarrow> (if u = t then Some d else deadline u q) = Some e" for e
    using assms deadline_in [OF wf_insert [OF assms]] deadline_in [OF assms(1)]
    by (force simp: due_insert image_iff)
  then show ?thesis by (metis option.exhaust)
qed

lemma deadline_remove: "wf q \<Longrightarrow> deadline u (remove t q) = (if u = t then None else deadline u q)"
proof -
  assume w: "wf q"
  have "deadline u (remove t q) = Some e \<longleftrightarrow> (if u = t then None else deadline u q) = Some e" for e
    using deadline_in [OF w] deadline_in [OF wf_remove [OF w]] by (auto simp: due_remove [OF w])
  then show ?thesis by (metis option.exhaust)
qed

lemma remove_insert:
  assumes "wf q" "0 \<le> d" "t \<notin> fst ` set (due q)"
  shows "due (remove t (insert t d q)) = due q"
proof -
  have "filter (\<lambda>e. fst e \<noteq> t) (insort_after snd (t, d) es) = es" if "t \<notin> fst ` set es" for es
    using that by (induction es) (auto simp: filter_id_conv image_iff)
  then show ?thesis using assms by (simp add: due_remove due_insert wf_insert)
qed

text \<open>The head of the queue is the next one to expire.\<close>

lemma hd_earliest: "wf q \<Longrightarrow> (t, d) \<in> set (due q) \<Longrightarrow> snd (hd (due q)) \<le> d"
  using sorted_key_hd_le [OF due_sorted] by force

end

section \<open>The difference list implements it\<close>

lemma deadlines_fst [simp]: "map fst (deadlines b ts) = map fst ts"
  by (induction b ts rule: deadlines.induct) auto

lemma fst_deadlines [simp]: "fst ` set (deadlines b ts) = fst ` set ts"
  by (metis deadlines_fst list.set_map)

lemma deadlines_insert_delta:
  "deadlines b (insert_delta to d ts) = insort_after snd (to, b + d) (deadlines b ts)"
  by (induction to d ts arbitrary: b rule: insert_delta.induct) auto

lemma deadlines_remove_delta:
  "distinct (map fst ts) \<Longrightarrow>
   deadlines b (remove_delta to ts) = filter (\<lambda>e. fst e \<noteq> to) (deadlines b ts)"
proof (induction to ts arbitrary: b rule: remove_delta.induct)
  case (2 to t dt ts)
  show ?case
  proof (cases "t = to")
    case True
    then have "to \<notin> fst ` set (deadlines (b + dt) ts)" using 2 by simp
    then have "filter (\<lambda>e. fst e \<noteq> to) (deadlines (b + dt) ts) = deadlines (b + dt) ts"
      by (metis (mono_tags, lifting) filter_True image_eqI)
    then show ?thesis using True by (auto simp: algebra_simps split: list.splits)
  next
    case False
    then show ?thesis using 2 by auto
  qed
qed simp

lemma deadlines_ge: "\<forall>d\<in>snd ` set ts. 0 \<le> d \<Longrightarrow> \<forall>e\<in>set (deadlines b ts). b \<le> snd e"
  by (induction b ts rule: deadlines.induct) force+

lemma deadlines_sorted: "\<forall>d\<in>snd ` set ts. 0 \<le> d \<Longrightarrow> sorted_key snd (deadlines b ts)"
  by (induction b ts rule: deadlines.induct) (use deadlines_ge in \<open>auto\<close>)

lemma deadlines_shift: "deadlines (b + s) ts = map (\<lambda>(t, d). (t, d + s)) (deadlines b ts)"
proof (induction b ts rule: deadlines.induct)
  case (2 b t d ts)
  then show ?case by (simp add: add.assoc add.commute [of s])
qed simp

lemma insert_delta_nonneg:
  "0 \<le> d \<Longrightarrow> \<forall>x\<in>snd ` set ts. 0 \<le> x \<Longrightarrow> \<forall>x\<in>snd ` set (insert_delta to d ts). 0 \<le> x"
  by (induction to d ts rule: insert_delta.induct) auto

lemma set_insert_delta [simp]: "fst ` set (insert_delta to d ts) = insert to (fst ` set ts)"
  by (induction to d ts rule: insert_delta.induct) auto

lemma distinct_insert_delta:
  "distinct (map fst (insert_delta to d ts)) \<longleftrightarrow> to \<notin> fst ` set ts \<and> distinct (map fst ts)"
  by (induction to d ts rule: insert_delta.induct) (auto simp: image_iff)

lemma remove_delta_fst: "distinct (map fst ts) \<Longrightarrow> map fst (remove_delta to ts) = filter (\<lambda>t. t \<noteq> to) (map fst ts)"
proof -
  assume "distinct (map fst ts)"
  then have "map fst (deadlines 0 (remove_delta to ts)) = map fst (filter (\<lambda>e. fst e \<noteq> to) (deadlines 0 ts))"
    by (simp add: deadlines_remove_delta del: deadlines_fst)
  also have "\<dots> = filter (\<lambda>t. t \<noteq> to) (map fst (deadlines 0 ts))" by (simp add: filter_map o_def del: deadlines_fst)
  finally show ?thesis by simp
qed

lemma remove_delta_nonneg:
  "\<forall>x\<in>snd ` set ts. 0 \<le> x \<Longrightarrow> \<forall>x\<in>snd ` set (remove_delta to ts). 0 \<le> x"
proof (induction to ts rule: remove_delta.induct)
  case (2 to t dt ts)
  then show ?case by (cases ts) auto
qed simp

lemma tlist_wf_insert: "tlist_wf ts \<Longrightarrow> 0 \<le> d \<Longrightarrow> to \<notin> fst ` set ts \<Longrightarrow> tlist_wf (insert_delta to d ts)"
  unfolding tlist_wf_def by (meson distinct_insert_delta insert_delta_nonneg)

lemma tlist_wf_remove: "tlist_wf ts \<Longrightarrow> tlist_wf (remove_delta to ts)"
  unfolding tlist_wf_def by (metis distinct_filter remove_delta_fst remove_delta_nonneg)

interpretation deltaq: deadline_queue insert_delta remove_delta "deadlines 0" tlist_wf
proof
  fix ts to d
  assume w: "tlist_wf ts"
  show "deadlines 0 (insert_delta to d ts) = insort_after snd (to, d) (deadlines 0 ts)"
    by (simp add: deadlines_insert_delta)
  show "deadlines 0 (remove_delta to ts) = filter (\<lambda>e. fst e \<noteq> to) (deadlines 0 ts)"
    using w by (simp add: deadlines_remove_delta tlist_wf_def)
  show "tlist_wf (remove_delta to ts)" using w by (rule tlist_wf_remove)
  show "sorted_key snd (deadlines 0 ts)" using w unfolding tlist_wf_def by (blast intro: deadlines_sorted)
  show "distinct (map fst (deadlines 0 ts))" using w by (simp add: tlist_wf_def)
  assume "0 \<le> d" "to \<notin> fst ` set (deadlines 0 ts)"
  then show "tlist_wf (insert_delta to d ts)" using w by (simp add: tlist_wf_insert)
qed

lemma set_remove_delta [simp]:
  assumes "tlist_wf ts"
  shows "fst ` set (remove_delta to ts) = fst ` set ts - {to}"
proof -
  have "set (map fst (remove_delta to ts)) = set (filter (\<lambda>t. t \<noteq> to) (map fst ts))"
    using assms by (simp only: remove_delta_fst tlist_wf_def)
  then show ?thesis by auto
qed

lemma sum_delta_deadline:
  "tlist_wf ts \<Longrightarrow> (to, d) \<in> set (deadlines b ts) \<Longrightarrow> sum_delta to b ts = d"
proof (induction to b ts rule: sum_delta.induct)
  case (2 to ticks t dt ts)
  show ?case
  proof (cases "to = t")
    case True
    then have "to \<notin> fst ` set (deadlines (ticks + dt) ts)" using 2 by (simp add: tlist_wf_def)
    then have "(to, d) \<notin> set (deadlines (ticks + dt) ts)" by (metis fst_conv image_eqI)
    then show ?thesis using 2(3) True by simp
  next
    case False
    then show ?thesis using 2 by (auto simp: tlist_wf_def)
  qed
qed simp

section \<open>The operations of \<^verbatim>\<open>timeout.c\<close>\<close>

definition elapsed :: "kernel \<Rightarrow> int" where
  "elapsed k = (if announce_remaining k = 0 then clock_elapsed k else 0)"

definition CLAMP :: "int \<Rightarrow> int \<Rightarrow> int \<Rightarrow> int" where
  "CLAMP val low high = (if val \<le> low then low else min val high)"

definition next_timeout :: "cpu_id \<Rightarrow> kernel \<Rightarrow> int" where
  "next_timeout c k =
     (let ticks_elapsed = elapsed k;
          ret = (case timeout_list k of
                   [] \<Rightarrow> MAX_WAIT
                 | (_, dticks) # _ \<Rightarrow> CLAMP (dticks - ticks_elapsed) 0 MAX_WAIT);
          slice = slice_ticks (cpus k c)
      in if slice \<noteq> 0 \<and> slice < ret then slice else ret)"

definition sys_clock_set_timeout :: "int \<Rightarrow> bool \<Rightarrow> kernel \<Rightarrow> kernel" where
  "sys_clock_set_timeout ticks idle k = k\<lparr>clock_timeout := Some (ticks, idle)\<rparr>"

text \<open>
  The ticks stored for a new timeout: for an absolute time the 64-bit difference to the
  current tick, at least 1; for a relative one the ticks asked for, the ticks that passed
  since the last announcement, and one more.
\<close>

definition timeout_dticks :: "kernel \<Rightarrow> k_timeout_t \<Rightarrow> int" where
  "timeout_dticks k timeout =
     (if Z_TICK_ABS timeout \<ge> 0
      then max 1 (sint (word_of_int (Z_TICK_ABS timeout) - curr_tick k))
      else timeout + 1 + elapsed k)"

definition z_add_timeout :: "cpu_id \<Rightarrow> toid \<Rightarrow> k_timeout_t \<Rightarrow> kernel \<Rightarrow> kernel" where
  "z_add_timeout c to timeout k =
     (if timeout = K_FOREVER then k
      else
        let k = k\<lparr>timeout_list := insert_delta to (timeout_dticks k timeout) (timeout_list k)\<rparr>
        in if fst (hd (timeout_list k)) = to
           then
             let next_time = next_timeout c k
             in if next_time = 0 \<or> slice_ticks (cpus k c) \<noteq> next_time
                then sys_clock_set_timeout next_time False k
                else k
           else k)"

definition z_abort_timeout :: "toid \<Rightarrow> kernel \<Rightarrow> int \<times> kernel" where
  "z_abort_timeout to k =
     (if \<not> z_is_inactive_timeout k to
      then (0, k\<lparr>timeout_list := remove_delta to (timeout_list k)\<rparr>)
      else (- EINVAL, k))"

definition timeout_rem :: "toid \<Rightarrow> kernel \<Rightarrow> int" where
  "timeout_rem to k =
     (if z_is_inactive_timeout k to then 0
      else sum_delta to 0 (timeout_list k) - elapsed k)"

definition z_timeout_remaining :: "toid \<Rightarrow> kernel \<Rightarrow> int" where
  "z_timeout_remaining to k = timeout_rem to k"

definition z_timeout_expires :: "toid \<Rightarrow> kernel \<Rightarrow> int" where
  "z_timeout_expires to k = sint (curr_tick k + word_of_int (timeout_rem to k))"

definition z_get_next_timeout_expiry :: "cpu_id \<Rightarrow> kernel \<Rightarrow> int" where
  "z_get_next_timeout_expiry c k = next_timeout c k"

definition z_set_timeout_expiry :: "cpu_id \<Rightarrow> int \<Rightarrow> bool \<Rightarrow> kernel \<Rightarrow> kernel" where
  "z_set_timeout_expiry c ticks idle k =
     (let next_to = next_timeout c k;
          sooner = (next_to = K_TICKS_FOREVER \<or> ticks \<le> next_to);
          imminent = next_to \<le> 1
      in if \<not> imminent \<and> (sooner \<or> CONFIG_SMP k)
         then sys_clock_set_timeout (min ticks next_to) idle k
         else k)"

definition sys_clock_tick_get :: "kernel \<Rightarrow> int" where
  "sys_clock_tick_get k = sint (curr_tick k + word_of_int (clock_elapsed k))"

definition sys_clock_tick_get_32 :: "kernel \<Rightarrow> u32" where
  "sys_clock_tick_get_32 k = word_of_int (sys_clock_tick_get k)"

definition k_uptime_ticks :: "kernel \<Rightarrow> int" where
  "k_uptime_ticks k = sys_clock_tick_get k"

definition sys_clock_timeout_end_calc :: "k_timeout_t \<Rightarrow> kernel \<Rightarrow> u64" where
  "sys_clock_timeout_end_calc timeout k =
     (if timeout = K_FOREVER then - 1
      else if timeout = K_NO_WAIT then word_of_int (sys_clock_tick_get k)
      else if Z_TICK_ABS timeout \<ge> 0 then word_of_int (Z_TICK_ABS timeout)
      else word_of_int (sys_clock_tick_get k + max 1 timeout))"

definition z_add_thread_timeout :: "cpu_id \<Rightarrow> tid \<Rightarrow> k_timeout_t \<Rightarrow> kernel \<Rightarrow> kernel" where
  "z_add_thread_timeout c t ticks k = z_add_timeout c (ThreadTo t) ticks k"

definition z_abort_thread_timeout :: "tid \<Rightarrow> kernel \<Rightarrow> int \<times> kernel" where
  "z_abort_thread_timeout t k = z_abort_timeout (ThreadTo t) k"

section \<open>What they do to the list\<close>

lemma z_add_timeout_fields [simp]:
  "threads (z_add_timeout c to d k) = threads k"
  "cpus (z_add_timeout c to d k) = cpus k"
  "cache (z_add_timeout c to d k) = cache k"
  "runq (z_add_timeout c to d k) = runq k"
  "waitqs (z_add_timeout c to d k) = waitqs k"
  "curr_tick (z_add_timeout c to d k) = curr_tick k"
  "announce_remaining (z_add_timeout c to d k) = announce_remaining k"
  "clock_elapsed (z_add_timeout c to d k) = clock_elapsed k"
  "CONFIG_SMP (z_add_timeout c to d k) = CONFIG_SMP k"
  "CONFIG_MP_NUM_CPUS (z_add_timeout c to d k) = CONFIG_MP_NUM_CPUS k"
  "CONFIG_SCHED_CPU_MASK (z_add_timeout c to d k) = CONFIG_SCHED_CPU_MASK k"
  "slice_time (z_add_timeout c to d k) = slice_time k"
  "slice_max_prio (z_add_timeout c to d k) = slice_max_prio k"
  by (simp_all add: z_add_timeout_def Let_def sys_clock_set_timeout_def)

lemma timeout_list_add:
  "timeout_list (z_add_timeout c to d k) =
     (if d = K_FOREVER then timeout_list k
      else insert_delta to (timeout_dticks k d) (timeout_list k))"
  by (simp add: z_add_timeout_def Let_def sys_clock_set_timeout_def)

lemma timeout_list_abort:
  "tlist_wf (timeout_list k) \<Longrightarrow>
   snd (z_abort_timeout to k) = k\<lparr>timeout_list := remove_delta to (timeout_list k)\<rparr>"
proof -
  have "remove_delta to ts = ts" if "to \<notin> fst ` set ts" for ts
    using that by (induction to ts rule: remove_delta.induct) auto
  then show ?thesis by (simp add: z_abort_timeout_def z_is_inactive_timeout_def)
qed

lemma z_abort_timeout_fields [simp]:
  "threads (snd (z_abort_timeout to k)) = threads k"
  "cpus (snd (z_abort_timeout to k)) = cpus k"
  "cache (snd (z_abort_timeout to k)) = cache k"
  "runq (snd (z_abort_timeout to k)) = runq k"
  "waitqs (snd (z_abort_timeout to k)) = waitqs k"
  "curr_tick (snd (z_abort_timeout to k)) = curr_tick k"
  "announce_remaining (snd (z_abort_timeout to k)) = announce_remaining k"
  "clock_elapsed (snd (z_abort_timeout to k)) = clock_elapsed k"
  "CONFIG_SMP (snd (z_abort_timeout to k)) = CONFIG_SMP k"
  "CONFIG_MP_NUM_CPUS (snd (z_abort_timeout to k)) = CONFIG_MP_NUM_CPUS k"
  "CONFIG_SCHED_CPU_MASK (snd (z_abort_timeout to k)) = CONFIG_SCHED_CPU_MASK k"
  "slice_time (snd (z_abort_timeout to k)) = slice_time k"
  "slice_max_prio (snd (z_abort_timeout to k)) = slice_max_prio k"
  by (simp_all add: z_abort_timeout_def)

lemma z_set_timeout_expiry_frame: "\<exists>x. z_set_timeout_expiry c d i k = k\<lparr>clock_timeout := x\<rparr>"
proof -
  have "k = k\<lparr>clock_timeout := clock_timeout k\<rparr>" by simp
  then show ?thesis unfolding z_set_timeout_expiry_def Let_def sys_clock_set_timeout_def by metis
qed

text \<open>Time is not negative: the clock driver reports a non-negative number of ticks.\<close>

lemma timeout_dticks_pos:
  "0 \<le> clock_elapsed k \<Longrightarrow> timeout \<noteq> K_FOREVER \<Longrightarrow> 1 \<le> timeout_dticks k timeout"
  by (auto simp: timeout_dticks_def elapsed_def Z_TICK_ABS_def)

lemma tlist_wf_add:
  "tlist_wf (timeout_list k) \<Longrightarrow> 0 \<le> clock_elapsed k \<Longrightarrow> z_is_inactive_timeout k to \<Longrightarrow>
   tlist_wf (timeout_list (z_add_timeout c to d k))"
  using timeout_dticks_pos [of k d]
  by (auto simp: timeout_list_add z_is_inactive_timeout_def intro: tlist_wf_insert)

lemma tlist_wf_abort: "tlist_wf (timeout_list k) \<Longrightarrow> tlist_wf (timeout_list (snd (z_abort_timeout to k)))"
  by (simp add: timeout_list_abort tlist_wf_remove)

lemma inactive_add:
  "z_is_inactive_timeout (z_add_timeout c to d k) u \<longleftrightarrow>
     z_is_inactive_timeout k u \<and> (u \<noteq> to \<or> d = K_FOREVER)"
  by (auto simp: z_is_inactive_timeout_def timeout_list_add)

lemma inactive_abort:
  "tlist_wf (timeout_list k) \<Longrightarrow>
   z_is_inactive_timeout (snd (z_abort_timeout to k)) u \<longleftrightarrow> z_is_inactive_timeout k u \<or> u = to"
  by (auto simp: z_is_inactive_timeout_def timeout_list_abort)

lemma timeout_rem_deadline:
  assumes "tlist_wf (timeout_list k)"
  shows "timeout_rem to k =
    (case deltaq.deadline to (timeout_list k) of None \<Rightarrow> 0 | Some d \<Rightarrow> d - elapsed k)"
proof (cases "deltaq.deadline to (timeout_list k)")
  case None
  then have "z_is_inactive_timeout k to"
    by (simp add: deltaq.deadline_def map_of_eq_None_iff z_is_inactive_timeout_def)
  then show ?thesis using None by (simp add: timeout_rem_def)
next
  case (Some d)
  then have d: "(to, d) \<in> set (deadlines 0 (timeout_list k))" using deltaq.deadline_in [OF assms] by simp
  then have "to \<in> fst ` set (timeout_list k)" using fst_deadlines by (metis fst_conv image_eqI)
  then show ?thesis
    using Some d sum_delta_deadline [OF assms d] by (simp add: timeout_rem_def z_is_inactive_timeout_def)
qed

text \<open>Adding one timeout leaves the remaining time of every other one as it was.\<close>

lemma timeout_rem_add:
  assumes "tlist_wf (timeout_list k)" "0 \<le> clock_elapsed k" "z_is_inactive_timeout k to" "d \<noteq> K_FOREVER"
  shows "timeout_rem u (z_add_timeout c to d k) =
    (if u = to then timeout_dticks k d - elapsed k else timeout_rem u k)"
proof -
  have "timeout_rem u (z_add_timeout c to d k) =
      (case deltaq.deadline u (insert_delta to (timeout_dticks k d) (timeout_list k)) of
         None \<Rightarrow> 0 | Some e \<Rightarrow> e - elapsed k)"
    using timeout_rem_deadline [OF tlist_wf_add [OF assms(1-3)], of u c d] assms(4)
    by (simp add: timeout_list_add elapsed_def cong: option.case_cong)
  then show ?thesis
    using assms timeout_dticks_pos [OF assms(2,4)]
    by (simp add: timeout_rem_deadline deltaq.deadline_insert z_is_inactive_timeout_def)
qed

lemma timeout_rem_abort:
  assumes "tlist_wf (timeout_list k)"
  shows "timeout_rem u (snd (z_abort_timeout to k)) = (if u = to then 0 else timeout_rem u k)"
  using assms tlist_wf_abort [OF assms, of to]
  by (simp add: timeout_rem_deadline timeout_list_abort deltaq.deadline_remove elapsed_def
      cong: option.case_cong)

end
