(* ===== verification/Time_Units.thy ===== *)
theory Time_Units
  imports Kernel_Prelude
begin

text \<open>
  The time-unit converter of \<^verbatim>\<open>include/sys/time_units.h\<close>: one routine, \<open>z_tmcvt\<close>,
  selects among three formulas and is instantiated once per pair of units and rounding
  mode. It is shown to compute the rounded quotient \<open>t * to_hz / from_hz\<close> whenever the
  64-bit intermediate values do not wrap.
\<close>

section \<open>The converter\<close>

definition z_tmcvt :: "u64 \<Rightarrow> u32 \<Rightarrow> u32 \<Rightarrow> bool \<Rightarrow> bool \<Rightarrow> bool \<Rightarrow> bool \<Rightarrow> u64" where
  "z_tmcvt t from_hz to_hz const_hz result32 round_up round_off =
     (let mul_ratio = (const_hz \<and> to_hz > from_hz \<and> to_hz mod from_hz = 0);
          div_ratio = (const_hz \<and> from_hz > to_hz \<and> from_hz mod to_hz = 0)
      in if from_hz = to_hz then (if result32 then ucast (ucast t :: u32) else t)
         else
           let off = (if mul_ratio then 0
                      else
                        let rdivisor = (if div_ratio then from_hz div to_hz else from_hz);
                            off = (if round_up then ucast (rdivisor - 1) else 0)
                        in if round_off then ucast (rdivisor div 2) else off)
           in if div_ratio then
                let t = t + off
                in if result32 \<and> t < 2 ^ 32
                   then ucast ((ucast t :: u32) div (from_hz div to_hz))
                   else t div (ucast from_hz div ucast to_hz)
              else if mul_ratio then
                if result32 then ucast ((ucast t :: u32) * (to_hz div from_hz))
                else t * (ucast to_hz div ucast from_hz)
              else
                if result32 then ucast (ucast ((t * ucast to_hz + off) div ucast from_hz) :: u32)
                else (t * ucast to_hz + off) div ucast from_hz)"

abbreviation (input) CONFIG_SYS_CLOCK_TICKS_PER_SEC :: u32 where "CONFIG_SYS_CLOCK_TICKS_PER_SEC \<equiv> 1000"
abbreviation (input) CONFIG_SYS_CLOCK_HW_CYCLES_PER_SEC :: u32 where
  "CONFIG_SYS_CLOCK_HW_CYCLES_PER_SEC \<equiv> 1000000"

abbreviation (input) Z_HZ_ms :: u32 where "Z_HZ_ms \<equiv> 1000"
abbreviation (input) Z_HZ_us :: u32 where "Z_HZ_us \<equiv> 1000000"
abbreviation (input) Z_HZ_ns :: u32 where "Z_HZ_ns \<equiv> 1000000000"
abbreviation (input) Z_HZ_cyc :: u32 where "Z_HZ_cyc \<equiv> CONFIG_SYS_CLOCK_HW_CYCLES_PER_SEC"
abbreviation (input) Z_HZ_ticks :: u32 where "Z_HZ_ticks \<equiv> CONFIG_SYS_CLOCK_TICKS_PER_SEC"

definition k_ms_to_ticks_ceil32 :: "u32 \<Rightarrow> u32" where
  "k_ms_to_ticks_ceil32 t = ucast (z_tmcvt (ucast t) Z_HZ_ms Z_HZ_ticks True True True False)"

definition k_ms_to_ticks_ceil64 :: "u64 \<Rightarrow> u64" where
  "k_ms_to_ticks_ceil64 t = z_tmcvt t Z_HZ_ms Z_HZ_ticks True False True False"

definition k_us_to_ticks_ceil64 :: "u64 \<Rightarrow> u64" where
  "k_us_to_ticks_ceil64 t = z_tmcvt t Z_HZ_us Z_HZ_ticks True False True False"

definition k_ticks_to_ms_floor64 :: "u64 \<Rightarrow> u64" where
  "k_ticks_to_ms_floor64 t = z_tmcvt t Z_HZ_ticks Z_HZ_ms True False False False"

definition k_ticks_to_us_floor64 :: "u64 \<Rightarrow> u64" where
  "k_ticks_to_us_floor64 t = z_tmcvt t Z_HZ_ticks Z_HZ_us True False False False"

definition k_cyc_to_ticks_floor64 :: "u64 \<Rightarrow> u64" where
  "k_cyc_to_ticks_floor64 t = z_tmcvt t Z_HZ_cyc Z_HZ_ticks True False False False"

definition k_ticks_to_cyc_floor64 :: "u64 \<Rightarrow> u64" where
  "k_ticks_to_cyc_floor64 t = z_tmcvt t Z_HZ_ticks Z_HZ_cyc True False False False"

section \<open>Rounded quotients\<close>

text \<open>\<open>cvt_spec\<close> is the conversion on natural numbers, with exact arithmetic.\<close>

definition cvt_spec :: "nat \<Rightarrow> nat \<Rightarrow> nat \<Rightarrow> bool \<Rightarrow> bool \<Rightarrow> nat" where
  "cvt_spec t from_hz to_hz round_up round_off =
     (if round_off then (2 * t * to_hz + from_hz) div (2 * from_hz)
      else if round_up then (t * to_hz + (from_hz - 1)) div from_hz
      else t * to_hz div from_hz)"

lemma div_bounds: "0 < r \<Longrightarrow> r * (x div r) \<le> x \<and> x < r * (x div r) + r" for x r :: nat
  using mult_div_mod_eq [of r x] mod_less_divisor [of r x] by linarith

lemma div_between: "r * q \<le> x \<Longrightarrow> x < r * q + r \<Longrightarrow> x div r = q" for x r q :: nat
  by (rule div_nat_eqI) (simp_all add: algebra_simps)

lemma div_near: "0 < r \<Longrightarrow> (t + r div 2) div r = (2 * t + r) div (2 * r)" for t r :: nat
proof -
  assume r: "0 < r"
  let ?q = "(t + r div 2) div r"
  have "r * ?q \<le> t + r div 2" "t + r div 2 < r * ?q + r" using div_bounds [OF r] by simp_all
  then have "2 * r * ?q \<le> 2 * t + r" "2 * t + r < 2 * r * ?q + 2 * r" by linarith+
  then show ?thesis by (metis div_between)
qed

lemma div_ceil_cancel:
  fixes t r h :: nat
  assumes "0 < h" "0 < r"
  shows "(t * h + (r * h - 1)) div (r * h) = (t + (r - 1)) div r"
proof -
  define q where "q = (t + (r - 1)) div r"
  have "r * q \<le> t + (r - 1)" "t + (r - 1) < r * q + r" using div_bounds [OF assms(2)] by (simp_all add: q_def)
  then have "r * q + 1 \<le> t + r" "t \<le> r * q" using assms by linarith+
  then have "(r * q + 1) * h \<le> (t + r) * h" "t * h \<le> (r * q) * h" by (simp_all only: mult_le_mono1)
  then have "r * h * q + h \<le> t * h + r * h" "t * h \<le> r * h * q" by (simp_all add: algebra_simps)
  moreover have "0 < r * h" using assms by simp
  ultimately have "r * h * q \<le> t * h + (r * h - 1)" "t * h + (r * h - 1) < r * h * q + r * h"
    using assms(1) by linarith+
  then show ?thesis unfolding q_def [symmetric] by (rule div_between)
qed

lemma cvt_spec_ratio_down:
  assumes "0 < h" "0 < r"
  shows "cvt_spec t (r * h) h round_up round_off =
    (t + (if round_off then r div 2 else if round_up then r - 1 else 0)) div r"
proof -
  have "(2 * t * h + r * h) div (2 * (r * h)) = (2 * t + r) div (2 * r)"
    using assms(1) by (metis distrib_right div_mult_mult2 mult.assoc less_not_refl)
  moreover have "t * h div (r * h) = t div r" using assms(1) by simp
  ultimately show ?thesis
    using assms div_near [of r t] div_ceil_cancel [of h r t]
    by (simp only: cvt_spec_def if_True if_False split: if_split) simp
qed

lemma cvt_spec_ratio_up:
  assumes "0 < h"
  shows "cvt_spec t h (r * h) round_up round_off = t * r"
proof -
  have "(2 * t * (r * h) + h) div (2 * h) = t * r"
    using assms by (intro div_nat_eqI) (simp_all add: algebra_simps)
  moreover have "(t * (r * h) + (h - 1)) div h = t * r"
    using assms by (intro div_nat_eqI) (simp_all add: algebra_simps)
  ultimately show ?thesis using assms by (simp add: cvt_spec_def)
qed

section \<open>The converter computes the rounded quotient\<close>

lemma unat_ucast_32_64: "unat (ucast (x :: u32) :: u64) = unat x"
proof -
  have "unat x < 2 ^ 64" using unsigned_less [of x, where 'a = nat] by simp
  then show ?thesis by (simp add: unsigned_ucast_eq take_bit_nat_eq_self)
qed

lemma unat_ucast_64_32: "unat (ucast (x :: u64) :: u32) = unat x mod 2 ^ 32"
  by (simp add: unsigned_ucast_eq take_bit_eq_mod)

lemma unat_add_64: "unat x + unat y < 2 ^ 64 \<Longrightarrow> unat (x + y) = unat x + unat y" for x y :: u64
  by (simp add: unat_word_ariths)

lemma unat_mult_64: "unat x * unat y < 2 ^ 64 \<Longrightarrow> unat (x * y) = unat x * unat y" for x y :: u64
  by (simp add: unat_word_ariths)

lemma unat_pred_32: "0 < x \<Longrightarrow> unat (x - 1) = unat x - 1" for x :: u32
  by (metis less_le unat_minus_one)

definition tmcvt_off :: "u32 \<Rightarrow> bool \<Rightarrow> bool \<Rightarrow> u64" where
  "tmcvt_off r round_up round_off =
     (if round_off then ucast (r div 2) else if round_up then ucast (r - 1) else 0)"

lemma unat_tmcvt_off:
  "0 < r \<Longrightarrow> unat (tmcvt_off r up off) = (if off then unat r div 2 else if up then unat r - 1 else 0)"
  by (simp add: tmcvt_off_def unat_ucast_32_64 unat_div_distrib unat_pred_32)

lemma z_tmcvt_cases:
  "z_tmcvt t f h c res32 up off =
     (if f = h then if res32 then ucast (ucast t :: u32) else t
      else if c \<and> f > h \<and> f mod h = 0 then
        if res32 \<and> t + tmcvt_off (f div h) up off < 2 ^ 32
        then ucast ((ucast (t + tmcvt_off (f div h) up off) :: u32) div (f div h))
        else (t + tmcvt_off (f div h) up off) div (ucast f div ucast h)
      else if c \<and> h > f \<and> h mod f = 0 then
        if res32 then ucast ((ucast t :: u32) * (h div f)) else t * (ucast h div ucast f)
      else
        if res32 then ucast (ucast ((t * ucast h + tmcvt_off f up off) div ucast f) :: u32)
        else (t * ucast h + tmcvt_off f up off) div ucast f)"
  by (auto simp: z_tmcvt_def tmcvt_off_def Let_def)

text \<open>The unrounded word expression of each of the three formulas, before truncation.\<close>

lemma tmcvt_div_formula:
  assumes "0 < f" "0 < h" "f mod h = 0" "unat t + unat f < 2 ^ 64"
  shows "unat (t + tmcvt_off (f div h) up off) div unat (f div h) = cvt_spec (unat t) (unat f) (unat h) up off"
proof -
  let ?r = "unat (f div h)"
  have h: "0 < unat h" and f: "0 < unat f" using assms by (simp_all add: word_less_nat_alt)
  have "unat f mod unat h = 0" using assms(3) by (metis unat_mod_distrib unat_0)
  then have fr: "unat f = ?r * unat h" by (simp add: unat_div_distrib div_mult_self_is_m mod_eq_0_iff_dvd)
  then have r: "0 < ?r" using f by (metis mult_is_0 not_gr_zero)
  have le: "?r \<le> unat f" by (simp add: unat_div_distrib)
  have "0 < f div h" using r by (simp add: word_less_nat_alt)
  note o = unat_tmcvt_off [OF this, of up off]
  have "unat (t + tmcvt_off (f div h) up off) = unat t + unat (tmcvt_off (f div h) up off)"
    by (rule unat_add_64) (use assms(4) le in \<open>auto simp: o\<close>)
  then show ?thesis using cvt_spec_ratio_down [OF h r, of "unat t" up off] by (simp add: o flip: fr)
qed

lemma tmcvt_full_formula:
  fixes h :: u32
  assumes "0 < f" "unat t * unat h + unat f < 2 ^ 64"
  shows "unat ((t * ucast h + tmcvt_off f up off) div ucast f) = cvt_spec (unat t) (unat f) (unat h) up off"
proof -
  have f: "0 < unat f" using assms(1) by (simp add: word_less_nat_alt)
  note o = unat_tmcvt_off [OF assms(1), of up off]
  have m: "unat (t * ucast h) = unat t * unat h"
  proof -
    have "unat t * unat (ucast h :: u64) < 2 ^ 64" using assms(2) unfolding unat_ucast_32_64 by linarith
    then show ?thesis by (simp only: unat_mult_64 unat_ucast_32_64)
  qed
  have "unat (t * ucast h + tmcvt_off f up off) = unat t * unat h + unat (tmcvt_off f up off)"
    unfolding m [symmetric] by (rule unat_add_64) (use assms(2) m in \<open>auto simp: o\<close>)
  then show ?thesis
    using f div_near [OF f, of "unat t * unat h"]
    by (simp add: o cvt_spec_def unat_div_distrib unat_ucast_32_64 mult.assoc)
qed

lemma tmcvt_mul_ratio:
  assumes "0 < f" "h mod f = 0"
  shows "cvt_spec (unat t) (unat f) (unat h) up off = unat t * unat (h div f)"
proof -
  have "unat h mod unat f = 0" using assms(2) by (metis unat_mod_distrib unat_0)
  then have "unat h = unat (h div f) * unat f" by (simp add: unat_div_distrib mod_eq_0_iff_dvd)
  then show ?thesis using cvt_spec_ratio_up [of "unat f" "unat t" "unat (h div f)" up off] assms(1)
    by (simp add: word_less_nat_alt)
qed

lemma cvt_spec_same: "0 < f \<Longrightarrow> cvt_spec t f f up off = t"
  using cvt_spec_ratio_up [of f t 1 up off] by simp

lemma z_tmcvt_64:
  assumes "0 < f" "0 < h" "unat t * unat h + unat f < 2 ^ 64"
  shows "unat (z_tmcvt t f h c False up off) = cvt_spec (unat t) (unat f) (unat h) up off"
proof -
  have h: "0 < unat h" and f: "0 < unat f" using assms by (simp_all add: word_less_nat_alt)
  have "unat t * 1 \<le> unat t * unat h" by (rule mult_le_mono2) (use h in simp)
  then have s: "unat t + unat f < 2 ^ 64" using assms(3) by linarith
  have e: "unat (ucast f div ucast h :: u64) = unat (f div h)" for f h :: u32
    by (simp add: unat_div_distrib unat_ucast_32_64)
  have "unat (t * (ucast h div ucast f)) = unat t * unat (h div f)"
  proof -
    have "unat t * unat (h div f) \<le> unat t * unat h" by (rule mult_le_mono2) (simp add: unat_div_distrib)
    then have "unat t * unat (ucast h div ucast f :: u64) < 2 ^ 64" using assms(3) unfolding e by linarith
    then show ?thesis by (simp only: unat_mult_64 e)
  qed
  moreover have "unat ((t + o') div (ucast f div ucast h)) = unat (t + o') div unat (f div h)" for o'
    by (simp only: unat_div_distrib [of "t + o'"] e)
  ultimately show ?thesis
    using assms s tmcvt_div_formula [of f h t up off] tmcvt_full_formula [of f t h up off]
      tmcvt_mul_ratio [of f h t up off] cvt_spec_same [OF f]
    by (auto simp: z_tmcvt_cases mod_eq_0_iff_dvd)
qed

lemma ucast_32_64_32: "ucast (ucast (x :: u32) :: u64) = x"
  by (rule word_unat_eq_iff [THEN iffD2]) (simp add: unat_ucast_64_32 unat_ucast_32_64 unsigned_less [where 'a = nat and w = x, simplified])

lemma z_tmcvt_trunc:
  "(ucast (z_tmcvt t f h c True up off) :: u32) = ucast (z_tmcvt t f h c False up off)"
proof -
  have e: "unat (ucast f div ucast h :: u64) = unat (f div h)" for f h :: u32
    by (simp add: unat_div_distrib unat_ucast_32_64)
  have "(ucast t' :: u32) div (f div h) = ucast (t' div (ucast f div ucast h))" if "t' < 2 ^ 32" for t' :: u64
  proof -
    have "unat t' < 2 ^ 32" using that by (simp add: word_less_nat_alt)
    moreover from this have "unat t' div unat (f div h) < 2 ^ 32"
      by (meson div_le_dividend le_less_trans)
    ultimately show ?thesis
      unfolding word_unat_eq_iff unat_ucast_64_32 unat_div_distrib [of t'] unat_div_distrib [of "ucast t'"] e
      by simp
  qed
  moreover have "(ucast t :: u32) * (h div f) = ucast (t * (ucast h div ucast f))"
    unfolding word_unat_eq_iff unat_ucast_64_32 unat_word_ariths(2) e
    by (simp add: mod_mod_cancel mod_mult_left_eq)
  ultimately show ?thesis by (auto simp: z_tmcvt_cases ucast_32_64_32)
qed

lemma z_tmcvt_32:
  assumes "0 < f" "0 < h" "unat t * unat h + unat f < 2 ^ 64"
  shows "unat (ucast (z_tmcvt t f h c True up off) :: u32) =
    cvt_spec (unat t) (unat f) (unat h) up off mod 2 ^ 32"
  by (simp only: z_tmcvt_trunc unat_ucast_64_32 z_tmcvt_64 [OF assms])

section \<open>Properties\<close>

text \<open>
  C12: Converting a time between two frequencies is exact: unless the product of time and
  target frequency leaves 64 bits, the result is the quotient rounded as asked, on every
  branch of the code, and the 32-bit variant is that value modulo 2^32.
\<close>

theorem tmcvt_exact:
  assumes "0 < f" "0 < h" "unat t * unat h + unat f < 2 ^ 64"
  shows "unat (z_tmcvt t f h c False up off) = cvt_spec (unat t) (unat f) (unat h) up off \<and>
    unat (ucast (z_tmcvt t f h c True up off) :: u32) = cvt_spec (unat t) (unat f) (unat h) up off mod 2 ^ 32"
  using z_tmcvt_64 [OF assms] z_tmcvt_32 [OF assms] by simp

theorem tmcvt_exact_witness: "unat (z_tmcvt 1500 1000 1000000 True False True False) = 1500000"
  using tmcvt_exact [of 1000 1000000 1500 True True False] by (simp add: cvt_spec_def)

end
