(* ===== verification/Sched.thy ===== *)
theory Sched
  imports Priq Timeout Time_Units
begin

text \<open>
  The scheduler, \<^verbatim>\<open>kernel/sched.c\<close>, with the context switch of \<^verbatim>\<open>kernel/include/kswap.h\<close>.
  Every function takes the CPU it executes on; the ready queue is the configured sorted
  list. A function that blocks its caller ends with the context switch: the code after the
  call of \<^verbatim>\<open>z_swap\<close> runs when the thread is picked again and is a definition of its own,
  whose name ends in \<open>_resume\<close>. Spinlocks and the inter-processor interrupt have no
  state of their own here: a definition stands for a section that holds the lock.
\<close>

section \<open>The ready queue\<close>

definition runq_add :: "tid \<Rightarrow> kernel \<Rightarrow> kernel" where
  "runq_add thread k = k\<lparr>runq := z_priq_dumb_add (threads k) (runq k) thread\<rparr>"

definition runq_remove :: "tid \<Rightarrow> kernel \<Rightarrow> kernel" where
  "runq_remove thread k = k\<lparr>runq := z_priq_dumb_remove (threads k) (runq k) thread\<rparr>"

definition runq_best :: "cpu_id \<Rightarrow> kernel \<Rightarrow> tid option" where
  "runq_best c k =
     (if CONFIG_SCHED_CPU_MASK k then priq_dumb_mask_best (threads k) c (runq k)
      else z_priq_dumb_best (runq k))"

definition should_queue_thread :: "cpu_id \<Rightarrow> tid \<Rightarrow> kernel \<Rightarrow> bool" where
  "should_queue_thread c th k \<longleftrightarrow> \<not> CONFIG_SMP k \<or> th \<noteq> current_thread c k"

definition queue_thread :: "cpu_id \<Rightarrow> tid \<Rightarrow> kernel \<Rightarrow> kernel" where
  "queue_thread c thread k =
     (let k = upd_thread thread (z_set_thread_states THREAD_QUEUED) k;
          k = (if should_queue_thread c thread k then runq_add thread k else k)
      in if CONFIG_SMP k \<and> thread = current_thread c k
         then upd_cpu c (\<lambda>cp. cp\<lparr>swap_ok := True\<rparr>) k else k)"

definition dequeue_thread :: "cpu_id \<Rightarrow> tid \<Rightarrow> kernel \<Rightarrow> kernel" where
  "dequeue_thread c thread k =
     (let k = upd_thread thread (z_reset_thread_states THREAD_QUEUED) k
      in if should_queue_thread c thread k then runq_remove thread k else k)"

definition z_requeue_current :: "tid \<Rightarrow> kernel \<Rightarrow> kernel" where
  "z_requeue_current thread k =
     (if z_is_thread_queued (threads k thread) then runq_add thread k else k)"

section \<open>Time slices\<close>

definition z_reset_time_slice :: "cpu_id \<Rightarrow> kernel \<Rightarrow> kernel" where
  "z_reset_time_slice c k =
     (if slice_time k \<noteq> 0
      then z_set_timeout_expiry c (slice_time k) False
             (upd_cpu c (\<lambda>cp. cp\<lparr>slice_ticks := slice_time k + clock_elapsed k\<rparr>) k)
      else k)"

section \<open>Choosing the next thread\<close>

definition should_preempt :: "cpu_id \<Rightarrow> tid \<Rightarrow> bool \<Rightarrow> kernel \<Rightarrow> bool" where
  "should_preempt c thread preempt_ok k =
     (if preempt_ok then True
      else if z_is_thread_prevented_from_running (threads k (current_thread c k)) then True
      else if is_preempt (threads k (current_thread c k)) \<or> is_metairq (threads k thread) then True
      else False)"

text \<open>\<^verbatim>\<open>next_up()\<close> of a uniprocessor build; the multiprocessor one is defined after \<open>end_thread\<close>.\<close>

definition next_up_uniprocessor :: "cpu_id \<Rightarrow> kernel \<Rightarrow> tid" where
  "next_up_uniprocessor c k =
     (case runq_best c k of Some thread \<Rightarrow> thread | None \<Rightarrow> idle_thread (cpus k c))"

definition update_cache :: "cpu_id \<Rightarrow> bool \<Rightarrow> kernel \<Rightarrow> kernel" where
  "update_cache c preempt_ok k =
     (if \<not> CONFIG_SMP k then
        let thread = next_up_uniprocessor c k
        in if should_preempt c thread preempt_ok k then
             let k = (if thread \<noteq> current_thread c k then z_reset_time_slice c k else k)
             in k\<lparr>cache := thread\<rparr>
           else k\<lparr>cache := current_thread c k\<rparr>
      else upd_cpu c (\<lambda>cp. cp\<lparr>swap_ok := preempt_ok\<rparr>) k)"

definition thread_active_elsewhere :: "cpu_id \<Rightarrow> tid \<Rightarrow> kernel \<Rightarrow> bool" where
  "thread_active_elsewhere c thread k \<longleftrightarrow>
     CONFIG_SMP k \<and>
     list_ex (\<lambda>i. i \<noteq> c \<and> current (cpus k i) = thread) [0..<CONFIG_MP_NUM_CPUS k]"

section \<open>Making threads ready\<close>

definition ready_thread :: "cpu_id \<Rightarrow> tid \<Rightarrow> kernel \<Rightarrow> kernel" where
  "ready_thread c thread k =
     (if \<not> z_is_thread_queued (threads k thread) \<and> z_is_thread_ready k thread
      then update_cache c False (queue_thread c thread k)
      else k)"

definition z_ready_thread :: "cpu_id \<Rightarrow> tid \<Rightarrow> kernel \<Rightarrow> kernel" where
  "z_ready_thread c thread k =
     (if \<not> thread_active_elsewhere c thread k then ready_thread c thread k else k)"

definition move_thread_to_end_of_prio_q :: "cpu_id \<Rightarrow> tid \<Rightarrow> kernel \<Rightarrow> kernel" where
  "move_thread_to_end_of_prio_q c thread k =
     (let k = (if z_is_thread_queued (threads k thread) then dequeue_thread c thread k else k);
          k = queue_thread c thread k
      in update_cache c (thread = current_thread c k) k)"

definition unready_thread :: "cpu_id \<Rightarrow> tid \<Rightarrow> kernel \<Rightarrow> kernel" where
  "unready_thread c thread k =
     (let k = (if z_is_thread_queued (threads k thread) then dequeue_thread c thread k else k)
      in update_cache c (thread = current_thread c k) k)"

section \<open>Wait queues\<close>

definition z_waitq_head :: "wqid \<Rightarrow> kernel \<Rightarrow> tid option" where
  "z_waitq_head w k = z_priq_dumb_best (waitqs k w)"

definition add_to_waitq_locked :: "cpu_id \<Rightarrow> tid \<Rightarrow> wqid option \<Rightarrow> kernel \<Rightarrow> kernel" where
  "add_to_waitq_locked c thread wait_q k =
     (let k = z_mark_thread_as_pending thread (unready_thread c thread k)
      in case wait_q of
           None \<Rightarrow> k
         | Some w \<Rightarrow>
             let k = upd_thread thread (\<lambda>th. th\<lparr>pended_on := Some w\<rparr>) k
             in k\<lparr>waitqs := (waitqs k)(w := z_priq_dumb_add (threads k) (waitqs k w) thread)\<rparr>)"

definition add_thread_timeout :: "cpu_id \<Rightarrow> tid \<Rightarrow> k_timeout_t \<Rightarrow> kernel \<Rightarrow> kernel" where
  "add_thread_timeout c thread timeout k =
     (if timeout \<noteq> K_FOREVER then z_add_thread_timeout c thread timeout k else k)"

definition pend :: "cpu_id \<Rightarrow> tid \<Rightarrow> wqid option \<Rightarrow> k_timeout_t \<Rightarrow> kernel \<Rightarrow> kernel" where
  "pend c thread wait_q timeout k =
     add_thread_timeout c thread timeout (add_to_waitq_locked c thread wait_q k)"

definition z_pend_thread :: "cpu_id \<Rightarrow> tid \<Rightarrow> wqid option \<Rightarrow> k_timeout_t \<Rightarrow> kernel \<Rightarrow> kernel" where
  "z_pend_thread c thread wait_q timeout k = pend c thread wait_q timeout k"

definition unpend_thread_no_timeout :: "tid \<Rightarrow> kernel \<Rightarrow> kernel" where
  "unpend_thread_no_timeout thread k =
     (let k = (case pended_on (threads k thread) of
                 None \<Rightarrow> k
               | Some w \<Rightarrow>
                   k\<lparr>waitqs := (waitqs k)(w := z_priq_dumb_remove (threads k) (waitqs k w) thread)\<rparr>);
          k = z_mark_thread_as_not_pending thread k
      in upd_thread thread (\<lambda>th. th\<lparr>pended_on := None\<rparr>) k)"

definition z_unpend_thread_no_timeout :: "tid \<Rightarrow> kernel \<Rightarrow> kernel" where
  "z_unpend_thread_no_timeout thread k = unpend_thread_no_timeout thread k"

definition z_unpend1_no_timeout :: "wqid \<Rightarrow> kernel \<Rightarrow> tid option \<times> kernel" where
  "z_unpend1_no_timeout wait_q k =
     (case z_priq_dumb_best (waitqs k wait_q) of
        None \<Rightarrow> (None, k)
      | Some thread \<Rightarrow> (Some thread, unpend_thread_no_timeout thread k))"

definition z_unpend_first_thread :: "wqid \<Rightarrow> kernel \<Rightarrow> tid option \<times> kernel" where
  "z_unpend_first_thread wait_q k =
     (case z_priq_dumb_best (waitqs k wait_q) of
        None \<Rightarrow> (None, k)
      | Some thread \<Rightarrow>
          (Some thread, snd (z_abort_thread_timeout thread (unpend_thread_no_timeout thread k))))"

definition z_unpend_thread :: "tid \<Rightarrow> kernel \<Rightarrow> kernel" where
  "z_unpend_thread thread k =
     snd (z_abort_thread_timeout thread (z_unpend_thread_no_timeout thread k))"

text \<open>The handler of a thread's timeout.\<close>

definition z_thread_timeout :: "cpu_id \<Rightarrow> tid \<Rightarrow> kernel \<Rightarrow> kernel" where
  "z_thread_timeout c thread k =
     (let killed = (thread_state (threads k thread) AND THREAD_DEAD \<noteq> 0 \<or>
                    thread_state (threads k thread) AND THREAD_ABORTING \<noteq> 0)
      in if \<not> killed then
           let k = (if pended_on (threads k thread) \<noteq> None then unpend_thread_no_timeout thread k else k);
               k = z_mark_thread_as_started thread k;
               k = z_mark_thread_as_not_suspended thread k
           in ready_thread c thread k
         else k)"

section \<open>Ending threads\<close>

text \<open>
  The loop of \<^verbatim>\<open>unpend_all\<close> takes one waiter off the queue in each round; its length
  bounds the rounds (\<open>unpend_all_empties\<close> in theory \<open>Sched_Inv\<close>).
\<close>

fun unpend_all_loop :: "nat \<Rightarrow> cpu_id \<Rightarrow> wqid \<Rightarrow> kernel \<Rightarrow> kernel" where
  "unpend_all_loop 0 c wait_q k = k"
| "unpend_all_loop (Suc n) c wait_q k =
     (case z_waitq_head wait_q k of
        None \<Rightarrow> k
      | Some thread \<Rightarrow>
          let k = unpend_thread_no_timeout thread k;
              k = snd (z_abort_thread_timeout thread k);
              k = arch_thread_return_value_set thread 0 k;
              k = ready_thread c thread k
          in unpend_all_loop n c wait_q k)"

definition unpend_all :: "cpu_id \<Rightarrow> wqid \<Rightarrow> kernel \<Rightarrow> kernel" where
  "unpend_all c wait_q k = unpend_all_loop (length (waitqs k wait_q)) c wait_q k"

definition end_thread :: "cpu_id \<Rightarrow> tid \<Rightarrow> kernel \<Rightarrow> kernel" where
  "end_thread c thread k =
     (if thread_state (threads k thread) AND THREAD_DEAD = 0 then
        let k = upd_thread thread (z_set_thread_states THREAD_DEAD) k;
            k = upd_thread thread (z_reset_thread_states THREAD_ABORTING) k;
            k = (if z_is_thread_queued (threads k thread) then dequeue_thread c thread k else k);
            k = (if pended_on (threads k thread) \<noteq> None then unpend_thread_no_timeout thread k else k);
            k = snd (z_abort_thread_timeout thread k);
            k = unpend_all c (JoinQ thread) k
        in update_cache c True k
      else k)"

section \<open>The multiprocessor choice and the context switch\<close>

definition next_up :: "cpu_id \<Rightarrow> kernel \<Rightarrow> tid \<times> kernel" where
  "next_up c k =
     (if \<not> CONFIG_SMP k then (next_up_uniprocessor c k, k)
      else
        let best = runq_best c k;
            cur = current_thread c k;
            k = (if is_aborting (threads k cur) then end_thread c cur k else k);
            queued = z_is_thread_queued (threads k cur);
            active = (\<not> z_is_thread_prevented_from_running (threads k cur));
            thread = (case best of None \<Rightarrow> idle_thread (cpus k c) | Some t \<Rightarrow> t);
            thread =
              (if active then
                 let cmp = z_sched_prio_cmp (threads k cur) (threads k thread);
                     thread = (if cmp > 0 \<or> cmp = 0 \<and> \<not> swap_ok (cpus k c) then cur else thread)
                 in if \<not> should_preempt c thread (swap_ok (cpus k c)) k then cur else thread
               else thread);
            k = (if thread \<noteq> cur \<and> active \<and> \<not> z_is_idle_thread_object k cur \<and> \<not> queued
                 then queue_thread c cur k else k);
            k = (if z_is_thread_queued (threads k thread) then dequeue_thread c thread k else k)
        in (thread, upd_cpu c (\<lambda>cp. cp\<lparr>swap_ok := False\<rparr>) k))"

definition z_swap_next_thread :: "cpu_id \<Rightarrow> kernel \<Rightarrow> tid \<times> kernel" where
  "z_swap_next_thread c k = (if CONFIG_SMP k then next_up c k else (cache k, k))"

definition set_current :: "cpu_id \<Rightarrow> tid \<Rightarrow> kernel \<Rightarrow> kernel" where
  "set_current c new_thread = upd_cpu c (\<lambda>cp. cp\<lparr>current := new_thread\<rparr>)"

text \<open>
  \<open>do_swap\<close> up to the switch; a thread that resumes from it returns its
  \<open>swap_retval\<close>.
\<close>

definition do_swap :: "cpu_id \<Rightarrow> kernel \<Rightarrow> kernel" where
  "do_swap c k =
     (let old_thread = current_thread c k;
          (new_thread, k) = z_swap_next_thread c k
      in if new_thread \<noteq> old_thread then
           let k = z_reset_time_slice c k;
               k = upd_thread old_thread (\<lambda>th. th\<lparr>swap_retval := - EAGAIN\<rparr>) k;
               k = (if CONFIG_SMP k then upd_cpu c (\<lambda>cp. cp\<lparr>swap_ok := False\<rparr>) k else k);
               k = set_current c new_thread k
           in if CONFIG_SMP k then z_requeue_current old_thread k else k
         else k)"

definition z_get_next_switch_handle :: "cpu_id \<Rightarrow> kernel \<Rightarrow> kernel" where
  "z_get_next_switch_handle c k =
     (if CONFIG_SMP k then
        let old_thread = current_thread c k;
            (new_thread, k) = next_up c k
        in if old_thread \<noteq> new_thread then
             let k = z_reset_time_slice c k;
                 k = upd_cpu c (\<lambda>cp. cp\<lparr>swap_ok := False\<rparr>) k;
                 k = set_current c new_thread k
             in if z_is_thread_queued (threads k old_thread) then runq_add old_thread k else k
           else k
      else set_current c (cache k) k)"

definition z_swap :: "cpu_id \<Rightarrow> kernel \<Rightarrow> kernel" where
  "z_swap c k = do_swap c k"

definition z_swap_irqlock :: "cpu_id \<Rightarrow> kernel \<Rightarrow> kernel" where
  "z_swap_irqlock c k = do_swap c k"

section \<open>Rescheduling points\<close>

definition resched :: "cpu_id \<Rightarrow> kernel \<Rightarrow> bool \<times> kernel" where
  "resched c k =
     (let k = (if CONFIG_SMP k then upd_cpu c (\<lambda>cp. cp\<lparr>swap_ok := False\<rparr>) k else k)
      in (\<not> irq_masked (cpus k c) \<and> \<not> arch_is_in_isr c k, k))"

definition need_swap :: "cpu_id \<Rightarrow> kernel \<Rightarrow> bool" where
  "need_swap c k \<longleftrightarrow> CONFIG_SMP k \<or> cache k \<noteq> current_thread c k"

definition z_reschedule :: "cpu_id \<Rightarrow> kernel \<Rightarrow> kernel" where
  "z_reschedule c k =
     (let (ok, k) = resched c k in if ok \<and> need_swap c k then z_swap c k else k)"

definition z_reschedule_irqlock :: "cpu_id \<Rightarrow> kernel \<Rightarrow> kernel" where
  "z_reschedule_irqlock c k =
     (let (ok, k) = resched c k in if ok then z_swap_irqlock c k else k)"

definition z_reschedule_unlocked :: "cpu_id \<Rightarrow> kernel \<Rightarrow> kernel" where
  "z_reschedule_unlocked c k = z_reschedule_irqlock c k"

definition z_pend_curr :: "cpu_id \<Rightarrow> wqid option \<Rightarrow> k_timeout_t \<Rightarrow> kernel \<Rightarrow> kernel" where
  "z_pend_curr c wait_q timeout k = z_swap c (pend c (current_thread c k) wait_q timeout k)"

definition z_pend_curr_irqlock :: "cpu_id \<Rightarrow> wqid option \<Rightarrow> k_timeout_t \<Rightarrow> kernel \<Rightarrow> kernel" where
  "z_pend_curr_irqlock c wait_q timeout k =
     z_swap_irqlock c (pend c (current_thread c k) wait_q timeout k)"

section \<open>Priorities and the scheduler lock\<close>

definition z_set_prio :: "cpu_id \<Rightarrow> tid \<Rightarrow> int \<Rightarrow> kernel \<Rightarrow> bool \<times> kernel" where
  "z_set_prio c thread p k =
     (let need_sched = z_is_thread_ready k thread;
          set_prio = upd_thread thread (\<lambda>th. th\<lparr>prio := word_of_int p\<rparr>)
      in (need_sched,
          if need_sched then
            let k = (if \<not> CONFIG_SMP k \<or> z_is_thread_queued (threads k thread)
                     then queue_thread c thread (set_prio (dequeue_thread c thread k))
                     else set_prio k)
            in update_cache c True k
          else set_prio k))"

definition z_thread_priority_set :: "cpu_id \<Rightarrow> tid \<Rightarrow> int \<Rightarrow> kernel \<Rightarrow> kernel" where
  "z_thread_priority_set c thread p k =
     (let (need_sched, k) = z_set_prio c thread p k
      in if need_sched \<and> sched_locked (threads k (current_thread c k)) = 0
         then z_reschedule_unlocked c k else k)"

definition k_thread_priority_get :: "tid \<Rightarrow> kernel \<Rightarrow> int" where
  "k_thread_priority_get thread k = prio_of (threads k thread)"

definition k_thread_priority_set :: "cpu_id \<Rightarrow> tid \<Rightarrow> int \<Rightarrow> kernel \<Rightarrow> kernel" where
  "k_thread_priority_set c thread p k = z_thread_priority_set c thread p k"

definition k_sched_lock :: "cpu_id \<Rightarrow> kernel \<Rightarrow> kernel" where
  "k_sched_lock c k = z_sched_lock c k"

definition k_sched_unlock :: "cpu_id \<Rightarrow> kernel \<Rightarrow> kernel" where
  "k_sched_unlock c k =
     (let k = upd_thread (current_thread c k) (\<lambda>th. th\<lparr>sched_locked := sched_locked th + 1\<rparr>) k;
          k = update_cache c False k
      in z_reschedule_unlocked c k)"

section \<open>Starting, suspending and resuming\<close>

definition z_move_thread_to_end_of_prio_q :: "cpu_id \<Rightarrow> tid \<Rightarrow> kernel \<Rightarrow> kernel" where
  "z_move_thread_to_end_of_prio_q c thread k = move_thread_to_end_of_prio_q c thread k"

definition z_sched_start :: "cpu_id \<Rightarrow> tid \<Rightarrow> kernel \<Rightarrow> kernel" where
  "z_sched_start c thread k =
     (if z_has_thread_started (threads k thread) then k
      else z_reschedule c (ready_thread c thread (z_mark_thread_as_started thread k)))"

definition k_thread_suspend :: "cpu_id \<Rightarrow> tid \<Rightarrow> kernel \<Rightarrow> kernel" where
  "k_thread_suspend c thread k =
     (let k = snd (z_abort_thread_timeout thread k);
          k = (if z_is_thread_queued (threads k thread) then dequeue_thread c thread k else k);
          k = z_mark_thread_as_suspended thread k;
          k = update_cache c (thread = current_thread c k) k
      in if thread = current_thread c k then z_reschedule_unlocked c k else k)"

definition k_thread_resume :: "cpu_id \<Rightarrow> tid \<Rightarrow> kernel \<Rightarrow> kernel" where
  "k_thread_resume c thread k =
     (if \<not> z_is_thread_suspended (threads k thread) then k
      else z_reschedule c (ready_thread c thread (z_mark_thread_as_not_suspended thread k)))"

section \<open>Yielding and sleeping\<close>

definition k_yield :: "cpu_id \<Rightarrow> kernel \<Rightarrow> kernel" where
  "k_yield c k =
     (let cur = current_thread c k;
          k = (if \<not> CONFIG_SMP k \<or> z_is_thread_queued (threads k cur) then dequeue_thread c cur k else k);
          k = queue_thread c cur k;
          k = update_cache c True k
      in z_swap c k)"

text \<open>
  \<open>z_tick_sleep\<close> yields and returns for zero ticks; otherwise it suspends the caller
  and keeps the expected wake-up tick on its stack, the first component of the result,
  for the code after the switch.
\<close>

definition z_tick_sleep :: "cpu_id \<Rightarrow> int \<Rightarrow> kernel \<Rightarrow> u32 option \<times> kernel" where
  "z_tick_sleep c ticks k =
     (if ticks = 0 then (None, k_yield c k)
      else
        let expected_wakeup_ticks =
              (if Z_TICK_ABS ticks \<le> 0 then word_of_int ticks + sys_clock_tick_get_32 k
               else word_of_int (Z_TICK_ABS ticks));
            cur = current_thread c k;
            k = unready_thread c cur k;
            k = z_add_thread_timeout c cur ticks k;
            k = z_mark_thread_as_suspended cur k
        in (Some expected_wakeup_ticks, z_swap c k))"

definition z_tick_sleep_resume :: "u32 \<Rightarrow> kernel \<Rightarrow> int" where
  "z_tick_sleep_resume expected_wakeup_ticks k =
     (let ticks = uint expected_wakeup_ticks - uint (sys_clock_tick_get_32 k)
      in if ticks > 0 then sint (word_of_int ticks :: u32) else 0)"

definition k_sleep :: "cpu_id \<Rightarrow> k_timeout_t \<Rightarrow> kernel \<Rightarrow> u32 option \<times> kernel" where
  "k_sleep c timeout k =
     (if timeout = K_FOREVER then (None, k_thread_suspend c (current_thread c k) k)
      else z_tick_sleep c timeout k)"

definition k_sleep_resume :: "k_timeout_t \<Rightarrow> u32 option \<Rightarrow> kernel \<Rightarrow> int" where
  "k_sleep_resume timeout expected k =
     (if timeout = K_FOREVER then K_TICKS_FOREVER
      else
        let ticks = (case expected of None \<Rightarrow> 0 | Some e \<Rightarrow> z_tick_sleep_resume e k)
        in sint (ucast (k_ticks_to_ms_floor64 (word_of_int ticks)) :: u32))"

definition k_usleep :: "cpu_id \<Rightarrow> int \<Rightarrow> kernel \<Rightarrow> u32 option \<times> kernel" where
  "k_usleep c us k = z_tick_sleep c (sint (ucast (k_us_to_ticks_ceil64 (word_of_int us)) :: u32)) k"

definition k_usleep_resume :: "u32 option \<Rightarrow> kernel \<Rightarrow> int" where
  "k_usleep_resume expected k =
     (let ticks = (case expected of None \<Rightarrow> 0 | Some e \<Rightarrow> z_tick_sleep_resume e k)
      in sint (ucast (k_ticks_to_us_floor64 (word_of_int ticks)) :: u32))"

definition k_wakeup :: "cpu_id \<Rightarrow> tid \<Rightarrow> kernel \<Rightarrow> kernel" where
  "k_wakeup c thread k =
     (if z_is_thread_pending (threads k thread) then k
      else
        let (ret, k) = z_abort_thread_timeout thread k
        in if ret < 0 \<and> thread_state (threads k thread) \<noteq> THREAD_SUSPENDED then k
           else
             let k = z_mark_thread_as_not_suspended thread k;
                 k = z_ready_thread c thread k
             in if \<not> arch_is_in_isr c k then z_reschedule_unlocked c k else k)"

definition z_current_get :: "cpu_id \<Rightarrow> kernel \<Rightarrow> tid" where
  "z_current_get c k = current (cpus k c)"

definition k_is_preempt_thread :: "cpu_id \<Rightarrow> kernel \<Rightarrow> bool" where
  "k_is_preempt_thread c k \<longleftrightarrow> \<not> arch_is_in_isr c k \<and> is_preempt (threads k (current_thread c k))"

section \<open>CPU masks\<close>

definition cpu_mask_mod :: "tid \<Rightarrow> u32 \<Rightarrow> u32 \<Rightarrow> kernel \<Rightarrow> int \<times> kernel" where
  "cpu_mask_mod thread enable_mask disable_mask k =
     (if z_is_thread_prevented_from_running (threads k thread)
      then (0, upd_thread thread
              (\<lambda>th. th\<lparr>cpu_mask := (cpu_mask th OR ucast enable_mask) AND NOT (ucast disable_mask)\<rparr>) k)
      else (- EINVAL, k))"

definition k_thread_cpu_mask_clear :: "tid \<Rightarrow> kernel \<Rightarrow> int \<times> kernel" where
  "k_thread_cpu_mask_clear thread k = cpu_mask_mod thread 0 0xFFFFFFFF k"

definition k_thread_cpu_mask_enable_all :: "tid \<Rightarrow> kernel \<Rightarrow> int \<times> kernel" where
  "k_thread_cpu_mask_enable_all thread k = cpu_mask_mod thread 0xFFFFFFFF 0 k"

definition k_thread_cpu_mask_enable :: "tid \<Rightarrow> nat \<Rightarrow> kernel \<Rightarrow> int \<times> kernel" where
  "k_thread_cpu_mask_enable thread i k = cpu_mask_mod thread (push_bit i 1) 0 k"

definition k_thread_cpu_mask_disable :: "tid \<Rightarrow> nat \<Rightarrow> kernel \<Rightarrow> int \<times> kernel" where
  "k_thread_cpu_mask_disable thread i k = cpu_mask_mod thread 0 (push_bit i 1) k"

section \<open>Aborting and joining\<close>

text \<open>
  An abort from an interrupt handler of a thread that runs on another CPU spins until that
  CPU has ended it (\<open>Spins\<close>); a joining abort blocks the caller.
\<close>

datatype abort_outcome = Aborted | Joins | Spins

definition z_thread_abort :: "cpu_id \<Rightarrow> tid \<Rightarrow> kernel \<Rightarrow> abort_outcome \<times> kernel" where
  "z_thread_abort c thread k =
     (if thread_state (threads k thread) AND THREAD_DEAD \<noteq> 0 then (Aborted, k)
      else
        let smp = CONFIG_SMP k;
            k = (if smp \<and> is_aborting (threads k thread) \<and> thread = current_thread c k \<and> arch_is_in_isr c k
                 then end_thread c thread k else k);
            active = thread_active_elsewhere c thread k;
            k = (if active then upd_thread thread (z_set_thread_states THREAD_ABORTING) k else k)
        in if smp \<and> is_aborting (threads k thread) \<and> thread \<noteq> current_thread c k then
             if arch_is_in_isr c k then (Spins, k)
             else if active then
               (Joins, z_swap c (add_to_waitq_locked c (current_thread c k) (Some (JoinQ thread)) k))
             else (Aborted, k)
           else
             let k = end_thread c thread k
             in (Aborted,
                 if thread = current_thread c k \<and> \<not> arch_is_in_isr c k then z_swap c k else k))"

definition k_thread_abort :: "cpu_id \<Rightarrow> tid \<Rightarrow> kernel \<Rightarrow> abort_outcome \<times> kernel" where
  "k_thread_abort c thread k = z_thread_abort c thread k"

definition k_thread_join :: "cpu_id \<Rightarrow> tid \<Rightarrow> k_timeout_t \<Rightarrow> kernel \<Rightarrow> int outcome \<times> kernel" where
  "k_thread_join c thread timeout k =
     (let cur = current_thread c k
      in if thread_state (threads k thread) AND THREAD_DEAD \<noteq> 0 then (Returned 0, k)
         else if timeout = K_NO_WAIT then (Returned (- EBUSY), k)
         else if thread = cur \<or> pended_on (threads k thread) = Some (JoinQ cur)
         then (Returned (- EDEADLK), k)
         else
           let k = add_to_waitq_locked c cur (Some (JoinQ thread)) k;
               k = add_thread_timeout c cur timeout k
           in (Blocked, z_swap c k))"

section \<open>Waking from a wait queue\<close>

fun z_unpend_all_loop :: "nat \<Rightarrow> cpu_id \<Rightarrow> wqid \<Rightarrow> bool \<Rightarrow> kernel \<Rightarrow> bool \<times> kernel" where
  "z_unpend_all_loop 0 c wait_q need_sched k = (need_sched, k)"
| "z_unpend_all_loop (Suc n) c wait_q need_sched k =
     (case z_waitq_head wait_q k of
        None \<Rightarrow> (need_sched, k)
      | Some thread \<Rightarrow>
          z_unpend_all_loop n c wait_q True (z_ready_thread c thread (z_unpend_thread thread k)))"

definition z_unpend_all :: "cpu_id \<Rightarrow> wqid \<Rightarrow> kernel \<Rightarrow> bool \<times> kernel" where
  "z_unpend_all c wait_q k = z_unpend_all_loop (length (waitqs k wait_q)) c wait_q False k"

definition z_sched_wake :: "cpu_id \<Rightarrow> wqid \<Rightarrow> int \<Rightarrow> ptr \<Rightarrow> kernel \<Rightarrow> bool \<times> kernel" where
  "z_sched_wake c wait_q retval data k =
     (case z_priq_dumb_best (waitqs k wait_q) of
        None \<Rightarrow> (False, k)
      | Some thread \<Rightarrow>
          let k = z_thread_return_value_set_with_data thread retval data k;
              k = unpend_thread_no_timeout thread k;
              k = snd (z_abort_thread_timeout thread k);
              k = ready_thread c thread k
          in (True, k))"

fun z_sched_wake_all_loop :: "nat \<Rightarrow> cpu_id \<Rightarrow> wqid \<Rightarrow> int \<Rightarrow> ptr \<Rightarrow> bool \<Rightarrow> kernel \<Rightarrow> bool \<times> kernel" where
  "z_sched_wake_all_loop 0 c wait_q retval data woken k = (woken, k)"
| "z_sched_wake_all_loop (Suc n) c wait_q retval data woken k =
     (let (ok, k) = z_sched_wake c wait_q retval data k
      in if ok then z_sched_wake_all_loop n c wait_q retval data True k else (woken, k))"

definition z_sched_wake_all :: "cpu_id \<Rightarrow> wqid \<Rightarrow> int \<Rightarrow> ptr \<Rightarrow> kernel \<Rightarrow> bool \<times> kernel" where
  "z_sched_wake_all c wait_q retval data k =
     z_sched_wake_all_loop (Suc (length (waitqs k wait_q))) c wait_q retval data False k"

definition z_sched_wait :: "cpu_id \<Rightarrow> wqid \<Rightarrow> k_timeout_t \<Rightarrow> kernel \<Rightarrow> kernel" where
  "z_sched_wait c wait_q timeout k = z_pend_curr c (Some wait_q) timeout k"

definition z_sched_wait_resume :: "cpu_id \<Rightarrow> kernel \<Rightarrow> int \<times> ptr" where
  "z_sched_wait_resume c k =
     (let th = threads k (current_thread c k) in (swap_retval th, swap_data th))"

section \<open>Time slicing\<close>

definition sliceable :: "tid \<Rightarrow> kernel \<Rightarrow> bool" where
  "sliceable thread k \<longleftrightarrow>
     is_preempt (threads k thread) \<and>
     \<not> z_is_thread_prevented_from_running (threads k thread) \<and>
     \<not> z_is_prio_higher (prio_of (threads k thread)) (slice_max_prio k) \<and>
     \<not> z_is_idle_thread_object k thread"

definition z_time_slice :: "cpu_id \<Rightarrow> int \<Rightarrow> kernel \<Rightarrow> kernel" where
  "z_time_slice c ticks k =
     (if slice_time k \<noteq> 0 \<and> sliceable (current_thread c k) k then
        if ticks \<ge> slice_ticks (cpus k c)
        then z_reset_time_slice c (move_thread_to_end_of_prio_q c (current_thread c k) k)
        else upd_cpu c (\<lambda>cp. cp\<lparr>slice_ticks := slice_ticks cp - ticks\<rparr>) k
      else upd_cpu c (\<lambda>cp. cp\<lparr>slice_ticks := 0\<rparr>) k)"

definition k_sched_time_slice_set :: "cpu_id \<Rightarrow> int \<Rightarrow> int \<Rightarrow> kernel \<Rightarrow> kernel" where
  "k_sched_time_slice_set c ms p k =
     (let k = upd_cpu c (\<lambda>cp. cp\<lparr>slice_ticks := 0\<rparr>) k;
          st = sint (k_ms_to_ticks_ceil32 (word_of_int ms));
          st = (if ms > 0 then max 2 st else st)
      in z_reset_time_slice c (k\<lparr>slice_time := st, slice_max_prio := p\<rparr>))"

definition init_ready_q :: "kernel \<Rightarrow> kernel" where
  "init_ready_q k = k\<lparr>runq := []\<rparr>"

definition z_sched_init :: "cpu_id \<Rightarrow> kernel \<Rightarrow> kernel" where
  "z_sched_init c k = k_sched_time_slice_set c 0 0 (init_ready_q k)"

end
