(* ===== verification/Sched_Inv.thy ===== *)
theory Sched_Inv
  imports Sched
begin

text \<open>
  Invariants of the scheduler on one CPU. \<open>kinv\<close> says that the ready queue, the wait
  queues, the timeout queue and the state bytes of all threads agree: a thread is linked in
  the ready queue exactly when it may run, and in a wait queue exactly when it is pended on
  it. \<open>cache_ok\<close> says that the cached next thread is the best one in the ready queue
  unless the running thread must not be preempted. Every operation of the scheduler keeps
  both; between the two halves of an operation one thread may be out of step, which is the
  set parameter of \<open>kinv_but\<close>.
\<close>

section \<open>The invariants\<close>

abbreviation idle0 :: "kernel \<Rightarrow> tid" where "idle0 k \<equiv> idle_thread (cpus k 0)"
abbreviation cur0 :: "kernel \<Rightarrow> tid" where "cur0 k \<equiv> current_thread 0 k"

definition prio_key :: "(tid \<Rightarrow> k_thread) \<Rightarrow> tid \<Rightarrow> int" where
  "prio_key tab t = prio_of (tab t)"

definition runq_ok :: "kernel \<Rightarrow> bool" where
  "runq_ok k \<longleftrightarrow>
     distinct (runq k) \<and> sorted_key (prio_key (threads k)) (runq k) \<and>
     (\<forall>t. t \<in> set (runq k) \<longleftrightarrow> z_is_thread_queued (threads k t)) \<and>
     \<not> z_is_thread_queued (threads k (idle0 k))"

definition ready_ok :: "tid set \<Rightarrow> kernel \<Rightarrow> bool" where
  "ready_ok S k \<longleftrightarrow>
     (\<forall>t. \<not> is_aborting (threads k t)) \<and>
     (\<forall>t. t \<notin> S \<longrightarrow> t \<noteq> idle0 k \<longrightarrow> z_is_thread_queued (threads k t) = z_is_thread_ready k t)"

definition waitq_ok :: "kernel \<Rightarrow> bool" where
  "waitq_ok k \<longleftrightarrow>
     (\<forall>w. distinct (waitqs k w)) \<and>
     (\<forall>w t. t \<in> set (waitqs k w) \<longleftrightarrow> pended_on (threads k t) = Some w) \<and>
     (\<forall>t. z_is_thread_pending (threads k t) \<longleftrightarrow> pended_on (threads k t) \<noteq> None)"

definition clock_ok :: "kernel \<Rightarrow> bool" where
  "clock_ok k \<longleftrightarrow> tlist_wf (timeout_list k) \<and> 0 \<le> clock_elapsed k"

definition idle_ok :: "kernel \<Rightarrow> bool" where
  "idle_ok k \<longleftrightarrow> z_is_thread_ready k (idle0 k)"

definition kinv_but :: "tid set \<Rightarrow> kernel \<Rightarrow> bool" where
  "kinv_but S k \<longleftrightarrow>
     \<not> CONFIG_SMP k \<and> runq_ok k \<and> ready_ok S k \<and> waitq_ok k \<and> clock_ok k \<and> idle_ok k"

abbreviation kinv :: "kernel \<Rightarrow> bool" where "kinv \<equiv> kinv_but {}"

definition cache_ok :: "kernel \<Rightarrow> bool" where
  "cache_ok k \<longleftrightarrow>
     cache k = next_up_uniprocessor 0 k \<or>
     cache k = cur0 k \<and> \<not> z_is_thread_prevented_from_running (threads k (cur0 k)) \<and>
     \<not> is_preempt (threads k (cur0 k))"

lemmas kinv_parts = kinv_but_def runq_ok_def ready_ok_def waitq_ok_def clock_ok_def idle_ok_def

section \<open>What the building blocks leave alone\<close>

lemma z_reset_time_slice_fields [simp]:
  "threads (z_reset_time_slice c k) = threads k"
  "cache (z_reset_time_slice c k) = cache k"
  "runq (z_reset_time_slice c k) = runq k"
  "waitqs (z_reset_time_slice c k) = waitqs k"
  "timeout_list (z_reset_time_slice c k) = timeout_list k"
  "clock_elapsed (z_reset_time_slice c k) = clock_elapsed k"
  "curr_tick (z_reset_time_slice c k) = curr_tick k"
  "announce_remaining (z_reset_time_slice c k) = announce_remaining k"
  "slice_time (z_reset_time_slice c k) = slice_time k"
  "CONFIG_SMP (z_reset_time_slice c k) = CONFIG_SMP k"
  "CONFIG_MP_NUM_CPUS (z_reset_time_slice c k) = CONFIG_MP_NUM_CPUS k"
  "CONFIG_SCHED_CPU_MASK (z_reset_time_slice c k) = CONFIG_SCHED_CPU_MASK k"
  "idle_thread (cpus (z_reset_time_slice c k) i) = idle_thread (cpus k i)"
  "current (cpus (z_reset_time_slice c k) i) = current (cpus k i)"
  "nested (cpus (z_reset_time_slice c k) i) = nested (cpus k i)"
  "irq_masked (cpus (z_reset_time_slice c k) i) = irq_masked (cpus k i)"
  "swap_ok (cpus (z_reset_time_slice c k) i) = swap_ok (cpus k i)"
proof -
  obtain x where "z_reset_time_slice c k =
      (if slice_time k \<noteq> 0
       then (upd_cpu c (\<lambda>cp. cp\<lparr>slice_ticks := slice_time k + clock_elapsed k\<rparr>) k)\<lparr>clock_timeout := x\<rparr>
       else k)"
    unfolding z_reset_time_slice_def
    using z_set_timeout_expiry_frame [of c "slice_time k" False] by metis
  then show
    "threads (z_reset_time_slice c k) = threads k"
    "cache (z_reset_time_slice c k) = cache k"
    "runq (z_reset_time_slice c k) = runq k"
    "waitqs (z_reset_time_slice c k) = waitqs k"
    "timeout_list (z_reset_time_slice c k) = timeout_list k"
    "clock_elapsed (z_reset_time_slice c k) = clock_elapsed k"
    "curr_tick (z_reset_time_slice c k) = curr_tick k"
    "announce_remaining (z_reset_time_slice c k) = announce_remaining k"
    "slice_time (z_reset_time_slice c k) = slice_time k"
    "CONFIG_SMP (z_reset_time_slice c k) = CONFIG_SMP k"
    "CONFIG_MP_NUM_CPUS (z_reset_time_slice c k) = CONFIG_MP_NUM_CPUS k"
    "CONFIG_SCHED_CPU_MASK (z_reset_time_slice c k) = CONFIG_SCHED_CPU_MASK k"
    "idle_thread (cpus (z_reset_time_slice c k) i) = idle_thread (cpus k i)"
    "current (cpus (z_reset_time_slice c k) i) = current (cpus k i)"
    "nested (cpus (z_reset_time_slice c k) i) = nested (cpus k i)"
    "irq_masked (cpus (z_reset_time_slice c k) i) = irq_masked (cpus k i)"
    "swap_ok (cpus (z_reset_time_slice c k) i) = swap_ok (cpus k i)"
    by (auto simp: upd_cpu_def)
qed

lemma upd_thread_fields [simp]:
  "threads (upd_thread t f k) = (threads k)(t := f (threads k t))"
  "cache (upd_thread t f k) = cache k"
  "runq (upd_thread t f k) = runq k"
  "waitqs (upd_thread t f k) = waitqs k"
  "timeout_list (upd_thread t f k) = timeout_list k"
  "clock_elapsed (upd_thread t f k) = clock_elapsed k"
  "curr_tick (upd_thread t f k) = curr_tick k"
  "announce_remaining (upd_thread t f k) = announce_remaining k"
  "slice_time (upd_thread t f k) = slice_time k"
  "CONFIG_SMP (upd_thread t f k) = CONFIG_SMP k"
  "CONFIG_MP_NUM_CPUS (upd_thread t f k) = CONFIG_MP_NUM_CPUS k"
  "CONFIG_SCHED_CPU_MASK (upd_thread t f k) = CONFIG_SCHED_CPU_MASK k"
  "cpus (upd_thread t f k) = cpus k"
  by (simp_all add: upd_thread_def)

lemma upd_cpu_fields [simp]:
  "threads (upd_cpu c f k) = threads k"
  "cache (upd_cpu c f k) = cache k"
  "runq (upd_cpu c f k) = runq k"
  "waitqs (upd_cpu c f k) = waitqs k"
  "timeout_list (upd_cpu c f k) = timeout_list k"
  "clock_elapsed (upd_cpu c f k) = clock_elapsed k"
  "curr_tick (upd_cpu c f k) = curr_tick k"
  "announce_remaining (upd_cpu c f k) = announce_remaining k"
  "slice_time (upd_cpu c f k) = slice_time k"
  "CONFIG_SMP (upd_cpu c f k) = CONFIG_SMP k"
  "CONFIG_MP_NUM_CPUS (upd_cpu c f k) = CONFIG_MP_NUM_CPUS k"
  "CONFIG_SCHED_CPU_MASK (upd_cpu c f k) = CONFIG_SCHED_CPU_MASK k"
  "cpus (upd_cpu c f k) = (cpus k)(c := f (cpus k c))"
  by (simp_all add: upd_cpu_def)

lemma update_cache_fields [simp]:
  "threads (update_cache c b k) = threads k"
  "runq (update_cache c b k) = runq k"
  "waitqs (update_cache c b k) = waitqs k"
  "timeout_list (update_cache c b k) = timeout_list k"
  "clock_elapsed (update_cache c b k) = clock_elapsed k"
  "curr_tick (update_cache c b k) = curr_tick k"
  "announce_remaining (update_cache c b k) = announce_remaining k"
  "slice_time (update_cache c b k) = slice_time k"
  "CONFIG_SMP (update_cache c b k) = CONFIG_SMP k"
  "CONFIG_MP_NUM_CPUS (update_cache c b k) = CONFIG_MP_NUM_CPUS k"
  "CONFIG_SCHED_CPU_MASK (update_cache c b k) = CONFIG_SCHED_CPU_MASK k"
  "idle_thread (cpus (update_cache c b k) i) = idle_thread (cpus k i)"
  "current (cpus (update_cache c b k) i) = current (cpus k i)"
  "nested (cpus (update_cache c b k) i) = nested (cpus k i)"
  "irq_masked (cpus (update_cache c b k) i) = irq_masked (cpus k i)"
  by (simp_all add: update_cache_def Let_def)

lemma z_is_thread_ready_cong:
  "threads k t = threads k' t \<Longrightarrow> timeout_list k = timeout_list k' \<Longrightarrow>
   z_is_thread_ready k t = z_is_thread_ready k' t"
  by (simp add: z_is_thread_ready_def z_is_thread_timeout_active_def z_is_inactive_timeout_def)

lemma next_up_uniprocessor_cong:
  assumes "runq k = runq k'" "\<And>t. t \<in> set (runq k) \<Longrightarrow> cpu_mask (threads k t) = cpu_mask (threads k' t)"
    "CONFIG_SCHED_CPU_MASK k = CONFIG_SCHED_CPU_MASK k'"
    "idle_thread (cpus k c) = idle_thread (cpus k' c)"
  shows "next_up_uniprocessor c k = next_up_uniprocessor c k'"
proof -
  have "priq_dumb_mask_best (threads k) c q = priq_dumb_mask_best (threads k') c q"
    if "set q \<subseteq> set (runq k)" for q
    using that assms(2) by (induction q) auto
  then have "priq_dumb_mask_best (threads k) c (runq k) = priq_dumb_mask_best (threads k') c (runq k)" by simp
  then show ?thesis
    using assms by (simp add: next_up_uniprocessor_def runq_best_def cong: option.case_cong)
qed

lemma kinv_but_cong:
  assumes "CONFIG_SMP k = CONFIG_SMP k'" "runq k = runq k'" "waitqs k = waitqs k'"
    "timeout_list k = timeout_list k'" "clock_elapsed k = clock_elapsed k'" "idle0 k = idle0 k'"
    "\<And>t. thread_state (threads k t) = thread_state (threads k' t)"
    "\<And>t. prio (threads k t) = prio (threads k' t)"
    "\<And>t. pended_on (threads k t) = pended_on (threads k' t)"
  shows "kinv_but S k = kinv_but S k'"
proof -
  have "z_is_thread_queued (threads k t) = z_is_thread_queued (threads k' t)"
    "z_is_thread_pending (threads k t) = z_is_thread_pending (threads k' t)"
    "is_aborting (threads k t) = is_aborting (threads k' t)"
    "z_is_thread_ready k t = z_is_thread_ready k' t" for t
    using assms(4,7)
    by (simp_all add: bit_thread_state z_is_thread_ready_def prevented_bits
        z_is_thread_timeout_active_def z_is_inactive_timeout_def)
  moreover have "prio_key (threads k) = prio_key (threads k')" using assms(8) by (simp add: prio_key_def fun_eq_iff)
  ultimately show ?thesis using assms by (simp add: kinv_parts)
qed

lemma kinv_update_cache [simp]: "kinv_but S (update_cache c b k) = kinv_but S k"
  by (rule kinv_but_cong) simp_all

lemma kinv_reset_time_slice [simp]: "kinv_but S (z_reset_time_slice c k) = kinv_but S k"
  by (rule kinv_but_cong) simp_all

lemma kinv_upd_thread_other:
  "(\<And>th. thread_state (f th) = thread_state th \<and> prio (f th) = prio th \<and> pended_on (f th) = pended_on th) \<Longrightarrow>
   kinv_but S (upd_thread t f k) = kinv_but S k"
  by (rule kinv_but_cong) simp_all

lemma kinv_upd_cpu:
  "(\<And>cp. idle_thread (f cp) = idle_thread cp) \<Longrightarrow> kinv_but S (upd_cpu c f k) = kinv_but S k"
  by (rule kinv_but_cong) simp_all

section \<open>The cached next thread\<close>

lemma cache_update_cache_True:
  "\<not> CONFIG_SMP k \<Longrightarrow> cache (update_cache c True k) = next_up_uniprocessor c k"
  by (simp add: update_cache_def should_preempt_def Let_def)

lemma next_up_update_cache [simp]:
  "next_up_uniprocessor c (update_cache c' b k) = next_up_uniprocessor c k"
  by (rule next_up_uniprocessor_cong) simp_all

lemma cache_ok_update_cache: "\<not> CONFIG_SMP k \<Longrightarrow> cache_ok (update_cache 0 b k)"
proof -
  assume "\<not> CONFIG_SMP k"
  then have "cache (update_cache 0 b k) = next_up_uniprocessor 0 k \<or>
      cache (update_cache 0 b k) = cur0 k \<and>
      \<not> z_is_thread_prevented_from_running (threads k (cur0 k)) \<and> \<not> is_preempt (threads k (cur0 k))"
    by (auto simp: update_cache_def should_preempt_def Let_def)
  then show ?thesis by (simp add: cache_ok_def current_thread_def)
qed

section \<open>Changing one thread\<close>

lemma kinv_mono: "kinv_but S k \<Longrightarrow> S \<subseteq> T \<Longrightarrow> kinv_but T k"
  by (auto simp: kinv_parts)

lemma kinv_close:
  "kinv_but (insert t S) k \<Longrightarrow> z_is_thread_queued (threads k t) = z_is_thread_ready k t \<Longrightarrow> kinv_but S k"
  by (auto simp: kinv_but_def ready_ok_def)

lemma kinv_queued: "kinv_but S k \<Longrightarrow> t \<notin> S \<Longrightarrow> t \<noteq> idle0 k \<Longrightarrow>
  z_is_thread_queued (threads k t) = z_is_thread_ready k t"
  by (simp add: kinv_but_def ready_ok_def)

lemma kinv_idle_not_queued: "kinv_but S k \<Longrightarrow> \<not> z_is_thread_queued (threads k (idle0 k))"
  by (auto simp: kinv_but_def runq_ok_def)

lemma kinv_not_smp: "kinv_but S k \<Longrightarrow> \<not> CONFIG_SMP k"
  by (simp add: kinv_but_def)

lemma kinv_tlist: "kinv_but S k \<Longrightarrow> tlist_wf (timeout_list k) \<and> 0 \<le> clock_elapsed k"
  by (simp add: kinv_but_def clock_ok_def)

lemma dequeue_thread_fields [simp]:
  "threads (dequeue_thread c t k) = (threads k)(t := z_reset_thread_states THREAD_QUEUED (threads k t))"
  "cache (dequeue_thread c t k) = cache k"
  "waitqs (dequeue_thread c t k) = waitqs k"
  "timeout_list (dequeue_thread c t k) = timeout_list k"
  "clock_elapsed (dequeue_thread c t k) = clock_elapsed k"
  "curr_tick (dequeue_thread c t k) = curr_tick k"
  "announce_remaining (dequeue_thread c t k) = announce_remaining k"
  "CONFIG_SMP (dequeue_thread c t k) = CONFIG_SMP k"
  "CONFIG_MP_NUM_CPUS (dequeue_thread c t k) = CONFIG_MP_NUM_CPUS k"
  "CONFIG_SCHED_CPU_MASK (dequeue_thread c t k) = CONFIG_SCHED_CPU_MASK k"
  "cpus (dequeue_thread c t k) = cpus k"
  by (simp_all add: dequeue_thread_def Let_def runq_remove_def)

lemma queue_thread_fields [simp]:
  "threads (queue_thread c t k) = (threads k)(t := z_set_thread_states THREAD_QUEUED (threads k t))"
  "cache (queue_thread c t k) = cache k"
  "waitqs (queue_thread c t k) = waitqs k"
  "timeout_list (queue_thread c t k) = timeout_list k"
  "clock_elapsed (queue_thread c t k) = clock_elapsed k"
  "curr_tick (queue_thread c t k) = curr_tick k"
  "announce_remaining (queue_thread c t k) = announce_remaining k"
  "CONFIG_SMP (queue_thread c t k) = CONFIG_SMP k"
  "CONFIG_MP_NUM_CPUS (queue_thread c t k) = CONFIG_MP_NUM_CPUS k"
  "CONFIG_SCHED_CPU_MASK (queue_thread c t k) = CONFIG_SCHED_CPU_MASK k"
  "idle_thread (cpus (queue_thread c t k) i) = idle_thread (cpus k i)"
  "current (cpus (queue_thread c t k) i) = current (cpus k i)"
  "nested (cpus (queue_thread c t k) i) = nested (cpus k i)"
  "irq_masked (cpus (queue_thread c t k) i) = irq_masked (cpus k i)"
  by (simp_all add: queue_thread_def Let_def runq_add_def)

lemma runq_dequeue_thread:
  "\<not> CONFIG_SMP k \<Longrightarrow> runq (dequeue_thread c t k) = remove1 t (runq k)"
  by (simp add: dequeue_thread_def should_queue_thread_def runq_remove_def z_priq_dumb_remove_def Let_def)

lemma states_prio [simp]:
  "prio (z_set_thread_states x th) = prio th" "prio (z_reset_thread_states x th) = prio th"
  "pended_on (z_set_thread_states x th) = pended_on th" "pended_on (z_reset_thread_states x th) = pended_on th"
  "cpu_mask (z_set_thread_states x th) = cpu_mask th" "cpu_mask (z_reset_thread_states x th) = cpu_mask th"
  "sched_locked (z_set_thread_states x th) = sched_locked th"
  "sched_locked (z_reset_thread_states x th) = sched_locked th"
  "swap_retval (z_set_thread_states x th) = swap_retval th"
  "swap_retval (z_reset_thread_states x th) = swap_retval th"
  "swap_data (z_set_thread_states x th) = swap_data th"
  "swap_data (z_reset_thread_states x th) = swap_data th"
  by (simp_all add: z_set_thread_states_def z_reset_thread_states_def)

lemma prio_key_upd [simp]:
  "prio th = prio (tab t) \<Longrightarrow> prio_key (tab(t := th)) = prio_key tab"
  by (auto simp: prio_key_def fun_eq_iff)

lemma dumb_add_prio_key: "z_priq_dumb_add tab q t = insort_after (prio_key tab) t q"
  by (simp add: z_priq_dumb_add_insort prio_key_def [abs_def])

lemma runq_queue_thread:
  "\<not> CONFIG_SMP k \<Longrightarrow> runq (queue_thread c t k) = insort_after (prio_key (threads k)) t (runq k)"
  by (simp add: queue_thread_def should_queue_thread_def runq_add_def Let_def dumb_add_prio_key)

lemmas state_bits = bit_thread_state prevented_bits z_is_thread_ready_def
  z_is_thread_timeout_active_def z_is_inactive_timeout_def

lemma kinv_dequeue:
  assumes "kinv_but S k"
  shows "kinv_but (insert t S) (dequeue_thread 0 t k)"
    and "\<not> z_is_thread_queued (threads (dequeue_thread 0 t k) t)"
proof -
  have smp: "\<not> CONFIG_SMP k" using assms by (rule kinv_not_smp)
  have "runq_ok (dequeue_thread 0 t k)"
    using assms smp
    by (auto simp: kinv_but_def runq_ok_def runq_dequeue_thread bit_thread_state)
  then show "kinv_but (insert t S) (dequeue_thread 0 t k)"
    using assms by (auto simp: kinv_but_def ready_ok_def waitq_ok_def clock_ok_def idle_ok_def state_bits)
  show "\<not> z_is_thread_queued (threads (dequeue_thread 0 t k) t)" by (simp add: bit_thread_state)
qed

lemma kinv_queue:
  assumes "kinv_but (insert t S) k" "t \<noteq> idle0 k" "\<not> z_is_thread_queued (threads k t)" "z_is_thread_ready k t"
  shows "kinv_but S (queue_thread 0 t k)"
proof -
  have smp: "\<not> CONFIG_SMP k" using assms(1) by (rule kinv_not_smp)
  have "runq_ok (queue_thread 0 t k)"
    using assms(1-3) smp
    by (auto simp: kinv_but_def runq_ok_def runq_queue_thread bit_thread_state)
  then show ?thesis
    using assms by (auto simp: kinv_but_def ready_ok_def waitq_ok_def clock_ok_def idle_ok_def state_bits)
qed

text \<open>Setting or clearing a state bit other than the two that name a queue.\<close>

definition state_only :: "(k_thread \<Rightarrow> k_thread) \<Rightarrow> bool" where
  "state_only f \<longleftrightarrow>
     (\<forall>th. prio (f th) = prio th \<and> pended_on (f th) = pended_on th \<and>
           bit (thread_state (f th)) 7 = bit (thread_state th) 7 \<and>
           (bit (thread_state (f th)) 5 \<longrightarrow> bit (thread_state th) 5) \<and>
           bit (thread_state (f th)) 1 = bit (thread_state th) 1)"

lemma state_only_marks:
  "state_only (z_set_thread_states THREAD_SUSPENDED)"
  "state_only (z_reset_thread_states THREAD_SUSPENDED)"
  "state_only (z_reset_thread_states THREAD_PRESTART)"
  "state_only (z_set_thread_states THREAD_DEAD)"
  "state_only (z_reset_thread_states THREAD_ABORTING)"
  by (simp_all add: state_only_def)

lemma kinv_upd_state:
  assumes "kinv_but S k" "state_only f" "t \<noteq> idle0 k"
  shows "kinv_but (insert t S) (upd_thread t f k)"
proof -
  have q: "z_is_thread_queued (f th) = z_is_thread_queued th"
    "z_is_thread_pending (f th) = z_is_thread_pending th" for th
    using assms(2) by (simp_all add: state_only_def bit_thread_state)
  then have "runq_ok (upd_thread t f k)" "waitq_ok (upd_thread t f k)"
    using assms by (auto simp: kinv_but_def runq_ok_def waitq_ok_def state_only_def)
  moreover have "\<not> is_aborting (f (threads k t))"
    using assms(1,2) by (auto simp: kinv_but_def ready_ok_def state_only_def bit_thread_state)
  ultimately show ?thesis
    using assms by (auto simp: kinv_but_def ready_ok_def clock_ok_def idle_ok_def state_bits)
qed

lemma kinv_set_prio:
  assumes "kinv_but S k" "\<not> z_is_thread_queued (threads k t)"
  shows "kinv_but S (upd_thread t (\<lambda>th. th\<lparr>prio := p\<rparr>) k)"
proof -
  have "t \<notin> set (runq k)" using assms by (auto simp: kinv_but_def runq_ok_def)
  then have "\<forall>y\<in>set (runq k). prio_key ((threads k)(t := (threads k t)\<lparr>prio := p\<rparr>)) y = prio_key (threads k) y"
    by (auto simp: prio_key_def)
  then have "runq_ok (upd_thread t (\<lambda>th. th\<lparr>prio := p\<rparr>) k)"
    using assms sorted_key_cong [of "runq k" "prio_key ((threads k)(t := (threads k t)\<lparr>prio := p\<rparr>))"
        "prio_key (threads k)"]
    by (auto simp: kinv_but_def runq_ok_def bit_thread_state)
  then show ?thesis
    using assms by (auto simp: kinv_but_def ready_ok_def waitq_ok_def clock_ok_def idle_ok_def state_bits)
qed

section \<open>Timeouts\<close>

lemma z_add_timeout_list_kinv:
  assumes "kinv_but S k" "to \<noteq> ThreadTo (idle0 k)" "z_is_inactive_timeout k to"
    "\<And>t. to = ThreadTo t \<Longrightarrow> t \<in> S"
  shows "kinv_but S (z_add_timeout c to d k)"
proof -
  have "clock_ok (z_add_timeout c to d k)"
    using assms tlist_wf_add [of k to c d] by (simp add: kinv_but_def clock_ok_def)
  moreover have r: "z_is_thread_ready (z_add_timeout c to d k) t = z_is_thread_ready k t" if "to \<noteq> ThreadTo t" for t
    using that by (auto simp: z_is_thread_ready_def z_is_thread_timeout_active_def inactive_add)
  have "ready_ok S (z_add_timeout c to d k)"
    unfolding ready_ok_def
  proof (intro conjI allI impI)
    show "\<not> is_aborting (threads (z_add_timeout c to d k) t)" for t
      using assms(1) by (simp add: kinv_but_def ready_ok_def)
    fix t assume t: "t \<notin> S" "t \<noteq> idle0 (z_add_timeout c to d k)"
    then have "to \<noteq> ThreadTo t" using assms(4) by blast
    then show "z_is_thread_queued (threads (z_add_timeout c to d k) t) = z_is_thread_ready (z_add_timeout c to d k) t"
      using r t assms(1) by (simp add: kinv_but_def ready_ok_def)
  qed
  ultimately show ?thesis
    using assms(1) r [OF assms(2)] by (simp add: kinv_but_def runq_ok_def waitq_ok_def idle_ok_def)
qed

lemma kinv_add_thread_timeout:
  assumes "kinv_but S k" "t \<in> S" "t \<noteq> idle0 k" "\<not> z_is_thread_timeout_active k t"
  shows "kinv_but S (z_add_thread_timeout c t d k)"
  using assms unfolding z_add_thread_timeout_def
  by (intro z_add_timeout_list_kinv) (auto simp: z_is_thread_timeout_active_def)

lemma ready_abort_timeout:
  assumes "tlist_wf (timeout_list k)"
  shows "z_is_thread_ready (snd (z_abort_timeout to k)) t \<longleftrightarrow>
    (if to = ThreadTo t then \<not> z_is_thread_prevented_from_running (threads k t) else z_is_thread_ready k t)"
  using assms by (auto simp: z_is_thread_ready_def z_is_thread_timeout_active_def inactive_abort)

lemma kinv_abort_timeout:
  assumes "kinv_but S k"
  shows "kinv_but ({t. to = ThreadTo t} \<union> S) (snd (z_abort_timeout to k))"
proof -
  have w: "tlist_wf (timeout_list k)" using kinv_tlist [OF assms] by simp
  have "z_is_thread_ready (snd (z_abort_timeout to k)) (idle0 k)"
    using assms ready_abort_timeout [OF w, of to "idle0 k"]
    by (auto simp: kinv_but_def idle_ok_def z_is_thread_ready_def [of k])
  then show ?thesis
    using assms w tlist_wf_abort [OF w, of to]
    by (auto simp: kinv_but_def runq_ok_def ready_ok_def waitq_ok_def clock_ok_def idle_ok_def
        ready_abort_timeout)
qed

lemma kinv_abort_thread_timeout:
  "kinv_but S k \<Longrightarrow> kinv_but (insert t S) (snd (z_abort_thread_timeout t k))"
  using kinv_abort_timeout [of S k "ThreadTo t"] unfolding z_abort_thread_timeout_def by simp

lemma z_abort_thread_timeout_fields [simp]:
  "threads (snd (z_abort_thread_timeout t k)) = threads k"
  "cpus (snd (z_abort_thread_timeout t k)) = cpus k"
  "cache (snd (z_abort_thread_timeout t k)) = cache k"
  "runq (snd (z_abort_thread_timeout t k)) = runq k"
  "waitqs (snd (z_abort_thread_timeout t k)) = waitqs k"
  "curr_tick (snd (z_abort_thread_timeout t k)) = curr_tick k"
  "announce_remaining (snd (z_abort_thread_timeout t k)) = announce_remaining k"
  "clock_elapsed (snd (z_abort_thread_timeout t k)) = clock_elapsed k"
  "CONFIG_SMP (snd (z_abort_thread_timeout t k)) = CONFIG_SMP k"
  "CONFIG_SCHED_CPU_MASK (snd (z_abort_thread_timeout t k)) = CONFIG_SCHED_CPU_MASK k"
  "CONFIG_MP_NUM_CPUS (snd (z_abort_thread_timeout t k)) = CONFIG_MP_NUM_CPUS k"
  by (simp_all add: z_abort_thread_timeout_def)

lemma z_add_thread_timeout_fields [simp]:
  "threads (z_add_thread_timeout c t d k) = threads k"
  "cpus (z_add_thread_timeout c t d k) = cpus k"
  "cache (z_add_thread_timeout c t d k) = cache k"
  "runq (z_add_thread_timeout c t d k) = runq k"
  "waitqs (z_add_thread_timeout c t d k) = waitqs k"
  "curr_tick (z_add_thread_timeout c t d k) = curr_tick k"
  "announce_remaining (z_add_thread_timeout c t d k) = announce_remaining k"
  "clock_elapsed (z_add_thread_timeout c t d k) = clock_elapsed k"
  "CONFIG_SMP (z_add_thread_timeout c t d k) = CONFIG_SMP k"
  "CONFIG_SCHED_CPU_MASK (z_add_thread_timeout c t d k) = CONFIG_SCHED_CPU_MASK k"
  "CONFIG_MP_NUM_CPUS (z_add_thread_timeout c t d k) = CONFIG_MP_NUM_CPUS k"
  by (simp_all add: z_add_thread_timeout_def)

lemma abort_thread_timeout_inactive:
  "tlist_wf (timeout_list k) \<Longrightarrow> \<not> z_is_thread_timeout_active (snd (z_abort_thread_timeout t k)) t"
  by (simp add: z_abort_thread_timeout_def z_is_thread_timeout_active_def inactive_abort)

lemma abort_thread_timeout_id:
  "\<not> z_is_thread_timeout_active k t \<Longrightarrow> z_abort_thread_timeout t k = (- EINVAL, k)"
  by (simp add: z_abort_thread_timeout_def z_abort_timeout_def z_is_thread_timeout_active_def)

section \<open>Ready and unready\<close>

lemma kinv_ready_thread:
  assumes "kinv_but (insert t S) k" "t \<noteq> idle0 k"
    "z_is_thread_queued (threads k t) \<Longrightarrow> z_is_thread_ready k t"
  shows "kinv_but S (ready_thread 0 t k)"
proof (cases "\<not> z_is_thread_queued (threads k t) \<and> z_is_thread_ready k t")
  case True
  then show ?thesis using kinv_queue [OF assms(1,2)] by (simp add: ready_thread_def)
next
  case False
  then show ?thesis using kinv_close [OF assms(1)] assms(3) by (auto simp: ready_thread_def)
qed

lemma ready_thread_fields [simp]:
  "waitqs (ready_thread c t k) = waitqs k"
  "timeout_list (ready_thread c t k) = timeout_list k"
  "clock_elapsed (ready_thread c t k) = clock_elapsed k"
  "curr_tick (ready_thread c t k) = curr_tick k"
  "announce_remaining (ready_thread c t k) = announce_remaining k"
  "CONFIG_SMP (ready_thread c t k) = CONFIG_SMP k"
  "CONFIG_MP_NUM_CPUS (ready_thread c t k) = CONFIG_MP_NUM_CPUS k"
  "CONFIG_SCHED_CPU_MASK (ready_thread c t k) = CONFIG_SCHED_CPU_MASK k"
  "idle_thread (cpus (ready_thread c t k) i) = idle_thread (cpus k i)"
  "current (cpus (ready_thread c t k) i) = current (cpus k i)"
  "nested (cpus (ready_thread c t k) i) = nested (cpus k i)"
  "irq_masked (cpus (ready_thread c t k) i) = irq_masked (cpus k i)"
  by (simp_all add: ready_thread_def)

lemma ready_thread_threads:
  "u \<noteq> t \<Longrightarrow> threads (ready_thread c t k) u = threads k u"
  "pended_on (threads (ready_thread c t k) u) = pended_on (threads k u)"
  "prio (threads (ready_thread c t k) u) = prio (threads k u)"
  "cpu_mask (threads (ready_thread c t k) u) = cpu_mask (threads k u)"
  "swap_retval (threads (ready_thread c t k) u) = swap_retval (threads k u)"
  "swap_data (threads (ready_thread c t k) u) = swap_data (threads k u)"
  "sched_locked (threads (ready_thread c t k) u) = sched_locked (threads k u)"
  "n \<noteq> 7 \<Longrightarrow> bit (thread_state (threads (ready_thread c t k) u)) n = bit (thread_state (threads k u)) n"
  by (simp_all add: ready_thread_def)

lemma kinv_unready_thread:
  assumes "kinv_but S k"
  shows "kinv_but (insert t S) (unready_thread 0 t k)"
    and "\<not> z_is_thread_queued (threads (unready_thread 0 t k) t)"
  using kinv_dequeue [OF assms, of t] kinv_mono [OF assms subset_insertI, of t]
  by (simp_all add: unready_thread_def Let_def)

lemma unready_thread_fields [simp]:
  "waitqs (unready_thread c t k) = waitqs k"
  "timeout_list (unready_thread c t k) = timeout_list k"
  "clock_elapsed (unready_thread c t k) = clock_elapsed k"
  "curr_tick (unready_thread c t k) = curr_tick k"
  "announce_remaining (unready_thread c t k) = announce_remaining k"
  "CONFIG_SMP (unready_thread c t k) = CONFIG_SMP k"
  "CONFIG_MP_NUM_CPUS (unready_thread c t k) = CONFIG_MP_NUM_CPUS k"
  "CONFIG_SCHED_CPU_MASK (unready_thread c t k) = CONFIG_SCHED_CPU_MASK k"
  "idle_thread (cpus (unready_thread c t k) i) = idle_thread (cpus k i)"
  "current (cpus (unready_thread c t k) i) = current (cpus k i)"
  "nested (cpus (unready_thread c t k) i) = nested (cpus k i)"
  "irq_masked (cpus (unready_thread c t k) i) = irq_masked (cpus k i)"
  by (simp_all add: unready_thread_def Let_def)

lemma unready_thread_threads:
  "u \<noteq> t \<Longrightarrow> threads (unready_thread c t k) u = threads k u"
  "pended_on (threads (unready_thread c t k) u) = pended_on (threads k u)"
  "prio (threads (unready_thread c t k) u) = prio (threads k u)"
  "cpu_mask (threads (unready_thread c t k) u) = cpu_mask (threads k u)"
  "sched_locked (threads (unready_thread c t k) u) = sched_locked (threads k u)"
  "n \<noteq> 7 \<Longrightarrow> bit (thread_state (threads (unready_thread c t k) u)) n = bit (thread_state (threads k u)) n"
  by (simp_all add: unready_thread_def Let_def)

section \<open>Pending and unpending\<close>

lemma unpend_fields [simp]:
  "cpus (unpend_thread_no_timeout t k) = cpus k"
  "cache (unpend_thread_no_timeout t k) = cache k"
  "runq (unpend_thread_no_timeout t k) = runq k"
  "timeout_list (unpend_thread_no_timeout t k) = timeout_list k"
  "clock_elapsed (unpend_thread_no_timeout t k) = clock_elapsed k"
  "curr_tick (unpend_thread_no_timeout t k) = curr_tick k"
  "announce_remaining (unpend_thread_no_timeout t k) = announce_remaining k"
  "CONFIG_SMP (unpend_thread_no_timeout t k) = CONFIG_SMP k"
  "CONFIG_MP_NUM_CPUS (unpend_thread_no_timeout t k) = CONFIG_MP_NUM_CPUS k"
  "CONFIG_SCHED_CPU_MASK (unpend_thread_no_timeout t k) = CONFIG_SCHED_CPU_MASK k"
  "threads (unpend_thread_no_timeout t k) =
     (threads k)(t := (z_reset_thread_states THREAD_PENDING (threads k t))\<lparr>pended_on := None\<rparr>)"
  by (simp_all add: unpend_thread_no_timeout_def Let_def z_mark_thread_as_not_pending_def split: option.splits)

lemma waitqs_unpend:
  "waitqs (unpend_thread_no_timeout t k) w =
     (if pended_on (threads k t) = Some w then remove1 t (waitqs k w) else waitqs k w)"
  by (auto simp: unpend_thread_no_timeout_def Let_def z_mark_thread_as_not_pending_def
      z_priq_dumb_remove_def split: option.splits)

lemma kinv_unpend:
  assumes "kinv_but S k" "pended_on (threads k t) = Some w"
  shows "kinv_but (insert t S) (unpend_thread_no_timeout t k)"
proof -
  have i: "t \<noteq> idle0 k"
    using assms by (auto simp: kinv_but_def waitq_ok_def idle_ok_def state_bits)
  have "waitq_ok (unpend_thread_no_timeout t k)"
    using assms by (auto simp: kinv_but_def waitq_ok_def waitqs_unpend bit_thread_state)
  then show ?thesis
    using assms i by (auto simp: kinv_but_def runq_ok_def ready_ok_def clock_ok_def idle_ok_def state_bits)
qed

lemma kinv_pended_not_queued:
  "kinv_but S k \<Longrightarrow> t \<notin> S \<Longrightarrow> pended_on (threads k t) = Some w \<Longrightarrow> \<not> z_is_thread_queued (threads k t)"
proof -
  assume a: "kinv_but S k" "t \<notin> S" "pended_on (threads k t) = Some w"
  have p: "z_is_thread_pending (threads k t)" using a by (auto simp: kinv_but_def waitq_ok_def)
  have "t \<noteq> idle0 k" using a p by (auto simp: kinv_but_def idle_ok_def state_bits)
  then show ?thesis using a p by (auto simp: kinv_but_def ready_ok_def state_bits)
qed

lemma waitq_member: "kinv_but S k \<Longrightarrow> t \<in> set (waitqs k w) \<longleftrightarrow> pended_on (threads k t) = Some w"
  by (simp add: kinv_but_def waitq_ok_def)

lemma add_to_waitq_fields [simp]:
  "timeout_list (add_to_waitq_locked c t w k) = timeout_list k"
  "clock_elapsed (add_to_waitq_locked c t w k) = clock_elapsed k"
  "curr_tick (add_to_waitq_locked c t w k) = curr_tick k"
  "announce_remaining (add_to_waitq_locked c t w k) = announce_remaining k"
  "CONFIG_SMP (add_to_waitq_locked c t w k) = CONFIG_SMP k"
  "CONFIG_MP_NUM_CPUS (add_to_waitq_locked c t w k) = CONFIG_MP_NUM_CPUS k"
  "CONFIG_SCHED_CPU_MASK (add_to_waitq_locked c t w k) = CONFIG_SCHED_CPU_MASK k"
  "idle_thread (cpus (add_to_waitq_locked c t w k) i) = idle_thread (cpus k i)"
  "current (cpus (add_to_waitq_locked c t w k) i) = current (cpus k i)"
  "nested (cpus (add_to_waitq_locked c t w k) i) = nested (cpus k i)"
  "irq_masked (cpus (add_to_waitq_locked c t w k) i) = irq_masked (cpus k i)"
  "cache (add_to_waitq_locked c t w k) = cache (unready_thread c t k)"
  "runq (add_to_waitq_locked c t w k) = runq (unready_thread c t k)"
  by (simp_all add: add_to_waitq_locked_def Let_def z_mark_thread_as_pending_def split: option.splits)

lemma threads_add_to_waitq:
  "threads (add_to_waitq_locked c t (Some w) k) =
     (threads (unready_thread c t k))
       (t := (z_set_thread_states THREAD_PENDING (threads (unready_thread c t k) t))\<lparr>pended_on := Some w\<rparr>)"
  by (simp add: add_to_waitq_locked_def Let_def z_mark_thread_as_pending_def)

lemma waitqs_add_to_waitq:
  "waitqs (add_to_waitq_locked c t (Some w) k) =
     (waitqs k)(w := insort_after (prio_key (threads k)) t (waitqs k w))"
proof -
  have "prio_key ((threads (unready_thread c t k))(t :=
      (z_set_thread_states THREAD_PENDING (threads (unready_thread c t k) t))\<lparr>pended_on := Some w\<rparr>)) =
      prio_key (threads k)"
    by (auto simp: prio_key_def fun_eq_iff unready_thread_threads)
  then show ?thesis
    by (simp add: add_to_waitq_locked_def Let_def z_mark_thread_as_pending_def dumb_add_prio_key)
qed

lemma kinv_add_to_waitq:
  assumes "kinv_but S k" "t \<noteq> idle0 k" "pended_on (threads k t) = None"
  shows "kinv_but (insert t S) (add_to_waitq_locked 0 t (Some w) k)"
    and "\<not> z_is_thread_queued (threads (add_to_waitq_locked 0 t (Some w) k) t)"
    and "z_is_thread_prevented_from_running (threads (add_to_waitq_locked 0 t (Some w) k) t)"
proof -
  let ?u = "unready_thread 0 t k"
  have u: "kinv_but (insert t S) ?u" "\<not> z_is_thread_queued (threads ?u t)"
    using kinv_unready_thread [OF assms(1)] by auto
  have "\<forall>v. t \<notin> set (waitqs k v)" using waitq_member [OF assms(1)] assms(3) by simp
  then have "waitq_ok (add_to_waitq_locked 0 t (Some w) k)"
    using u(1) assms(3)
    by (auto simp: kinv_but_def waitq_ok_def waitqs_add_to_waitq threads_add_to_waitq bit_thread_state
        unready_thread_threads)
  moreover have "runq_ok (add_to_waitq_locked 0 t (Some w) k)"
    using u by (auto simp: kinv_but_def runq_ok_def threads_add_to_waitq bit_thread_state)
  moreover have "ready_ok (insert t S) (add_to_waitq_locked 0 t (Some w) k)"
    using u(1) by (auto simp: kinv_but_def ready_ok_def threads_add_to_waitq state_bits)
  moreover have "idle_ok (add_to_waitq_locked 0 t (Some w) k)"
    using u(1) assms(2) by (simp add: kinv_but_def idle_ok_def threads_add_to_waitq state_bits)
  ultimately show "kinv_but (insert t S) (add_to_waitq_locked 0 t (Some w) k)"
    using u(1) by (simp add: kinv_but_def clock_ok_def)
  show "\<not> z_is_thread_queued (threads (add_to_waitq_locked 0 t (Some w) k) t)"
    using u(2) by (simp add: threads_add_to_waitq bit_thread_state)
  show "z_is_thread_prevented_from_running (threads (add_to_waitq_locked 0 t (Some w) k) t)"
    by (simp add: threads_add_to_waitq prevented_bits)
qed

lemma timeout_active_cong:
  "timeout_list k = timeout_list k' \<Longrightarrow> z_is_thread_timeout_active k t = z_is_thread_timeout_active k' t"
  by (simp add: z_is_thread_timeout_active_def z_is_inactive_timeout_def)

lemma kinv_add_thread_timeout_opt:
  assumes "kinv_but S k" "t \<in> S" "t \<noteq> idle0 k" "\<not> z_is_thread_timeout_active k t"
  shows "kinv_but S (add_thread_timeout c t d k)"
  using kinv_add_thread_timeout [OF assms] assms(1) by (simp add: add_thread_timeout_def)

lemma add_thread_timeout_fields [simp]:
  "threads (add_thread_timeout c t d k) = threads k"
  "cpus (add_thread_timeout c t d k) = cpus k"
  "cache (add_thread_timeout c t d k) = cache k"
  "runq (add_thread_timeout c t d k) = runq k"
  "waitqs (add_thread_timeout c t d k) = waitqs k"
  "curr_tick (add_thread_timeout c t d k) = curr_tick k"
  "announce_remaining (add_thread_timeout c t d k) = announce_remaining k"
  "clock_elapsed (add_thread_timeout c t d k) = clock_elapsed k"
  "CONFIG_SMP (add_thread_timeout c t d k) = CONFIG_SMP k"
  "CONFIG_MP_NUM_CPUS (add_thread_timeout c t d k) = CONFIG_MP_NUM_CPUS k"
  "CONFIG_SCHED_CPU_MASK (add_thread_timeout c t d k) = CONFIG_SCHED_CPU_MASK k"
  by (simp_all add: add_thread_timeout_def)

lemma kinv_pend:
  assumes "kinv_but S k" "t \<noteq> idle0 k" "pended_on (threads k t) = None" "\<not> z_is_thread_timeout_active k t"
  shows "kinv_but S (pend 0 t (Some w) d k)"
    and "\<not> z_is_thread_queued (threads (pend 0 t (Some w) d k) t)"
proof -
  let ?a = "add_to_waitq_locked 0 t (Some w) k"
  note a = kinv_add_to_waitq [OF assms(1-3), of w]
  have n: "\<not> z_is_thread_timeout_active ?a t"
    using assms(4) timeout_active_cong [of ?a k t] by simp
  have "kinv_but (insert t S) (pend 0 t (Some w) d k)"
    unfolding pend_def by (rule kinv_add_thread_timeout_opt) (use a(1) n assms(2) in simp_all)
  then show "kinv_but S (pend 0 t (Some w) d k)"
    by (rule kinv_close) (use a in \<open>simp add: pend_def z_is_thread_ready_def\<close>)
  show "\<not> z_is_thread_queued (threads (pend 0 t (Some w) d k) t)" using a(2) by (simp add: pend_def)
qed

section \<open>The context switch\<close>

text \<open>The running thread never has a pending timeout of its own.\<close>

definition cur_ok :: "kernel \<Rightarrow> bool" where
  "cur_ok k \<longleftrightarrow> \<not> z_is_thread_timeout_active k (cur0 k)"

definition sched_ok :: "kernel \<Rightarrow> bool" where
  "sched_ok k \<longleftrightarrow> kinv k \<and> cache_ok k \<and> cur_ok k"

lemma sched_okD:
  "sched_ok k \<Longrightarrow> kinv k" "sched_ok k \<Longrightarrow> cache_ok k" "sched_ok k \<Longrightarrow> cur_ok k"
  by (simp_all add: sched_ok_def)

lemma runq_best_mem: "runq_best c k = Some t \<Longrightarrow> t \<in> set (runq k)"
  by (auto simp: runq_best_def z_priq_dumb_best_def split: if_splits list.splits
      dest: priq_dumb_mask_best_SomeD)

lemma next_up_ready: "kinv k \<Longrightarrow> z_is_thread_ready k (next_up_uniprocessor 0 k)"
proof -
  assume a: "kinv k"
  show ?thesis
  proof (cases "runq_best 0 k")
    case None
    then show ?thesis using a by (simp add: next_up_uniprocessor_def kinv_but_def idle_ok_def)
  next
    case (Some t)
    then have "z_is_thread_queued (threads k t)"
      using a runq_best_mem [OF Some] by (simp add: kinv_but_def runq_ok_def)
    then show ?thesis using Some a kinv_queued [OF a, of t] kinv_idle_not_queued [OF a]
      by (auto simp: next_up_uniprocessor_def)
  qed
qed

lemma next_up_neq:
  "kinv_but S k \<Longrightarrow> \<not> z_is_thread_queued (threads k t) \<Longrightarrow> t \<noteq> idle0 k \<Longrightarrow> next_up_uniprocessor 0 k \<noteq> t"
  using runq_best_mem [of 0 k t]
  by (auto simp: next_up_uniprocessor_def kinv_but_def runq_ok_def split: option.splits)

lemma do_swap_uniprocessor:
  "\<not> CONFIG_SMP k \<Longrightarrow> do_swap c k =
     (if cache k \<noteq> current_thread c k
      then set_current c (cache k)
             (upd_thread (current_thread c k) (\<lambda>th. th\<lparr>swap_retval := - EAGAIN\<rparr>) (z_reset_time_slice c k))
      else k)"
  by (simp add: do_swap_def z_swap_next_thread_def set_current_def Let_def)

lemma do_swap_fields:
  "\<not> CONFIG_SMP k \<Longrightarrow> runq (do_swap c k) = runq k"
  "\<not> CONFIG_SMP k \<Longrightarrow> waitqs (do_swap c k) = waitqs k"
  "\<not> CONFIG_SMP k \<Longrightarrow> timeout_list (do_swap c k) = timeout_list k"
  "\<not> CONFIG_SMP k \<Longrightarrow> clock_elapsed (do_swap c k) = clock_elapsed k"
  "\<not> CONFIG_SMP k \<Longrightarrow> curr_tick (do_swap c k) = curr_tick k"
  "\<not> CONFIG_SMP k \<Longrightarrow> cache (do_swap c k) = cache k"
  "\<not> CONFIG_SMP k \<Longrightarrow> CONFIG_SMP (do_swap c k) = CONFIG_SMP k"
  "\<not> CONFIG_SMP k \<Longrightarrow> CONFIG_SCHED_CPU_MASK (do_swap c k) = CONFIG_SCHED_CPU_MASK k"
  "\<not> CONFIG_SMP k \<Longrightarrow> idle_thread (cpus (do_swap c k) i) = idle_thread (cpus k i)"
  "\<not> CONFIG_SMP k \<Longrightarrow> nested (cpus (do_swap c k) i) = nested (cpus k i)"
  "\<not> CONFIG_SMP k \<Longrightarrow> irq_masked (cpus (do_swap c k) i) = irq_masked (cpus k i)"
  "\<not> CONFIG_SMP k \<Longrightarrow> current_thread c (do_swap c k) = cache k"
  "\<not> CONFIG_SMP k \<Longrightarrow> threads (do_swap c k) =
     (if cache k \<noteq> current_thread c k
      then (threads k)(current_thread c k := (threads k (current_thread c k))\<lparr>swap_retval := - EAGAIN\<rparr>)
      else threads k)"
  by (simp_all add: do_swap_uniprocessor set_current_def current_thread_def)

lemma kinv_do_swap: "kinv_but S k \<Longrightarrow> kinv_but S (do_swap 0 k)"
proof -
  assume a: "kinv_but S k"
  then have smp: "\<not> CONFIG_SMP k" by (rule kinv_not_smp)
  have "kinv_but S (do_swap 0 k) = kinv_but S k"
    by (rule kinv_but_cong) (use smp in \<open>simp_all add: do_swap_fields\<close>)
  with a show ?thesis by simp
qed

lemma sched_ok_do_swap:
  assumes "kinv k" "cache_ok k" "cache k = cur0 k \<Longrightarrow> cur_ok k"
  shows "sched_ok (do_swap 0 k)"
proof (cases "cache k = cur0 k")
  case True
  then have "do_swap 0 k = k" using assms(1) by (simp add: do_swap_uniprocessor kinv_but_def)
  then show ?thesis using assms True by (simp add: sched_ok_def)
next
  case False
  have smp: "\<not> CONFIG_SMP k" using assms(1) by (rule kinv_not_smp)
  have c: "cache k = next_up_uniprocessor 0 k" using assms(2) False by (simp add: cache_ok_def)
  have n: "next_up_uniprocessor 0 (do_swap 0 k) = next_up_uniprocessor 0 k"
    by (rule next_up_uniprocessor_cong) (use smp in \<open>simp_all add: do_swap_fields\<close>)
  have "\<not> z_is_thread_timeout_active k (cache k)"
    using next_up_ready [OF assms(1)] c by (simp add: z_is_thread_ready_def)
  then have "cur_ok (do_swap 0 k)"
    using smp timeout_active_cong [of "do_swap 0 k" k] by (simp add: cur_ok_def do_swap_fields)
  moreover have "cache_ok (do_swap 0 k)" using c n smp by (simp add: cache_ok_def do_swap_fields)
  ultimately show ?thesis using kinv_do_swap [OF assms(1)] by (simp add: sched_ok_def)
qed

lemma resched_uniprocessor:
  "\<not> CONFIG_SMP k \<Longrightarrow> resched c k = (\<not> irq_masked (cpus k c) \<and> \<not> arch_is_in_isr c k, k)"
  by (simp add: resched_def)

lemma sched_ok_reschedule: "sched_ok k \<Longrightarrow> sched_ok (z_reschedule 0 k)"
  using sched_ok_do_swap [of k] kinv_not_smp [of "{}" k]
  by (auto simp: z_reschedule_def resched_uniprocessor z_swap_def sched_ok_def)

lemma sched_ok_reschedule_unlocked: "sched_ok k \<Longrightarrow> sched_ok (z_reschedule_unlocked 0 k)"
  using sched_ok_do_swap [of k] kinv_not_smp [of "{}" k]
  by (auto simp: z_reschedule_unlocked_def z_reschedule_irqlock_def resched_uniprocessor
      z_swap_irqlock_def sched_ok_def)

section \<open>The cache while threads change\<close>

lemma cache_ok_frame:
  assumes "cache_ok k" "cache k' = cache k" "runq k' = runq k" "idle0 k' = idle0 k" "cur0 k' = cur0 k"
    "CONFIG_SCHED_CPU_MASK k' = CONFIG_SCHED_CPU_MASK k"
    "\<And>t. t \<in> set (runq k) \<Longrightarrow> cpu_mask (threads k' t) = cpu_mask (threads k t)"
    "\<not> z_is_thread_prevented_from_running (threads k (cur0 k)) \<Longrightarrow>
     \<not> is_preempt (threads k (cur0 k)) \<Longrightarrow>
     \<not> z_is_thread_prevented_from_running (threads k' (cur0 k)) \<and> \<not> is_preempt (threads k' (cur0 k))"
  shows "cache_ok k'"
proof -
  have "next_up_uniprocessor 0 k' = next_up_uniprocessor 0 k"
    by (rule next_up_uniprocessor_cong) (use assms in simp_all)
  then show ?thesis using assms by (auto simp: cache_ok_def)
qed

lemma is_preempt_states [simp]:
  "is_preempt (z_set_thread_states x th) = is_preempt th"
  "is_preempt (z_reset_thread_states x th) = is_preempt th"
  by (simp_all add: is_preempt_iff)

text \<open>Clearing state bits of a thread never invalidates the cache.\<close>

lemma cache_ok_upd_thread:
  assumes "cache_ok k"
    and "\<And>th. cpu_mask (f th) = cpu_mask th"
    and "\<And>th. is_preempt (f th) \<Longrightarrow> is_preempt th"
    and "\<And>th. z_is_thread_prevented_from_running (f th) \<Longrightarrow> z_is_thread_prevented_from_running th"
  shows "cache_ok (upd_thread t f k)"
  by (rule cache_ok_frame [OF assms(1)])
    (use assms in \<open>auto simp: current_thread_def\<close>)

lemma cache_ok_unpend:
  assumes "cache_ok k"
  shows "cache_ok (unpend_thread_no_timeout t k)"
  by (rule cache_ok_frame [OF assms])
    (auto simp: current_thread_def prevented_bits is_preempt_iff)

lemma cache_ok_abort_timeout: "cache_ok k \<Longrightarrow> cache_ok (snd (z_abort_thread_timeout t k))"
  by (rule cache_ok_frame) (auto simp: current_thread_def)

lemma cache_ok_ready_thread:
  "\<not> CONFIG_SMP k \<Longrightarrow> cache_ok k \<Longrightarrow> cache_ok (ready_thread 0 t k)"
  by (simp add: ready_thread_def cache_ok_update_cache)

text \<open>After \<open>unready_thread\<close> of the running thread the cache is the best other thread.\<close>

lemma cache_unready_current:
  "\<not> CONFIG_SMP k \<Longrightarrow> cache (unready_thread 0 (cur0 k) k) = next_up_uniprocessor 0 (unready_thread 0 (cur0 k) k)"
  by (simp add: unready_thread_def Let_def cache_update_cache_True current_thread_def)

lemma cache_pend_current:
  assumes "\<not> CONFIG_SMP k"
  shows "cache (pend 0 (cur0 k) (Some w) d k) = next_up_uniprocessor 0 (pend 0 (cur0 k) (Some w) d k)"
proof -
  have "next_up_uniprocessor 0 (pend 0 (cur0 k) (Some w) d k) = next_up_uniprocessor 0 (unready_thread 0 (cur0 k) k)"
    by (rule next_up_uniprocessor_cong) (auto simp: pend_def threads_add_to_waitq)
  then show ?thesis using cache_unready_current [OF assms] by (simp add: pend_def)
qed

lemma cur0_pend [simp]: "cur0 (pend 0 t w d k) = cur0 k"
  by (simp add: pend_def current_thread_def)

lemma idle0_pend [simp]: "idle0 (pend 0 t w d k) = idle0 k"
  by (simp add: pend_def)

lemma sched_ok_z_pend_curr:
  assumes "sched_ok k" "cur0 k \<noteq> idle0 k" "pended_on (threads k (cur0 k)) = None"
  shows "sched_ok (z_pend_curr 0 (Some w) d k)"
    and "current_thread 0 (z_pend_curr 0 (Some w) d k) \<noteq> cur0 k"
proof -
  let ?p = "pend 0 (cur0 k) (Some w) d k"
  have inv: "kinv ?p" and nq: "\<not> z_is_thread_queued (threads ?p (cur0 k))"
    using kinv_pend [of "{}" k "cur0 k" w d] assms by (auto simp: sched_ok_def cur_ok_def)
  have smp: "\<not> CONFIG_SMP k" using assms(1) by (auto simp: sched_ok_def kinv_but_def)
  have c: "cache ?p = next_up_uniprocessor 0 ?p" using cache_pend_current [OF smp] .
  then have ne: "cache ?p \<noteq> cur0 k" using next_up_neq [OF inv nq] assms(2) by simp
  show "sched_ok (z_pend_curr 0 (Some w) d k)"
    unfolding z_pend_curr_def z_swap_def
    by (rule sched_ok_do_swap) (use inv c ne in \<open>simp_all add: cache_ok_def\<close>)
  show "current_thread 0 (z_pend_curr 0 (Some w) d k) \<noteq> cur0 k"
    using ne inv by (simp add: z_pend_curr_def z_swap_def do_swap_fields kinv_but_def)
qed

section \<open>Making threads ready keeps the invariants\<close>

definition sched_ok_but :: "tid set \<Rightarrow> kernel \<Rightarrow> bool" where
  "sched_ok_but S k \<longleftrightarrow> kinv_but S k \<and> cache_ok k \<and> cur_ok k"

lemma sched_ok_but_empty: "sched_ok_but {} k = sched_ok k"
  by (simp add: sched_ok_but_def sched_ok_def)

lemma cur_ok_cong:
  "cur_ok k \<Longrightarrow> timeout_list k' = timeout_list k \<Longrightarrow> cur0 k' = cur0 k \<Longrightarrow> cur_ok k'"
  using timeout_active_cong [of k' k] by (simp add: cur_ok_def)

lemma cur_ok_abort:
  "tlist_wf (timeout_list k) \<Longrightarrow> cur_ok k \<Longrightarrow> cur_ok (snd (z_abort_thread_timeout t k))"
  by (auto simp: cur_ok_def z_is_thread_timeout_active_def z_abort_thread_timeout_def inactive_abort
      current_thread_def)

lemma sched_ok_upd_state:
  assumes "sched_ok_but S k" "state_only f" "t \<noteq> idle0 k" "\<And>th. cpu_mask (f th) = cpu_mask th"
    "\<And>th. is_preempt (f th) = is_preempt th"
    "\<And>th. z_is_thread_prevented_from_running (f th) \<Longrightarrow> z_is_thread_prevented_from_running th"
  shows "sched_ok_but (insert t S) (upd_thread t f k)"
  using assms kinv_upd_state [of S k f t] cache_ok_upd_thread [of k f t] cur_ok_cong [of k "upd_thread t f k"]
  by (simp add: sched_ok_but_def current_thread_def)

lemma sched_ok_upd_retval:
  "sched_ok_but S k \<Longrightarrow> sched_ok_but S (upd_thread t (\<lambda>th. th\<lparr>swap_retval := v\<rparr>) k)"
  "sched_ok_but S k \<Longrightarrow> sched_ok_but S (upd_thread t (\<lambda>th. th\<lparr>swap_data := d\<rparr>) k)"
  using kinv_upd_thread_other [of "\<lambda>th. th\<lparr>swap_retval := v\<rparr>" S t k]
    kinv_upd_thread_other [of "\<lambda>th. th\<lparr>swap_data := d\<rparr>" S t k]
    cache_ok_upd_thread [of k "\<lambda>th. th\<lparr>swap_retval := v\<rparr>" t]
    cache_ok_upd_thread [of k "\<lambda>th. th\<lparr>swap_data := d\<rparr>" t]
    cur_ok_cong [of k "upd_thread t (\<lambda>th. th\<lparr>swap_retval := v\<rparr>) k"]
    cur_ok_cong [of k "upd_thread t (\<lambda>th. th\<lparr>swap_data := d\<rparr>) k"]
  by (simp_all add: sched_ok_but_def current_thread_def is_preempt_iff prevented_bits)

lemma sched_ok_unpend:
  assumes "sched_ok_but S k" "pended_on (threads k t) = Some w"
  shows "sched_ok_but (insert t S) (unpend_thread_no_timeout t k)"
  using assms kinv_unpend [of S k t w] cache_ok_unpend [of k t]
    cur_ok_cong [of k "unpend_thread_no_timeout t k"]
  by (simp add: sched_ok_but_def current_thread_def)

lemma sched_ok_abort_thread_timeout:
  assumes "sched_ok_but S k"
  shows "sched_ok_but (insert t S) (snd (z_abort_thread_timeout t k))"
  using assms kinv_abort_thread_timeout [of S k t] cache_ok_abort_timeout [of k t]
    cur_ok_abort [of k t] kinv_tlist [of S k]
  by (simp add: sched_ok_but_def)

lemma sched_ok_ready_thread:
  assumes "sched_ok_but (insert t S) k" "t \<noteq> idle0 k"
    "z_is_thread_queued (threads k t) \<Longrightarrow> z_is_thread_ready k t"
  shows "sched_ok_but S (ready_thread 0 t k)"
  using assms kinv_ready_thread [of t S k] cache_ok_ready_thread [of k t] kinv_not_smp [of "insert t S" k]
    cur_ok_cong [of k "ready_thread 0 t k"]
  by (simp add: sched_ok_but_def current_thread_def)

lemma sched_ok_close:
  "sched_ok_but (insert t S) k \<Longrightarrow> z_is_thread_queued (threads k t) = z_is_thread_ready k t \<Longrightarrow> sched_ok_but S k"
  using kinv_close [of t S k] by (simp add: sched_ok_but_def)

lemma z_ready_thread_uniprocessor: "\<not> CONFIG_SMP k \<Longrightarrow> z_ready_thread c t k = ready_thread c t k"
  by (simp add: z_ready_thread_def thread_active_elsewhere_def)

text \<open>Taking a thread off its wait queue, with its timeout, and making it ready.\<close>

lemma pended_not_idle: "kinv_but S k \<Longrightarrow> pended_on (threads k t) = Some w \<Longrightarrow> t \<noteq> idle0 k"
  by (auto simp: kinv_but_def waitq_ok_def idle_ok_def state_bits)

lemma sched_ok_unpend_abort:
  assumes "sched_ok_but S k" "pended_on (threads k t) = Some w" "t \<notin> S"
  shows "sched_ok_but (insert t S) (snd (z_abort_thread_timeout t (unpend_thread_no_timeout t k)))"
    and "\<not> z_is_thread_queued
           (threads (snd (z_abort_thread_timeout t (unpend_thread_no_timeout t k))) t)"
proof -
  have "sched_ok_but (insert t (insert t S)) (snd (z_abort_thread_timeout t (unpend_thread_no_timeout t k)))"
    using assms(1,2) by (intro sched_ok_abort_thread_timeout sched_ok_unpend)
  then show "sched_ok_but (insert t S) (snd (z_abort_thread_timeout t (unpend_thread_no_timeout t k)))" by simp
  have "\<not> z_is_thread_queued (threads k t)"
    using assms kinv_pended_not_queued by (auto simp: sched_ok_but_def)
  then show "\<not> z_is_thread_queued
      (threads (snd (z_abort_thread_timeout t (unpend_thread_no_timeout t k))) t)"
    by (simp add: bit_thread_state)
qed

lemma waitq_head_pended:
  "kinv_but S k \<Longrightarrow> z_priq_dumb_best (waitqs k w) = Some t \<Longrightarrow> pended_on (threads k t) = Some w"
  using waitq_member [of S k t w] by (auto simp: z_priq_dumb_best_def split: list.splits)

lemma sched_ok_z_unpend_first_thread:
  assumes "sched_ok_but S k" "z_unpend_first_thread w k = (r, k')" "\<And>t. r = Some t \<Longrightarrow> t \<notin> S"
  shows "case r of
      None \<Rightarrow> k' = k \<and> waitqs k w = []
    | Some t \<Rightarrow> sched_ok_but (insert t S) k' \<and> t \<noteq> idle0 k' \<and> \<not> z_is_thread_queued (threads k' t) \<and>
        pended_on (threads k t) = Some w \<and> waitqs k w \<noteq> [] \<and> t = hd (waitqs k w)"
proof (cases "z_priq_dumb_best (waitqs k w)")
  case None
  then show ?thesis using assms(2)
    by (auto simp: z_unpend_first_thread_def z_priq_dumb_best_def split: list.splits)
next
  case (Some t)
  have inv: "kinv_but S k" using assms(1) by (simp add: sched_ok_but_def)
  have p: "pended_on (threads k t) = Some w" using waitq_head_pended [OF inv Some] .
  have r: "r = Some t" "k' = snd (z_abort_thread_timeout t (unpend_thread_no_timeout t k))"
    using Some assms(2) by (auto simp: z_unpend_first_thread_def)
  then show ?thesis
    using sched_ok_unpend_abort [OF assms(1) p] assms(3) p pended_not_idle [OF inv p] Some
    by (auto simp: z_priq_dumb_best_def split: list.splits)
qed

lemma sched_ok_z_sched_wake:
  assumes "sched_ok k"
  shows "sched_ok (snd (z_sched_wake 0 w v d k))"
proof (cases "z_priq_dumb_best (waitqs k w)")
  case None
  then show ?thesis using assms by (simp add: z_sched_wake_def)
next
  case (Some t)
  let ?r = "z_thread_return_value_set_with_data t v d k"
  have r: "sched_ok_but {} ?r"
    using assms unfolding z_thread_return_value_set_with_data_def arch_thread_return_value_set_def
    by (intro sched_ok_upd_retval) (simp add: sched_ok_but_empty)
  have p: "pended_on (threads k t) = Some w"
    using waitq_head_pended [of "{}" k w t] Some assms by (simp add: sched_ok_def)
  then have p': "pended_on (threads ?r t) = Some w"
    by (simp add: z_thread_return_value_set_with_data_def arch_thread_return_value_set_def)
  note u = sched_ok_unpend_abort [OF r p']
  have "t \<noteq> idle0 k" using assms pended_not_idle [OF _ p] by (auto simp: sched_ok_def)
  then have "sched_ok_but {} (ready_thread 0 t (snd (z_abort_thread_timeout t (unpend_thread_no_timeout t ?r))))"
    using u by (intro sched_ok_ready_thread)
      (simp_all add: z_thread_return_value_set_with_data_def arch_thread_return_value_set_def)
  then show ?thesis using Some by (simp add: z_sched_wake_def sched_ok_but_empty Let_def)
qed

lemma sched_ok_z_sched_wake_all:
  "sched_ok k \<Longrightarrow> sched_ok (snd (z_sched_wake_all_loop n 0 w v d b k))"
proof (induction n arbitrary: b k)
  case (Suc n)
  have "sched_ok (snd (z_sched_wake 0 w v d k))" using Suc.prems by (rule sched_ok_z_sched_wake)
  then show ?case using Suc by (auto split: prod.splits)
qed simp

text \<open>
  The loop that empties a wait queue. It runs while the cache is out of date, between the
  end of a thread and the update of the cache.
\<close>

definition kcur_ok :: "tid set \<Rightarrow> kernel \<Rightarrow> bool" where
  "kcur_ok S k \<longleftrightarrow> kinv_but S k \<and> cur_ok k"

lemma kcur_unpend_abort:
  assumes "kcur_ok S k" "pended_on (threads k t) = Some w" "t \<notin> S"
  shows "kcur_ok (insert t S) (snd (z_abort_thread_timeout t (unpend_thread_no_timeout t k)))"
    and "\<not> z_is_thread_queued
           (threads (snd (z_abort_thread_timeout t (unpend_thread_no_timeout t k))) t)"
proof -
  have i: "kinv_but S k" "cur_ok k" using assms(1) by (simp_all add: kcur_ok_def)
  have 1: "kinv_but (insert t (insert t S)) (snd (z_abort_thread_timeout t (unpend_thread_no_timeout t k)))"
    using i(1) assms(2) by (intro kinv_abort_thread_timeout kinv_unpend)
  have "cur_ok (unpend_thread_no_timeout t k)"
    using cur_ok_cong [OF i(2), of "unpend_thread_no_timeout t k"] by (simp add: current_thread_def)
  then have "cur_ok (snd (z_abort_thread_timeout t (unpend_thread_no_timeout t k)))"
    using cur_ok_abort kinv_tlist [OF i(1)] by simp
  then show "kcur_ok (insert t S) (snd (z_abort_thread_timeout t (unpend_thread_no_timeout t k)))"
    using 1 by (simp add: kcur_ok_def)
  have "\<not> z_is_thread_queued (threads k t)"
    using assms kinv_pended_not_queued by (auto simp: kcur_ok_def)
  then show "\<not> z_is_thread_queued
      (threads (snd (z_abort_thread_timeout t (unpend_thread_no_timeout t k))) t)"
    by (simp add: bit_thread_state)
qed

lemma kcur_unpend_all_step:
  assumes "kcur_ok S k" "z_waitq_head w k = Some t" "t \<notin> S"
  shows "kcur_ok S (ready_thread 0 t (arch_thread_return_value_set t v
           (snd (z_abort_thread_timeout t (unpend_thread_no_timeout t k)))))"
proof -
  have inv: "kinv_but S k" using assms(1) by (simp add: kcur_ok_def)
  have p: "pended_on (threads k t) = Some w"
    using waitq_head_pended [OF inv] assms(2) by (simp add: z_waitq_head_def)
  note u = kcur_unpend_abort [OF assms(1) p assms(3)]
  define k1 where "k1 = snd (z_abort_thread_timeout t (unpend_thread_no_timeout t k))"
  have "kinv_but (insert t S) (arch_thread_return_value_set t v k1)"
    using u(1) kinv_upd_thread_other [of "\<lambda>th. th\<lparr>swap_retval := v\<rparr>"]
    by (simp add: kcur_ok_def arch_thread_return_value_set_def k1_def)
  then have "kinv_but S (ready_thread 0 t (arch_thread_return_value_set t v k1))"
    by (rule kinv_ready_thread)
      (use u(2) pended_not_idle [OF inv p] in
        \<open>simp_all add: arch_thread_return_value_set_def bit_thread_state k1_def\<close>)
  moreover have "cur_ok (ready_thread 0 t (arch_thread_return_value_set t v k1))"
    using u(1) cur_ok_cong [of k1 "ready_thread 0 t (arch_thread_return_value_set t v k1)"]
    by (simp add: kcur_ok_def arch_thread_return_value_set_def k1_def current_thread_def)
  ultimately show ?thesis by (simp add: kcur_ok_def k1_def)
qed

lemma waitqs_unpend_all_step:
  assumes "kinv_but S k" "z_waitq_head w k = Some t"
  shows "waitqs (ready_thread 0 t (arch_thread_return_value_set t v
           (snd (z_abort_thread_timeout t (unpend_thread_no_timeout t k))))) =
         (waitqs k)(w := tl (waitqs k w))"
proof -
  obtain ts where t: "waitqs k w = t # ts"
    using assms(2) by (auto simp: z_waitq_head_def z_priq_dumb_best_def split: list.splits)
  then have p: "pended_on (threads k t) = Some w" using waitq_member [OF assms(1), of t w] by simp
  show ?thesis
    using t p by (auto simp: arch_thread_return_value_set_def waitqs_unpend fun_eq_iff)
qed

lemma unpend_all_loop_ok:
  assumes "kcur_ok S k" "set (waitqs k w) \<inter> S = {}" "length (waitqs k w) \<le> n"
  shows "kcur_ok S (unpend_all_loop n 0 w k) \<and> waitqs (unpend_all_loop n 0 w k) = (waitqs k)(w := [])"
  using assms
proof (induction n arbitrary: k)
  case (Suc n)
  show ?case
  proof (cases "z_waitq_head w k")
    case None
    then have "waitqs k w = []" by (auto simp: z_waitq_head_def z_priq_dumb_best_def split: list.splits)
    then show ?thesis using None Suc.prems by auto
  next
    case (Some t)
    define k1 where "k1 = ready_thread 0 t (arch_thread_return_value_set t 0
           (snd (z_abort_thread_timeout t (unpend_thread_no_timeout t k))))"
    obtain ts where t: "waitqs k w = t # ts"
      using Some by (auto simp: z_waitq_head_def z_priq_dumb_best_def split: list.splits)
    have nS: "t \<notin> S" using t Suc.prems(2) by auto
    have wq: "waitqs k1 = (waitqs k)(w := ts)"
      using waitqs_unpend_all_step [OF _ Some] Suc.prems(1) t by (auto simp: kcur_ok_def k1_def)
    have "kcur_ok S k1"
      unfolding k1_def using kcur_unpend_all_step [OF Suc.prems(1) Some nS] .
    moreover have "set (waitqs k1 w) \<inter> S = {}" "length (waitqs k1 w) \<le> n"
      using Suc.prems(2,3) wq t by auto
    ultimately have "kcur_ok S (unpend_all_loop n 0 w k1) \<and>
        waitqs (unpend_all_loop n 0 w k1) = (waitqs k1)(w := [])"
      by (rule Suc.IH)
    then show ?thesis using Some wq by (simp add: k1_def)
  qed
qed auto

lemma unpend_all_ok:
  "kcur_ok S k \<Longrightarrow> set (waitqs k w) \<inter> S = {} \<Longrightarrow>
   kcur_ok S (unpend_all 0 w k) \<and> waitqs (unpend_all 0 w k) = (waitqs k)(w := [])"
  unfolding unpend_all_def by (rule unpend_all_loop_ok) simp_all

end
