(* ===== verification/Sched_Ops.thy ===== *)
theory Sched_Ops
  imports Sched_Inv
begin

text \<open>
  Every operation of the scheduler's interface keeps the invariants of theory
  \<open>Sched_Inv\<close>. \<open>running k\<close> is the situation in which a thread calls the kernel: the
  caller is not the idle thread and is itself ready.
\<close>

definition running :: "kernel \<Rightarrow> bool" where
  "running k \<longleftrightarrow> cur0 k \<noteq> idle0 k \<and> z_is_thread_ready k (cur0 k)"

lemma running_not_pended: "sched_ok k \<Longrightarrow> running k \<Longrightarrow> pended_on (threads k (cur0 k)) = None"
  by (auto simp: running_def sched_ok_def kinv_but_def waitq_ok_def z_is_thread_ready_def
      bit_thread_state prevented_bits)

lemma sched_ok_smp [simp]: "sched_ok k \<Longrightarrow> \<not> CONFIG_SMP k"
  by (simp add: sched_ok_def kinv_but_def)

section \<open>Starting, suspending, resuming\<close>

lemma prevented_reset:
  "z_is_thread_prevented_from_running (z_reset_thread_states THREAD_PRESTART th) \<Longrightarrow>
   z_is_thread_prevented_from_running th"
  "z_is_thread_prevented_from_running (z_reset_thread_states THREAD_SUSPENDED th) \<Longrightarrow>
   z_is_thread_prevented_from_running th"
  by (auto simp: prevented_bits)

lemma queued_states [simp]:
  "z_is_thread_queued (z_reset_thread_states THREAD_PRESTART th) = z_is_thread_queued th"
  "z_is_thread_queued (z_reset_thread_states THREAD_SUSPENDED th) = z_is_thread_queued th"
  "z_is_thread_queued (z_set_thread_states THREAD_SUSPENDED th) = z_is_thread_queued th"
  "z_is_thread_queued (z_set_thread_states THREAD_DEAD th) = z_is_thread_queued th"
  "z_is_thread_queued (z_reset_thread_states THREAD_ABORTING th) = z_is_thread_queued th"
  "\<not> z_is_thread_queued (z_reset_thread_states THREAD_QUEUED th)"
  by (simp_all add: bit_thread_state)

lemma sched_ok_clear_then_ready:
  assumes "sched_ok_but S k" "t \<noteq> idle0 k" "\<not> z_is_thread_queued (threads k t)" "S \<subseteq> {t}"
    "f = z_reset_thread_states THREAD_PRESTART \<or> f = z_reset_thread_states THREAD_SUSPENDED"
  shows "sched_ok_but {t} (upd_thread t f k)"
    and "sched_ok (ready_thread 0 t (upd_thread t f k))"
proof -
  have "sched_ok_but (insert t S) (upd_thread t f k)"
    by (rule sched_ok_upd_state)
      (use assms in \<open>auto simp: state_only_marks dest: prevented_reset\<close>)
  moreover have "insert t S = {t}" using assms(4) by auto
  ultimately show 1: "sched_ok_but {t} (upd_thread t f k)" by simp
  have "sched_ok_but {} (ready_thread 0 t (upd_thread t f k))"
    by (rule sched_ok_ready_thread) (use 1 assms in auto)
  then show "sched_ok (ready_thread 0 t (upd_thread t f k))" by (simp add: sched_ok_but_empty)
qed

lemma prevented_not_queued:
  "sched_ok k \<Longrightarrow> z_is_thread_prevented_from_running (threads k t) \<Longrightarrow> \<not> z_is_thread_queued (threads k t)"
  using kinv_queued [of "{}" k t] kinv_idle_not_queued [of "{}" k]
  by (auto simp: sched_ok_def z_is_thread_ready_def)

lemma idle_not_prevented: "sched_ok k \<Longrightarrow> \<not> z_is_thread_prevented_from_running (threads k (idle0 k))"
  by (simp add: sched_ok_def kinv_but_def idle_ok_def z_is_thread_ready_def)

lemma sched_ok_z_sched_start:
  assumes "sched_ok k"
  shows "sched_ok (z_sched_start 0 t k)"
proof (cases "z_has_thread_started (threads k t)")
  case False
  then have p: "z_is_thread_prevented_from_running (threads k t)"
    by (simp add: prevented_bits bit_thread_state)
  then have "t \<noteq> idle0 k" using idle_not_prevented [OF assms] by auto
  then have "sched_ok (ready_thread 0 t (z_mark_thread_as_started t k))"
    unfolding z_mark_thread_as_started_def
    using sched_ok_clear_then_ready(2) [of "{}" k t] prevented_not_queued [OF assms p] assms
    by (simp add: sched_ok_but_empty)
  then show ?thesis using False by (simp add: z_sched_start_def sched_ok_reschedule)
qed (use assms in \<open>simp add: z_sched_start_def\<close>)

lemma sched_ok_k_thread_resume:
  assumes "sched_ok k"
  shows "sched_ok (k_thread_resume 0 t k)"
proof (cases "z_is_thread_suspended (threads k t)")
  case True
  then have p: "z_is_thread_prevented_from_running (threads k t)"
    by (simp add: prevented_bits bit_thread_state)
  then have "t \<noteq> idle0 k" using idle_not_prevented [OF assms] by auto
  then have "sched_ok (ready_thread 0 t (z_mark_thread_as_not_suspended t k))"
    unfolding z_mark_thread_as_not_suspended_def
    using sched_ok_clear_then_ready(2) [of "{}" k t] prevented_not_queued [OF assms p] assms
    by (simp add: sched_ok_but_empty)
  then show ?thesis using True by (simp add: k_thread_resume_def sched_ok_reschedule)
qed (use assms in \<open>simp add: k_thread_resume_def\<close>)

text \<open>Taking a thread out of the ready queue and blocking it with a state bit.\<close>

lemma kinv_dequeue_opt:
  assumes "kinv_but S k"
  shows "kinv_but (insert t S) (if z_is_thread_queued (threads k t) then dequeue_thread 0 t k else k)"
    and "\<not> z_is_thread_queued
      (threads (if z_is_thread_queued (threads k t) then dequeue_thread 0 t k else k) t)"
  using kinv_dequeue [OF assms, of t] kinv_mono [OF assms subset_insertI, of t] by simp_all

lemma kinv_mark_suspended:
  assumes "kinv_but (insert t S) k" "t \<noteq> idle0 k" "\<not> z_is_thread_queued (threads k t)"
  shows "kinv_but S (z_mark_thread_as_suspended t k)"
proof -
  have "kinv_but (insert t (insert t S)) (z_mark_thread_as_suspended t k)"
    unfolding z_mark_thread_as_suspended_def
    by (rule kinv_upd_state) (use assms in \<open>simp_all add: state_only_marks\<close>)
  then have "kinv_but (insert t S) (z_mark_thread_as_suspended t k)" by simp
  then show ?thesis
    by (rule kinv_close)
      (use assms in \<open>simp add: z_mark_thread_as_suspended_def z_is_thread_ready_def prevented_bits bit_thread_state\<close>)
qed

lemma sched_ok_k_thread_suspend:
  assumes "sched_ok k" "t \<noteq> idle0 k"
  shows "sched_ok (k_thread_suspend 0 t k)"
proof -
  define k1 where "k1 = snd (z_abort_thread_timeout t k)"
  define k2 where "k2 = (if z_is_thread_queued (threads k1 t) then dequeue_thread 0 t k1 else k1)"
  define k3 where "k3 = z_mark_thread_as_suspended t k2"
  have 1: "sched_ok_but {t} k1" unfolding k1_def
    using sched_ok_abort_thread_timeout [of "{}" k t] assms by (simp add: sched_ok_but_empty)
  have "kinv_but {t} k2" "\<not> z_is_thread_queued (threads k2 t)"
    unfolding k2_def using kinv_dequeue_opt [of "{t}" k1 t] 1 by (simp_all add: sched_ok_but_def)
  moreover have i: "idle0 k2 = idle0 k" "cur0 k2 = cur0 k" "timeout_list k2 = timeout_list k1"
    by (simp_all add: k2_def k1_def current_thread_def)
  ultimately have 3: "kinv k3" unfolding k3_def using assms(2) by (intro kinv_mark_suspended) simp_all
  have "cur0 k1 = cur0 k" by (simp add: k1_def current_thread_def)
  then have "cur_ok k3"
    using 1 i cur_ok_cong [of k1 k3]
    by (simp add: sched_ok_but_def k3_def z_mark_thread_as_suspended_def current_thread_def)
  then have 4: "sched_ok (update_cache 0 b k3)" for b
    using 3 cache_ok_update_cache [OF kinv_not_smp [OF 3]] cur_ok_cong [of k3 "update_cache 0 b k3"]
    by (simp add: sched_ok_def current_thread_def)
  have "k_thread_suspend 0 t k =
      (let k4 = update_cache 0 (t = cur0 k3) k3
       in if t = cur0 k4 then z_reschedule_unlocked 0 k4 else k4)"
    by (simp add: k_thread_suspend_def k1_def k2_def k3_def Let_def)
  then show ?thesis using 4 sched_ok_reschedule_unlocked by (simp add: Let_def)
qed

section \<open>Yielding and moving within a priority\<close>

lemma sched_ok_requeue:
  assumes "kinv_but {} k" "cur_ok k" "t \<noteq> idle0 k" "z_is_thread_ready k t"
  shows "sched_ok (update_cache 0 b (queue_thread 0 t (dequeue_thread 0 t k)))"
proof -
  define k1 where "k1 = queue_thread 0 t (dequeue_thread 0 t k)"
  have "z_is_thread_ready (dequeue_thread 0 t k) t"
    using assms(4) by (simp add: z_is_thread_ready_def prevented_bits z_is_thread_timeout_active_def
        z_is_inactive_timeout_def)
  then have 1: "kinv k1" unfolding k1_def
    using kinv_dequeue [OF assms(1), of t] assms(3) by (intro kinv_queue) auto
  have "cur_ok k1" using cur_ok_cong [OF assms(2), of k1] by (simp add: k1_def current_thread_def)
  then show ?thesis
    using 1 cache_ok_update_cache [OF kinv_not_smp [OF 1]] cur_ok_cong [of k1 "update_cache 0 b k1"]
    unfolding k1_def [symmetric] by (simp add: sched_ok_def current_thread_def)
qed

lemma running_queued: "sched_ok k \<Longrightarrow> running k \<Longrightarrow> z_is_thread_queued (threads k (cur0 k))"
  using kinv_queued [of "{}" k "cur0 k"] by (simp add: sched_ok_def running_def)

lemma sched_ok_swap: "sched_ok k \<Longrightarrow> sched_ok (z_swap 0 k)"
  unfolding z_swap_def by (rule sched_ok_do_swap) (simp_all add: sched_ok_def)

lemma sched_ok_k_yield:
  assumes "sched_ok k" "running k"
  shows "sched_ok (k_yield 0 k)"
proof -
  have "sched_ok (update_cache 0 True (queue_thread 0 (cur0 k) (dequeue_thread 0 (cur0 k) k)))"
    using assms by (intro sched_ok_requeue) (simp_all add: sched_ok_def running_def)
  then show ?thesis using assms(1) by (simp add: k_yield_def Let_def sched_ok_swap)
qed

lemma sched_ok_move_to_end:
  assumes "sched_ok k" "t \<noteq> idle0 k" "z_is_thread_ready k t"
  shows "sched_ok (move_thread_to_end_of_prio_q 0 t k)"
proof -
  have "z_is_thread_queued (threads k t)" using assms kinv_queued [of "{}" k t] by (simp add: sched_ok_def)
  then show ?thesis
    using assms sched_ok_requeue [of k t] by (simp add: move_thread_to_end_of_prio_q_def Let_def sched_ok_def)
qed

lemma sched_ok_reset_time_slice: "sched_ok k \<Longrightarrow> sched_ok (z_reset_time_slice 0 k)"
  using cache_ok_frame [of k "z_reset_time_slice 0 k"] cur_ok_cong [of k "z_reset_time_slice 0 k"]
  by (simp add: sched_ok_def current_thread_def)

lemma sched_ok_upd_cpu:
  assumes "sched_ok k" "\<And>cp. idle_thread (f cp) = idle_thread cp" "\<And>cp. current (f cp) = current cp"
  shows "sched_ok (upd_cpu c f k)"
  using assms kinv_upd_cpu [of f "{}" c k] cache_ok_frame [of k "upd_cpu c f k"] cur_ok_cong [of k "upd_cpu c f k"]
  by (simp add: sched_ok_def current_thread_def)

lemma sched_ok_z_time_slice:
  assumes "sched_ok k"
  shows "sched_ok (z_time_slice 0 ticks k)"
proof -
  have "sched_ok (move_thread_to_end_of_prio_q 0 (cur0 k) k)" if "sliceable (cur0 k) k"
  proof (rule sched_ok_move_to_end [OF assms])
    show "cur0 k \<noteq> idle0 k" using that assms by (simp add: sliceable_def z_is_idle_thread_object_def)
    show "z_is_thread_ready k (cur0 k)"
      using that assms by (simp add: sliceable_def z_is_thread_ready_def sched_ok_def cur_ok_def)
  qed
  then show ?thesis
    using assms by (simp add: z_time_slice_def sched_ok_reset_time_slice sched_ok_upd_cpu)
qed

section \<open>Priorities and the scheduler lock\<close>

lemma sched_ok_z_set_prio:
  assumes "sched_ok k" "t \<noteq> idle0 k"
  shows "sched_ok (snd (z_set_prio 0 t p k))"
proof (cases "z_is_thread_ready k t")
  case True
  let ?set = "upd_thread t (\<lambda>th. th\<lparr>prio := word_of_int p\<rparr>)"
  define k1 where "k1 = ?set (dequeue_thread 0 t k)"
  define k2 where "k2 = queue_thread 0 t k1"
  have inv: "kinv k" and smp: "\<not> CONFIG_SMP k" using assms(1) by (simp_all add: sched_ok_def)
  have 1: "kinv_but {t} k1" "\<not> z_is_thread_queued (threads k1 t)"
    unfolding k1_def using kinv_dequeue [OF inv, of t] kinv_set_prio by (auto simp: bit_thread_state)
  have "z_is_thread_ready k1 t"
    using True by (simp add: k1_def z_is_thread_ready_def prevented_bits z_is_thread_timeout_active_def
        z_is_inactive_timeout_def)
  then have 2: "kinv k2" unfolding k2_def
    using 1 assms(2) by (intro kinv_queue) (simp_all add: k1_def)
  have "cur_ok k2" using cur_ok_cong [of k k2] assms(1)
    by (simp add: k2_def k1_def current_thread_def sched_ok_def)
  then have "sched_ok (update_cache 0 True k2)"
    using 2 cache_ok_update_cache [OF kinv_not_smp [OF 2]] cur_ok_cong [of k2 "update_cache 0 True k2"]
    by (simp add: sched_ok_def current_thread_def)
  then show ?thesis using True smp by (simp add: z_set_prio_def Let_def k2_def k1_def)
next
  case False
  let ?k = "upd_thread t (\<lambda>th. th\<lparr>prio := word_of_int p\<rparr>) k"
  have inv: "kinv k" using assms(1) by (simp add: sched_ok_def)
  have "\<not> z_is_thread_queued (threads k t)" using kinv_queued [OF inv] False assms(2) by simp
  then have "kinv ?k" using kinv_set_prio [OF inv] by simp
  moreover have "cache_ok ?k"
    by (rule cache_ok_frame [of k])
      (use assms False in \<open>auto simp: sched_ok_def current_thread_def z_is_thread_ready_def cur_ok_def\<close>)
  moreover have "cur_ok ?k" using cur_ok_cong [of k ?k] assms(1) by (simp add: sched_ok_def current_thread_def)
  ultimately show ?thesis using False by (simp add: z_set_prio_def Let_def sched_ok_def)
qed

lemma sched_ok_z_thread_priority_set:
  assumes "sched_ok k" "t \<noteq> idle0 k"
  shows "sched_ok (z_thread_priority_set 0 t p k)"
  using sched_ok_z_set_prio [OF assms, of p]
  by (auto simp: z_thread_priority_set_def sched_ok_reschedule_unlocked split: prod.splits)

lemma sched_ok_k_thread_priority_set:
  "sched_ok k \<Longrightarrow> t \<noteq> idle0 k \<Longrightarrow> sched_ok (k_thread_priority_set 0 t p k)"
  by (simp add: k_thread_priority_set_def sched_ok_z_thread_priority_set)

text \<open>The lock count is a byte: the code asserts that it is not decremented from 1.\<close>

lemma sched_ok_k_sched_lock:
  assumes "sched_ok k" "sched_locked (threads k (cur0 k)) \<noteq> 1"
  shows "sched_ok (k_sched_lock 0 k)"
proof -
  let ?f = "\<lambda>th. th\<lparr>sched_locked := sched_locked th - 1\<rparr>" and ?c = "cur0 k"
  have "kinv (upd_thread ?c ?f k)" using assms(1) kinv_upd_thread_other [of ?f "{}" ?c k] by (simp add: sched_ok_def)
  moreover have "cache_ok (upd_thread ?c ?f k)"
  proof (rule cache_ok_frame [of k])
    assume "\<not> z_is_thread_prevented_from_running (threads k (cur0 k))" "\<not> is_preempt (threads k (cur0 k))"
    moreover have "sched_locked (threads k ?c) - 1 \<noteq> 0" using assms(2) by simp
    ultimately show "\<not> z_is_thread_prevented_from_running (threads (upd_thread ?c ?f k) (cur0 k)) \<and>
        \<not> is_preempt (threads (upd_thread ?c ?f k) (cur0 k))"
      by (simp add: is_preempt_iff prevented_bits)
  qed (use assms in \<open>simp_all add: sched_ok_def current_thread_def\<close>)
  moreover have "cur_ok (upd_thread ?c ?f k)"
    using cur_ok_cong [of k "upd_thread ?c ?f k"] assms(1) by (simp add: sched_ok_def current_thread_def)
  ultimately show ?thesis by (simp add: k_sched_lock_def z_sched_lock_def sched_ok_def)
qed

lemma sched_ok_k_sched_unlock:
  assumes "sched_ok k"
  shows "sched_ok (k_sched_unlock 0 k)"
proof -
  let ?f = "\<lambda>th. th\<lparr>sched_locked := sched_locked th + 1\<rparr>" and ?c = "cur0 k"
  let ?k = "update_cache 0 False (upd_thread ?c ?f k)"
  have "kinv ?k" using assms kinv_upd_thread_other [of ?f "{}" ?c k] by (simp add: sched_ok_def)
  moreover have "cache_ok ?k" by (rule cache_ok_update_cache) (use assms in simp)
  moreover have "cur_ok ?k" using cur_ok_cong [of k ?k] assms by (simp add: sched_ok_def current_thread_def)
  ultimately have "sched_ok ?k" by (simp add: sched_ok_def)
  then show ?thesis by (simp add: k_sched_unlock_def Let_def sched_ok_reschedule_unlocked)
qed

section \<open>Sleeping and waking\<close>

lemma sched_ok_z_tick_sleep:
  assumes "sched_ok k" "running k"
  shows "sched_ok (snd (z_tick_sleep 0 n k))"
proof (cases "n = 0")
  case True
  then show ?thesis using sched_ok_k_yield [OF assms] by (simp add: z_tick_sleep_def)
next
  case False
  define c where "c = cur0 k"
  define k1 where "k1 = unready_thread 0 c k"
  define k2 where "k2 = z_add_thread_timeout 0 c n k1"
  define k3 where "k3 = z_mark_thread_as_suspended c k2"
  have inv: "kinv k" and smp: "\<not> CONFIG_SMP k" and ni: "c \<noteq> idle0 k"
    using assms by (simp_all add: sched_ok_def running_def c_def)
  have i: "idle0 k1 = idle0 k" "idle0 k2 = idle0 k" "cur0 k3 = c"
    by (simp_all add: k3_def k2_def k1_def c_def z_mark_thread_as_suspended_def current_thread_def)
  have 1: "kinv_but {c} k1" "\<not> z_is_thread_queued (threads k1 c)"
    unfolding k1_def using kinv_unready_thread [OF inv] by auto
  have "\<not> z_is_thread_timeout_active k1 c"
    using assms(1) timeout_active_cong [of k1 k c] by (simp add: sched_ok_def cur_ok_def k1_def c_def)
  then have 2: "kinv_but {c} k2" "\<not> z_is_thread_queued (threads k2 c)"
    unfolding k2_def using 1 ni i by (auto intro: kinv_add_thread_timeout)
  then have 3: "kinv k3" unfolding k3_def using ni i by (intro kinv_mark_suspended) simp_all
  have q3: "\<not> z_is_thread_queued (threads k3 c)" using 2(2) by (simp add: k3_def z_mark_thread_as_suspended_def)
  have "next_up_uniprocessor 0 k3 = next_up_uniprocessor 0 k1"
    by (rule next_up_uniprocessor_cong)
      (auto simp: k3_def k2_def z_mark_thread_as_suspended_def)
  then have c3: "cache k3 = next_up_uniprocessor 0 k3"
    using cache_unready_current [OF smp] by (simp add: k3_def k2_def k1_def c_def z_mark_thread_as_suspended_def)
  have "idle0 k3 = idle0 k" using i by (simp add: k3_def z_mark_thread_as_suspended_def)
  then have "cache k3 \<noteq> cur0 k3" using next_up_neq [OF 3 q3] ni c3 i by simp
  then have "sched_ok (z_swap 0 k3)"
    unfolding z_swap_def using 3 c3 by (intro sched_ok_do_swap) (simp_all add: cache_ok_def)
  then show ?thesis using False by (simp add: z_tick_sleep_def Let_def k3_def k2_def k1_def c_def)
qed

lemma sched_ok_k_sleep:
  assumes "sched_ok k" "running k"
  shows "sched_ok (snd (k_sleep 0 d k))"
  using sched_ok_z_tick_sleep [OF assms] sched_ok_k_thread_suspend [OF assms(1)] assms(2)
  by (simp add: k_sleep_def running_def)

lemma timeout_active_not_queued:
  "sched_ok k \<Longrightarrow> z_is_thread_timeout_active k t \<Longrightarrow> t \<noteq> idle0 k \<and> \<not> z_is_thread_queued (threads k t)"
  using kinv_queued [of "{}" k t]
  by (auto simp: sched_ok_def kinv_but_def idle_ok_def z_is_thread_ready_def)

lemma sched_ok_k_wakeup:
  assumes "sched_ok k"
  shows "sched_ok (k_wakeup 0 t k)"
proof -
  obtain r k1 where a: "z_abort_thread_timeout t k = (r, k1)" by (cases "z_abort_thread_timeout t k")
  have k1: "k1 = snd (z_abort_thread_timeout t k)" using a by simp
  have 1: "sched_ok_but {t} k1"
    using k1 assms sched_ok_abort_thread_timeout [of "{}" k t] by (simp add: sched_ok_but_empty)
  have th: "threads k1 = threads k" "idle0 k1 = idle0 k" by (simp_all add: k1)
  have go: "sched_ok (if \<not> arch_is_in_isr 0 k2 then z_reschedule_unlocked 0 k2 else k2)"
    if "t \<noteq> idle0 k" "\<not> z_is_thread_queued (threads k t)"
      "k2 = z_ready_thread 0 t (z_mark_thread_as_not_suspended t k1)" for k2
  proof -
    have "sched_ok k2"
      using sched_ok_clear_then_ready(2) [of "{t}" k1 t "z_reset_thread_states THREAD_SUSPENDED"] that 1 th
      by (simp add: z_ready_thread_uniprocessor z_mark_thread_as_not_suspended_def k1 assms)
    then show ?thesis by (simp add: sched_ok_reschedule_unlocked)
  qed
  consider "z_is_thread_pending (threads k t)"
    | "r < 0" "thread_state (threads k1 t) \<noteq> THREAD_SUSPENDED"
    | "r \<ge> 0" "\<not> z_is_thread_pending (threads k t)"
    | "r < 0" "thread_state (threads k1 t) = THREAD_SUSPENDED" "\<not> z_is_thread_pending (threads k t)"
    by fastforce
  then show ?thesis
  proof cases
    case 2
    then have "k1 = k" using a by (auto simp: z_abort_thread_timeout_def z_abort_timeout_def split: if_splits)
    then show ?thesis using 2 a assms by (simp add: k_wakeup_def)
  next
    case 3
    then have "z_is_thread_timeout_active k t"
      using a by (auto simp: z_abort_thread_timeout_def z_abort_timeout_def z_is_thread_timeout_active_def split: if_splits)
    then show ?thesis
      using go timeout_active_not_queued [OF assms] 3 a by (simp add: k_wakeup_def Let_def)
  next
    case 4
    then have "z_is_thread_prevented_from_running (threads k t)"
      using th by (simp add: prevented_bits bit_simps)
    then have "t \<noteq> idle0 k" "\<not> z_is_thread_queued (threads k t)"
      using idle_not_prevented [OF assms] prevented_not_queued [OF assms] by auto
    then show ?thesis using go 4 a by (simp add: k_wakeup_def Let_def)
  qed (use assms in \<open>simp add: k_wakeup_def\<close>)
qed

lemma cpu_mask_irrelevant [simp]:
  "z_is_thread_prevented_from_running (th\<lparr>cpu_mask := m\<rparr>) = z_is_thread_prevented_from_running th"
  "is_preempt (th\<lparr>cpu_mask := m\<rparr>) = is_preempt th"
  by (simp_all add: z_is_thread_prevented_from_running_def is_preempt_iff)

lemma sched_ok_upd_cpu_mask:
  assumes "sched_ok k" "z_is_thread_prevented_from_running (threads k t)"
  shows "sched_ok (upd_thread t (\<lambda>th. th\<lparr>cpu_mask := g th\<rparr>) k)"
proof -
  let ?f = "\<lambda>th. th\<lparr>cpu_mask := g th\<rparr>"
  have inv: "kinv k" and c: "cache_ok k" using assms(1) by (simp_all add: sched_ok_def)
  have "t \<notin> set (runq k)"
    using prevented_not_queued [OF assms] inv by (simp add: kinv_but_def runq_ok_def)
  then have m: "cpu_mask (threads (upd_thread t ?f k) u) = cpu_mask (threads k u)" if "u \<in> set (runq k)" for u
    using that by (cases "u = t") simp_all
  have "cache_ok (upd_thread t ?f k)"
    by (rule cache_ok_frame [OF c]) (use m in \<open>auto simp: current_thread_def\<close>)
  moreover have "kinv (upd_thread t ?f k)"
    using assms kinv_upd_thread_other [of ?f "{}" t k] by (simp add: sched_ok_def)
  moreover have "cur_ok (upd_thread t ?f k)"
    using cur_ok_cong [of k "upd_thread t ?f k"] assms by (simp add: sched_ok_def current_thread_def)
  ultimately show ?thesis by (simp add: sched_ok_def)
qed

lemma sched_ok_cpu_mask_mod: "sched_ok k \<Longrightarrow> sched_ok (snd (cpu_mask_mod t e d k))"
  by (simp add: cpu_mask_mod_def sched_ok_upd_cpu_mask)

section \<open>Ending, aborting, joining\<close>

lemma end_thread_uniprocessor:
  assumes "sched_ok k" "t \<noteq> idle0 k"
  shows "sched_ok (end_thread 0 t k)"
    and "thread_state (threads k t) AND THREAD_DEAD = 0 \<Longrightarrow> waitqs (end_thread 0 t k) (JoinQ t) = []"
proof -
  define k2 where "k2 = upd_thread t (z_reset_thread_states THREAD_ABORTING)
    (upd_thread t (z_set_thread_states THREAD_DEAD) k)"
  define k3 where "k3 = (if z_is_thread_queued (threads k2 t) then dequeue_thread 0 t k2 else k2)"
  define k4 where "k4 = (if pended_on (threads k3 t) \<noteq> None then unpend_thread_no_timeout t k3 else k3)"
  define k5 where "k5 = snd (z_abort_thread_timeout t k4)"
  define k6 where "k6 = unpend_all 0 (JoinQ t) k5"
  have inv: "kinv k" and co: "cur_ok k" using assms(1) by (simp_all add: sched_ok_def)
  have "kinv_but {t} (upd_thread t (z_set_thread_states THREAD_DEAD) k)"
    using kinv_upd_state [OF inv] state_only_marks(4) assms(2) by simp
  then have 2: "kinv_but {t} k2" unfolding k2_def
    using kinv_upd_state [of "{t}" _ _ t] state_only_marks(5) assms(2) by simp
  have 3: "kinv_but {t} k3" "\<not> z_is_thread_queued (threads k3 t)"
    using kinv_dequeue_opt [OF 2, of t] by (simp_all add: k3_def)
  have 4: "kinv_but {t} k4"
    using 3(1) kinv_unpend [OF 3(1), of t] by (auto simp: k4_def)
  have q4: "\<not> z_is_thread_queued (threads k4 t)" using 3(2) by (simp add: k4_def bit_thread_state)
  have 5: "kinv_but {t} k5" unfolding k5_def using kinv_abort_thread_timeout [OF 4, of t] by simp
  have dead: "bit (thread_state (threads k5 t)) 3"
    by (simp add: k5_def k4_def k3_def k2_def)
  have "kinv k5"
    by (rule kinv_close [OF 5])
      (use q4 dead in \<open>simp add: k5_def z_is_thread_ready_def prevented_bits\<close>)
  moreover have "cur_ok k5"
  proof -
    have "cur_ok k4"
      by (rule cur_ok_cong [OF co]) (simp_all add: k4_def k3_def k2_def current_thread_def)
    then show ?thesis unfolding k5_def using cur_ok_abort kinv_tlist [OF 4] by simp
  qed
  ultimately have "kcur_ok {} k6 \<and> waitqs k6 = (waitqs k5)(JoinQ t := [])"
    unfolding k6_def by (intro unpend_all_ok) (simp_all add: kcur_ok_def)
  then have 6: "kinv k6" "cur_ok k6" and w: "waitqs k6 (JoinQ t) = []" by (simp_all add: kcur_ok_def)
  have 7: "sched_ok (update_cache 0 True k6)"
    using 6 cache_ok_update_cache [OF kinv_not_smp [OF 6(1)]] cur_ok_cong [OF 6(2), of "update_cache 0 True k6"]
    by (simp add: sched_ok_def current_thread_def)
  have e: "end_thread 0 t k =
      (if thread_state (threads k t) AND THREAD_DEAD = 0 then update_cache 0 True k6 else k)"
    unfolding end_thread_def k6_def k5_def k4_def k3_def k2_def Let_def ..
  show "sched_ok (end_thread 0 t k)" unfolding e using 7 assms(1) by simp
  show "thread_state (threads k t) AND THREAD_DEAD = 0 \<Longrightarrow> waitqs (end_thread 0 t k) (JoinQ t) = []"
    unfolding e using w by simp
qed

lemma z_thread_abort_uniprocessor:
  "\<not> CONFIG_SMP k \<Longrightarrow> z_thread_abort c t k =
     (Aborted,
      if thread_state (threads k t) AND THREAD_DEAD \<noteq> 0 then k
      else let k = end_thread c t k
           in if t = current_thread c k \<and> \<not> arch_is_in_isr c k then z_swap c k else k)"
  by (simp add: z_thread_abort_def thread_active_elsewhere_def Let_def)

lemma sched_ok_z_thread_abort:
  assumes "sched_ok k" "t \<noteq> idle0 k"
  shows "sched_ok (snd (z_thread_abort 0 t k))"
  using assms end_thread_uniprocessor(1) [OF assms]
  by (simp add: z_thread_abort_uniprocessor Let_def sched_ok_swap)

lemma k_thread_join_blocks:
  "k_thread_join c t d k = (Blocked, k') \<Longrightarrow> k' = z_pend_curr c (Some (JoinQ t)) d k"
  by (auto simp: k_thread_join_def z_pend_curr_def pend_def Let_def split: if_splits)

lemma sched_ok_k_thread_join:
  assumes "sched_ok k" "running k"
  shows "sched_ok (snd (k_thread_join 0 t d k))"
proof -
  have "sched_ok (z_pend_curr 0 (Some (JoinQ t)) d k)"
    using sched_ok_z_pend_curr(1) assms running_not_pended by (simp add: running_def)
  then show ?thesis
    using assms(1) by (simp add: k_thread_join_def z_pend_curr_def pend_def Let_def)
qed

lemma sched_ok_z_sched_wait:
  "sched_ok k \<Longrightarrow> running k \<Longrightarrow> sched_ok (z_sched_wait 0 w d k)"
  using sched_ok_z_pend_curr(1) running_not_pended by (simp add: z_sched_wait_def running_def)

section \<open>Expiry of a thread's timeout\<close>

text \<open>
  The handler runs after the announcement has unlinked the timeout, so the thread may be
  out of step with its readiness; the handler brings it back.
\<close>

lemma sched_ok_z_thread_timeout:
  assumes "sched_ok_but {t} k" "t \<noteq> idle0 k" "\<not> z_is_thread_queued (threads k t)"
  shows "sched_ok (z_thread_timeout 0 t k)"
proof (cases "thread_state (threads k t) AND THREAD_DEAD \<noteq> 0 \<or> thread_state (threads k t) AND THREAD_ABORTING \<noteq> 0")
  case True
  then have "bit (thread_state (threads k t)) 3"
    using assms(1) by (auto simp: sched_ok_but_def kinv_but_def ready_ok_def bit_thread_state)
  then have "sched_ok_but {} k"
    using assms by (intro sched_ok_close [of t "{}" k]) (simp_all add: z_is_thread_ready_def prevented_bits)
  then show ?thesis using True by (auto simp: z_thread_timeout_def sched_ok_but_empty)
next
  case False
  define k1 where "k1 = (if pended_on (threads k t) \<noteq> None then unpend_thread_no_timeout t k else k)"
  define k2 where "k2 = z_mark_thread_as_started t k1"
  have 1: "sched_ok_but {t} k1" "\<not> z_is_thread_queued (threads k1 t)" "idle0 k1 = idle0 k"
    using assms sched_ok_unpend [OF assms(1), of t] by (auto simp: k1_def bit_thread_state)
  then have 2: "sched_ok_but {t} k2" "\<not> z_is_thread_queued (threads k2 t)" "idle0 k2 = idle0 k"
    using sched_ok_clear_then_ready(1) [OF 1(1), of t "z_reset_thread_states THREAD_PRESTART"] assms(2)
    by (simp_all add: k2_def z_mark_thread_as_started_def)
  have "sched_ok (ready_thread 0 t (z_mark_thread_as_not_suspended t k2))"
    using sched_ok_clear_then_ready(2) [OF 2(1), of t "z_reset_thread_states THREAD_SUSPENDED"] 2 assms(2)
    by (simp add: z_mark_thread_as_not_suspended_def)
  then show ?thesis using False by (simp add: z_thread_timeout_def k2_def k1_def Let_def)
qed

section \<open>Interrupts and the clock\<close>

lemma sched_ok_z_get_next_switch_handle:
  assumes "sched_ok k"
  shows "sched_ok (z_get_next_switch_handle 0 k)"
proof (cases "cache k = cur0 k")
  case True
  have "sched_ok (upd_cpu 0 (\<lambda>cp. cp\<lparr>current := cache k\<rparr>) k)"
  proof -
    have "upd_cpu 0 (\<lambda>cp. cp\<lparr>current := cache k\<rparr>) k = k"
      using True by (simp add: upd_cpu_def current_thread_def)
    then show ?thesis using assms by simp
  qed
  then show ?thesis using assms by (simp add: z_get_next_switch_handle_def set_current_def)
next
  case False
  let ?k = "set_current 0 (cache k) k"
  have inv: "kinv k" using assms by (simp add: sched_ok_def)
  have c: "cache k = next_up_uniprocessor 0 k" using assms False by (simp add: sched_ok_def cache_ok_def)
  have "kinv ?k" unfolding set_current_def using inv by (subst kinv_upd_cpu) simp_all
  moreover have "next_up_uniprocessor 0 ?k = next_up_uniprocessor 0 k"
    by (rule next_up_uniprocessor_cong) (simp_all add: set_current_def)
  then have "cache_ok ?k" using c by (simp add: cache_ok_def set_current_def)
  moreover have "cur_ok ?k"
    using next_up_ready [OF inv] c timeout_active_cong [of ?k k]
    by (simp add: cur_ok_def z_is_thread_ready_def set_current_def current_thread_def)
  ultimately show ?thesis using assms by (simp add: z_get_next_switch_handle_def sched_ok_def)
qed

lemma sched_ok_clock_elapsed:
  "sched_ok k \<Longrightarrow> 0 \<le> e \<Longrightarrow> sched_ok (k\<lparr>clock_elapsed := e\<rparr>)"
proof -
  assume a: "sched_ok k" "0 \<le> e"
  have r: "z_is_thread_ready (k\<lparr>clock_elapsed := e\<rparr>) t = z_is_thread_ready k t" for t
    by (rule z_is_thread_ready_cong) simp_all
  have "runq_ok (k\<lparr>clock_elapsed := e\<rparr>) = runq_ok k" "ready_ok {} (k\<lparr>clock_elapsed := e\<rparr>) = ready_ok {} k"
    "waitq_ok (k\<lparr>clock_elapsed := e\<rparr>) = waitq_ok k" "idle_ok (k\<lparr>clock_elapsed := e\<rparr>) = idle_ok k"
    by (simp_all add: runq_ok_def ready_ok_def waitq_ok_def idle_ok_def r)
  then have "kinv (k\<lparr>clock_elapsed := e\<rparr>)"
    using a by (simp add: sched_ok_def kinv_but_def clock_ok_def)
  moreover have "cache_ok (k\<lparr>clock_elapsed := e\<rparr>)"
    by (rule cache_ok_frame [of k]) (use a in \<open>simp_all add: sched_ok_def current_thread_def\<close>)
  moreover have "cur_ok (k\<lparr>clock_elapsed := e\<rparr>)"
    using a cur_ok_cong [of k "k\<lparr>clock_elapsed := e\<rparr>"] by (simp add: sched_ok_def current_thread_def)
  ultimately show ?thesis by (simp add: sched_ok_def)
qed

end
