(* ===== verification/Clock.thy ===== *)
theory Clock
  imports Sched_Ops
begin

text \<open>
  \<^verbatim>\<open>sys_clock_announce\<close> of \<^verbatim>\<open>kernel/timeout.c\<close>: the tick interrupt advances the tick count
  and calls the handlers of the timeouts that expire, in the order of their deadlines. A
  thread's timeout has the handler \<open>z_thread_timeout\<close>; the handlers of timers and work
  items are a parameter, with the objects they change as a second state component. The
  loop ends because no handler can add a timeout that expires in the same tick (locale
  \<open>expiry_handlers\<close>).
\<close>

section \<open>The announcement\<close>

definition fire_timeout ::
  "cpu_id \<Rightarrow> (nat \<Rightarrow> kernel \<times> 'o \<Rightarrow> kernel \<times> 'o) \<Rightarrow> toid \<Rightarrow> kernel \<times> 'o \<Rightarrow> kernel \<times> 'o" where
  "fire_timeout c fire to s =
     (case to of
        ThreadTo t \<Rightarrow> (z_thread_timeout c t (fst s), snd s)
      | ObjTo n \<Rightarrow> fire n s)"

definition announce_pop :: "toid \<Rightarrow> int \<Rightarrow> (toid \<times> int) list \<Rightarrow> kernel \<Rightarrow> kernel" where
  "announce_pop to dt rest k =
     k\<lparr>curr_tick := curr_tick k + word_of_int dt,
       announce_remaining := announce_remaining k - dt,
       timeout_list := remove_delta to ((to, 0) # rest)\<rparr>"

fun announce_loop ::
  "nat \<Rightarrow> cpu_id \<Rightarrow> (nat \<Rightarrow> kernel \<times> 'o \<Rightarrow> kernel \<times> 'o) \<Rightarrow> kernel \<times> 'o \<Rightarrow> (kernel \<times> 'o) option" where
  "announce_loop 0 c fire s = None"
| "announce_loop (Suc fuel) c fire s =
     (case timeout_list (fst s) of
        [] \<Rightarrow> Some s
      | (to, dt) # rest \<Rightarrow>
          if dt \<le> announce_remaining (fst s)
          then announce_loop fuel c fire
                 (fire_timeout c fire to (announce_pop to dt rest (fst s), snd s))
          else Some s)"

definition announce_finish :: "cpu_id \<Rightarrow> kernel \<Rightarrow> kernel" where
  "announce_finish c k =
     (let k = (case timeout_list k of
                 [] \<Rightarrow> k
               | (to, dt) # rest \<Rightarrow> k\<lparr>timeout_list := (to, dt - announce_remaining k) # rest\<rparr>);
          k = k\<lparr>curr_tick := curr_tick k + word_of_int (announce_remaining k)\<rparr>;
          k = k\<lparr>announce_remaining := 0\<rparr>
      in sys_clock_set_timeout (next_timeout c k) False k)"

definition sys_clock_announce ::
  "nat \<Rightarrow> cpu_id \<Rightarrow> (nat \<Rightarrow> kernel \<times> 'o \<Rightarrow> kernel \<times> 'o) \<Rightarrow> int \<Rightarrow> kernel \<times> 'o \<Rightarrow> (kernel \<times> 'o) option" where
  "sys_clock_announce fuel c fire ticks s =
     (let k = z_time_slice c ticks (fst s);
          k = k\<lparr>announce_remaining := ticks\<rparr>
      in map_option (\<lambda>s. (announce_finish c (fst s), snd s)) (announce_loop fuel c fire (k, snd s)))"

section \<open>One round of the loop\<close>

lemma remove_delta_popped: "remove_delta to ((to, 0) # rest) = rest"
  by (cases rest) auto

lemma announce_pop_fields [simp]:
  "threads (announce_pop to dt rest k) = threads k"
  "cpus (announce_pop to dt rest k) = cpus k"
  "cache (announce_pop to dt rest k) = cache k"
  "runq (announce_pop to dt rest k) = runq k"
  "waitqs (announce_pop to dt rest k) = waitqs k"
  "timeout_list (announce_pop to dt rest k) = rest"
  "announce_remaining (announce_pop to dt rest k) = announce_remaining k - dt"
  "curr_tick (announce_pop to dt rest k) = curr_tick k + word_of_int dt"
  "clock_elapsed (announce_pop to dt rest k) = clock_elapsed k"
  "slice_time (announce_pop to dt rest k) = slice_time k"
  "CONFIG_SMP (announce_pop to dt rest k) = CONFIG_SMP k"
  "CONFIG_MP_NUM_CPUS (announce_pop to dt rest k) = CONFIG_MP_NUM_CPUS k"
  "CONFIG_SCHED_CPU_MASK (announce_pop to dt rest k) = CONFIG_SCHED_CPU_MASK k"
  by (simp_all only: announce_pop_def remove_delta_popped) simp_all

lemma ready_announce_pop:
  assumes "timeout_list k = (to, dt) # rest" "to \<noteq> ThreadTo t"
  shows "z_is_thread_ready (announce_pop to dt rest k) t = z_is_thread_ready k t"
  using assms by (auto simp: z_is_thread_ready_def z_is_thread_timeout_active_def z_is_inactive_timeout_def)

lemma tlist_wf_Cons: "tlist_wf ((to, d) # rest) \<Longrightarrow> tlist_wf rest \<and> 0 \<le> d \<and> to \<notin> fst ` set rest"
  by (simp add: tlist_wf_def)

lemma sched_ok_announce_pop:
  assumes "sched_ok k" "timeout_list k = (to, dt) # rest"
  shows "sched_ok_but {t. to = ThreadTo t} (announce_pop to dt rest k)"
proof -
  let ?k = "announce_pop to dt rest k"
  have inv: "kinv k" using assms(1) by (simp add: sched_ok_def)
  have w: "tlist_wf rest" "0 \<le> clock_elapsed k"
    using kinv_tlist [OF inv] tlist_wf_Cons assms(2) by (metis, simp)
  have "runq_ok ?k = runq_ok k" "waitq_ok ?k = waitq_ok k" by (simp_all add: runq_ok_def waitq_ok_def)
  moreover have "ready_ok {t. to = ThreadTo t} ?k"
    using inv ready_announce_pop [OF assms(2)] by (simp add: kinv_but_def ready_ok_def)
  moreover have "to \<noteq> ThreadTo (idle0 k)"
    using inv assms(2) by (auto simp: kinv_but_def idle_ok_def state_bits)
  then have "idle_ok ?k" using inv ready_announce_pop [OF assms(2)] by (simp add: kinv_but_def idle_ok_def)
  ultimately have "kinv_but {t. to = ThreadTo t} ?k"
    using inv w by (simp add: kinv_but_def clock_ok_def)
  moreover have "cache_ok ?k"
    by (rule cache_ok_frame [of k]) (use assms(1) in \<open>simp_all add: sched_ok_def current_thread_def\<close>)
  moreover have "cur_ok ?k"
    using assms by (auto simp: sched_ok_def cur_ok_def z_is_thread_timeout_active_def
        z_is_inactive_timeout_def current_thread_def)
  ultimately show ?thesis by (simp add: sched_ok_but_def)
qed

lemma z_thread_timeout_fields [simp]:
  "timeout_list (z_thread_timeout c t k) = timeout_list k"
  "announce_remaining (z_thread_timeout c t k) = announce_remaining k"
  "curr_tick (z_thread_timeout c t k) = curr_tick k"
  "clock_elapsed (z_thread_timeout c t k) = clock_elapsed k"
  by (simp_all add: z_thread_timeout_def Let_def z_mark_thread_as_started_def z_mark_thread_as_not_suspended_def)

lemma sched_ok_fire_thread:
  assumes "sched_ok k" "timeout_list k = (ThreadTo t, dt) # rest"
  shows "sched_ok (z_thread_timeout 0 t (announce_pop (ThreadTo t) dt rest k))"
proof (rule sched_ok_z_thread_timeout)
  have "z_is_thread_timeout_active k t"
    using assms(2) by (simp add: z_is_thread_timeout_active_def z_is_inactive_timeout_def)
  then show "t \<noteq> idle0 (announce_pop (ThreadTo t) dt rest k)"
    and "\<not> z_is_thread_queued (threads (announce_pop (ThreadTo t) dt rest k) t)"
    using timeout_active_not_queued [OF assms(1)] by simp_all
  have "{u. ThreadTo t = ThreadTo u} = {t}" by auto
  then show "sched_ok_but {t} (announce_pop (ThreadTo t) dt rest k)"
    using sched_ok_announce_pop [OF assms] by simp
qed

section \<open>The loop ends\<close>

text \<open>The number of timeouts at the head of the queue that expire in the current tick.\<close>

definition due_now :: "(toid \<times> int) list \<Rightarrow> nat" where
  "due_now ts = length (takeWhile (\<lambda>e. snd e \<le> 0) ts)"

lemma due_now_insert: "1 \<le> d \<Longrightarrow> \<forall>x\<in>snd ` set ts. 0 \<le> x \<Longrightarrow> due_now (insert_delta to d ts) = due_now ts"
proof (induction to d ts rule: insert_delta.induct)
  case (2 to d t dt ts)
  then show ?case
  proof (cases "dt > d")
    case False
    then show ?thesis using 2 by (cases "dt = 0") (auto simp: due_now_def)
  qed (simp add: due_now_def)
qed (simp add: due_now_def)

lemma due_now_remove: "\<forall>x\<in>snd ` set ts. 0 \<le> x \<Longrightarrow> due_now (remove_delta to ts) \<le> due_now ts"
proof (induction to ts rule: remove_delta.induct)
  case (2 to t dt ts)
  show ?case
  proof (cases "t = to")
    case True
    then show ?thesis using 2(2) by (auto simp: due_now_def split: list.splits)
  next
    case False
    then show ?thesis using 2 by (auto simp: due_now_def)
  qed
qed simp

locale expiry_handlers =
  fixes fire :: "nat \<Rightarrow> kernel \<times> 'o \<Rightarrow> kernel \<times> 'o"
  assumes fire_sched_ok: "sched_ok (fst s) \<Longrightarrow> z_is_inactive_timeout (fst s) (ObjTo n) \<Longrightarrow>
      sched_ok (fst (fire n s))"
    and fire_remaining: "announce_remaining (fst (fire n s)) = announce_remaining (fst s)"
    and fire_due_now: "sched_ok (fst s) \<Longrightarrow> z_is_inactive_timeout (fst s) (ObjTo n) \<Longrightarrow>
      due_now (timeout_list (fst (fire n s))) \<le> due_now (timeout_list (fst s))"
begin

lemma fire_timeout_ok:
  assumes "sched_ok k" "timeout_list k = (to, dt) # rest"
  shows "sched_ok (fst (fire_timeout 0 fire to (announce_pop to dt rest k, ob)))"
    and "announce_remaining (fst (fire_timeout 0 fire to (announce_pop to dt rest k, ob))) =
      announce_remaining k - dt"
    and "due_now (timeout_list (fst (fire_timeout 0 fire to (announce_pop to dt rest k, ob)))) \<le> due_now rest"
proof -
  have nt: "to \<notin> fst ` set rest"
    using assms kinv_tlist [of "{}" k] tlist_wf_Cons by (auto simp: sched_ok_def)
  have obj: "sched_ok (announce_pop (ObjTo n) dt rest k)"
    "z_is_inactive_timeout (announce_pop (ObjTo n) dt rest k) (ObjTo n)" if "to = ObjTo n" for n
    using sched_ok_announce_pop [OF assms] that nt by (simp_all add: sched_ok_but_empty z_is_inactive_timeout_def)
  show "sched_ok (fst (fire_timeout 0 fire to (announce_pop to dt rest k, ob)))"
    using assms sched_ok_fire_thread [OF assms(1)] obj fire_sched_ok
    by (cases to) (simp_all add: fire_timeout_def)
  show "announce_remaining (fst (fire_timeout 0 fire to (announce_pop to dt rest k, ob))) =
      announce_remaining k - dt"
    by (cases to) (simp_all add: fire_timeout_def fire_remaining)
  show "due_now (timeout_list (fst (fire_timeout 0 fire to (announce_pop to dt rest k, ob)))) \<le> due_now rest"
    using obj fire_due_now [of "(announce_pop to dt rest k, ob)"]
    by (cases to) (simp_all add: fire_timeout_def)
qed

lemma announce_loop_terminates:
  assumes "sched_ok (fst s)"
  shows "\<exists>fuel s'. announce_loop fuel 0 fire s = Some s' \<and> sched_ok (fst s')"
  using assms
proof (induction s rule: wf_induct_rule [OF wf_measures, of "[\<lambda>s. nat (announce_remaining (fst s)),
      \<lambda>s. due_now (timeout_list (fst s))]"])
  case (1 s)
  show ?case
  proof (cases "timeout_list (fst s)")
    case Nil
    then have "announce_loop (Suc 0) 0 fire s = Some s" by simp
    then show ?thesis using 1(2) by blast
  next
    case (Cons e rest)
    obtain to dt where e: "e = (to, dt)" by (cases e)
    then have tl: "timeout_list (fst s) = (to, dt) # rest" using Cons by simp
    show ?thesis
    proof (cases "dt \<le> announce_remaining (fst s)")
      case True
      define s' where "s' = fire_timeout 0 fire to (announce_pop to dt rest (fst s), snd s)"
      have ok: "sched_ok (fst s')" "announce_remaining (fst s') = announce_remaining (fst s) - dt"
        "due_now (timeout_list (fst s')) \<le> due_now rest"
        using fire_timeout_ok [OF 1(2) tl] by (simp_all add: s'_def)
      have "tlist_wf (timeout_list (fst s))" using kinv_tlist [of "{}" "fst s"] 1(2) by (simp add: sched_ok_def)
      then have "0 \<le> dt" using tlist_wf_Cons tl by metis
      then have "(s', s) \<in> measures [\<lambda>s. nat (announce_remaining (fst s)),
          \<lambda>s. due_now (timeout_list (fst s))]"
        using ok(2,3) True tl by (cases "dt = 0") (auto simp: due_now_def)
      then obtain fuel s'' where "announce_loop fuel 0 fire s' = Some s''" "sched_ok (fst s'')"
        using 1(1) ok(1) by blast
      then have "announce_loop (Suc fuel) 0 fire s = Some s''" using tl True by (simp add: s'_def)
      then show ?thesis using \<open>sched_ok (fst s'')\<close> by blast
    next
      case False
      then have "announce_loop (Suc 0) 0 fire s = Some s" using tl by simp
      then show ?thesis using 1(2) by blast
    qed
  qed
qed

end

section \<open>The end of the announcement\<close>

lemma announce_loop_exit:
  "announce_loop fuel c fire s = Some s' \<Longrightarrow>
   case timeout_list (fst s') of [] \<Rightarrow> True | (to, dt) # _ \<Rightarrow> announce_remaining (fst s') < dt"
proof (induction fuel arbitrary: s)
  case (Suc fuel)
  show ?case
  proof (cases "timeout_list (fst s)")
    case (Cons e rest)
    then show ?thesis using Suc.IH Suc.prems by (cases e) (auto split: if_splits)
  qed (use Suc.prems in auto)
qed simp

lemma announce_finish_fields [simp]:
  "threads (announce_finish c k) = threads k"
  "cpus (announce_finish c k) = cpus k"
  "cache (announce_finish c k) = cache k"
  "runq (announce_finish c k) = runq k"
  "waitqs (announce_finish c k) = waitqs k"
  "clock_elapsed (announce_finish c k) = clock_elapsed k"
  "announce_remaining (announce_finish c k) = 0"
  "curr_tick (announce_finish c k) = curr_tick k + word_of_int (announce_remaining k)"
  "CONFIG_SMP (announce_finish c k) = CONFIG_SMP k"
  "CONFIG_SCHED_CPU_MASK (announce_finish c k) = CONFIG_SCHED_CPU_MASK k"
  "fst ` set (timeout_list (announce_finish c k)) = fst ` set (timeout_list k)"
  by (auto simp: announce_finish_def Let_def sys_clock_set_timeout_def split: list.splits)

lemma tlist_announce_finish:
  "timeout_list (announce_finish c k) =
     (case timeout_list k of [] \<Rightarrow> [] | (to, dt) # rest \<Rightarrow> (to, dt - announce_remaining k) # rest)"
  by (auto simp: announce_finish_def Let_def sys_clock_set_timeout_def split: list.splits)

lemma sched_ok_announce_finish:
  assumes "sched_ok k"
    and "case timeout_list k of [] \<Rightarrow> True | (to, dt) # _ \<Rightarrow> announce_remaining k < dt"
  shows "sched_ok (announce_finish c k)"
proof -
  let ?k = "announce_finish c k"
  have inv: "kinv k" using assms(1) by (simp add: sched_ok_def)
  have act: "z_is_thread_timeout_active ?k t = z_is_thread_timeout_active k t" for t
    by (simp add: z_is_thread_timeout_active_def z_is_inactive_timeout_def)
  then have r: "z_is_thread_ready ?k t = z_is_thread_ready k t" for t
    by (simp add: z_is_thread_ready_def)
  have "runq_ok ?k = runq_ok k" "ready_ok {} ?k = ready_ok {} k" "waitq_ok ?k = waitq_ok k" "idle_ok ?k = idle_ok k"
    by (simp_all add: runq_ok_def ready_ok_def waitq_ok_def idle_ok_def r)
  moreover have "tlist_wf (timeout_list ?k)"
    using kinv_tlist [OF inv] assms(2)
    by (auto simp: tlist_announce_finish tlist_wf_def split: list.splits prod.splits)
  ultimately have "kinv ?k" using inv by (simp add: kinv_but_def clock_ok_def)
  moreover have "cache_ok ?k"
    by (rule cache_ok_frame [of k]) (use assms(1) in \<open>simp_all add: sched_ok_def current_thread_def\<close>)
  moreover have "cur_ok ?k" using assms(1) act by (simp add: sched_ok_def cur_ok_def current_thread_def)
  ultimately show ?thesis by (simp add: sched_ok_def)
qed

lemma sched_ok_announce_remaining: "sched_ok k \<Longrightarrow> sched_ok (k\<lparr>announce_remaining := r\<rparr>)"
proof -
  assume a: "sched_ok k"
  have "kinv (k\<lparr>announce_remaining := r\<rparr>) = kinv k" by (rule kinv_but_cong) simp_all
  moreover have "cache_ok (k\<lparr>announce_remaining := r\<rparr>)"
    by (rule cache_ok_frame [of k]) (use a in \<open>simp_all add: sched_ok_def current_thread_def\<close>)
  moreover have "cur_ok (k\<lparr>announce_remaining := r\<rparr>)"
    by (rule cur_ok_cong [of k]) (use a in \<open>simp_all add: sched_ok_def current_thread_def\<close>)
  ultimately show ?thesis using a by (simp add: sched_ok_def)
qed

context expiry_handlers
begin

lemma announce_terminates:
  assumes "sched_ok (fst s)"
  shows "\<exists>fuel s'. sys_clock_announce fuel 0 fire ticks s = Some s' \<and> sched_ok (fst s')"
proof -
  let ?k = "(z_time_slice 0 ticks (fst s))\<lparr>announce_remaining := ticks\<rparr>"
  have "sched_ok ?k" using assms sched_ok_z_time_slice sched_ok_announce_remaining by blast
  then obtain fuel s' where l: "announce_loop fuel 0 fire (?k, snd s) = Some s'" "sched_ok (fst s')"
    using announce_loop_terminates [of "(?k, snd s)"] by auto
  then have "sched_ok (announce_finish 0 (fst s'))"
    using sched_ok_announce_finish announce_loop_exit [OF l(1)] by blast
  moreover have "sys_clock_announce fuel 0 fire ticks s = Some (announce_finish 0 (fst s'), snd s')"
    using l(1) by (simp add: sys_clock_announce_def Let_def)
  ultimately show ?thesis by fastforce
qed

end

section \<open>Which timeouts fire\<close>

text \<open>
  For handlers that leave the kernel alone (\<open>quiet\<close>), so that the announcement acts on
  threads only: the deadlines are counted from the end of the announced interval.
\<close>

definition quiet :: "(nat \<Rightarrow> kernel \<times> 'o \<Rightarrow> kernel \<times> 'o) \<Rightarrow> bool" where
  "quiet fire \<longleftrightarrow> (\<forall>n s. fst (fire n s) = fst s)"

lemma quiet_fire:
  assumes "quiet fire"
  shows "timeout_list (fst (fire_timeout c fire to s)) = timeout_list (fst s)"
    and "announce_remaining (fst (fire_timeout c fire to s)) = announce_remaining (fst s)"
    and "curr_tick (fst (fire_timeout c fire to s)) = curr_tick (fst s)"
  using assms unfolding quiet_def by (cases to; simp only: fire_timeout_def toid.case fst_conv z_thread_timeout_fields)+

lemma announce_loop_quiet:
  assumes "quiet fire" "length (timeout_list (fst s)) < fuel"
  shows "\<exists>s'. announce_loop fuel c fire s = Some s' \<and>
    deadlines (- announce_remaining (fst s')) (timeout_list (fst s')) =
      dropWhile (\<lambda>e. snd e \<le> 0) (deadlines (- announce_remaining (fst s)) (timeout_list (fst s))) \<and>
    curr_tick (fst s') + word_of_int (announce_remaining (fst s')) =
      curr_tick (fst s) + word_of_int (announce_remaining (fst s))"
  using assms(2)
proof (induction fuel arbitrary: s)
  case (Suc fuel)
  show ?case
  proof (cases "timeout_list (fst s)")
    case Nil
    then show ?thesis by simp
  next
    case (Cons e rest)
    obtain to dt where e: "e = (to, dt)" by (cases e)
    show ?thesis
    proof (cases "dt \<le> announce_remaining (fst s)")
      case True
      define s' where "s' = fire_timeout c fire to (announce_pop to dt rest (fst s), snd s)"
      have s': "timeout_list (fst s') = rest" "announce_remaining (fst s') = announce_remaining (fst s) - dt"
        "curr_tick (fst s') = curr_tick (fst s) + word_of_int dt"
        by (simp_all add: s'_def quiet_fire [OF assms(1)])
      have "length (timeout_list (fst s')) < fuel" using Suc.prems Cons s'(1) by simp
      from Suc.IH [OF this] show ?thesis
        using True Cons e s' by (simp add: s'_def [symmetric] algebra_simps)
    next
      case False
      then show ?thesis using Cons e by simp
    qed
  qed
qed simp

lemma z_time_slice_clock [simp]:
  "timeout_list (z_time_slice c n k) = timeout_list k"
  "curr_tick (z_time_slice c n k) = curr_tick k"
  "clock_elapsed (z_time_slice c n k) = clock_elapsed k"
  by (simp_all add: z_time_slice_def move_thread_to_end_of_prio_q_def Let_def)

lemma deadlines_announce_finish:
  "deadlines 0 (timeout_list (announce_finish c k)) =
     deadlines (- announce_remaining k) (timeout_list k)"
  by (simp add: tlist_announce_finish split: list.splits)

lemma dropWhile_sorted_filter:
  "sorted_key f xs \<Longrightarrow> dropWhile (\<lambda>x. f x \<le> b) xs = filter (\<lambda>x. b < f x) xs"
proof (induction xs)
  case (Cons a xs)
  show ?case
  proof (cases "f a \<le> b")
    case False
    then have "\<forall>x\<in>set xs. b < f x" using Cons.prems by fastforce
    then show ?thesis using False by simp
  qed (use Cons in simp)
qed simp

lemma announce_deadlines:
  assumes "sched_ok (fst s)" "quiet fire" "length (timeout_list (fst s)) < fuel"
  shows "\<exists>s'. sys_clock_announce fuel c fire ticks s = Some s' \<and>
    deadlines 0 (timeout_list (fst s')) =
      map (\<lambda>(to, d). (to, d - ticks))
        (filter (\<lambda>(to, d). ticks < d) (deadlines 0 (timeout_list (fst s)))) \<and>
    curr_tick (fst s') = curr_tick (fst s) + word_of_int ticks"
proof -
  let ?k = "(z_time_slice c ticks (fst s))\<lparr>announce_remaining := ticks\<rparr>"
  let ?tl = "timeout_list (fst s)"
  obtain s' where s': "announce_loop fuel c fire (?k, snd s) = Some s'"
    "deadlines (- announce_remaining (fst s')) (timeout_list (fst s')) =
       dropWhile (\<lambda>e. snd e \<le> 0) (deadlines (- ticks) ?tl)"
    "curr_tick (fst s') + word_of_int (announce_remaining (fst s')) = curr_tick (fst s) + word_of_int ticks"
    using announce_loop_quiet [OF assms(2), of "(?k, snd s)" fuel c] assms(3) by auto
  have wf: "\<forall>d\<in>snd ` set ?tl. 0 \<le> d"
    using kinv_tlist [of "{}" "fst s"] assms(1) by (simp add: sched_ok_def tlist_wf_def)
  have sh: "deadlines (- ticks) ?tl = map (\<lambda>(to, d). (to, d - ticks)) (deadlines 0 ?tl)"
    using deadlines_shift [of 0 "- ticks" ?tl] by simp
  have "dropWhile (\<lambda>e. snd e \<le> 0) (deadlines (- ticks) ?tl) = filter (\<lambda>e. 0 < snd e) (deadlines (- ticks) ?tl)"
    by (rule dropWhile_sorted_filter) (rule deadlines_sorted [OF wf])
  also have "\<dots> = map (\<lambda>(to, d). (to, d - ticks)) (filter (\<lambda>(to, d). ticks < d) (deadlines 0 ?tl))"
    unfolding sh by (simp add: filter_map o_def case_prod_unfold)
  finally have "deadlines 0 (timeout_list (announce_finish c (fst s'))) =
      map (\<lambda>(to, d). (to, d - ticks)) (filter (\<lambda>(to, d). ticks < d) (deadlines 0 ?tl))"
    by (simp only: deadlines_announce_finish s'(2))
  moreover have "sys_clock_announce fuel c fire ticks s = Some (announce_finish c (fst s'), snd s')"
    using s'(1) by (simp add: sys_clock_announce_def Let_def)
  ultimately show ?thesis using s'(3) by fastforce
qed

section \<open>Sleeping threads are woken\<close>

text \<open>\<open>awake\<close>: none of the state bits that a timeout clears is set.\<close>

definition awake :: "tid \<Rightarrow> kernel \<Rightarrow> bool" where
  "awake t k \<longleftrightarrow> (\<forall>n\<in>{1, 2, 4}. \<not> bit (thread_state (threads k t)) n)"

lemma z_thread_timeout_other: "u \<noteq> t \<Longrightarrow> threads (z_thread_timeout c t k) u = threads k u"
  by (simp add: z_thread_timeout_def Let_def z_mark_thread_as_started_def
      z_mark_thread_as_not_suspended_def ready_thread_threads)

lemma z_thread_timeout_bits:
  assumes "kinv_but S k" "\<not> bit (thread_state (threads k t)) 3"
  shows "awake t (z_thread_timeout c t k)"
    and "n \<in> {0, 3} \<Longrightarrow>
      bit (thread_state (threads (z_thread_timeout c t k) t)) n = bit (thread_state (threads k t)) n"
proof -
  define k1 where "k1 = (if pended_on (threads k t) \<noteq> None then unpend_thread_no_timeout t k else k)"
  have ab: "\<not> bit (thread_state (threads k t)) 5"
    using assms(1) by (simp add: kinv_but_def ready_ok_def bit_thread_state)
  have pd: "bit (thread_state (threads k t)) 1 \<longleftrightarrow> pended_on (threads k t) \<noteq> None"
    using assms(1) by (simp add: kinv_but_def waitq_ok_def bit_thread_state)
  have e: "z_thread_timeout c t k =
      ready_thread c t (z_mark_thread_as_not_suspended t (z_mark_thread_as_started t k1))"
    using assms(2) ab by (simp add: z_thread_timeout_def k1_def Let_def)
  have "\<not> bit (thread_state (threads k1 t)) 1" using pd by (simp add: k1_def)
  then show "awake t (z_thread_timeout c t k)"
    unfolding e awake_def
    by (simp add: ready_thread_threads z_mark_thread_as_not_suspended_def z_mark_thread_as_started_def)
  show "bit (thread_state (threads (z_thread_timeout c t k) t)) n = bit (thread_state (threads k t)) n"
    if "n \<in> {0, 3}"
    using that unfolding e
    by (auto simp: k1_def ready_thread_threads z_mark_thread_as_not_suspended_def z_mark_thread_as_started_def)
qed

lemma z_thread_timeout_idle [simp]:
  "idle_thread (cpus (z_thread_timeout c t k) i) = idle_thread (cpus k i)"
  by (simp add: z_thread_timeout_def Let_def z_mark_thread_as_started_def z_mark_thread_as_not_suspended_def)

lemma announce_loop_idle:
  "quiet fire \<Longrightarrow> announce_loop fuel c fire s = Some s' \<Longrightarrow> idle0 (fst s') = idle0 (fst s)"
proof (induction fuel arbitrary: s)
  case (Suc fuel)
  have f: "idle0 (fst (fire_timeout c fire to x)) = idle0 (fst x)" for to x
    using Suc.prems(1) by (cases to) (simp_all add: fire_timeout_def quiet_def del: split_paired_All)
  show ?case
  proof (cases "timeout_list (fst s)")
    case (Cons e rest)
    obtain to dt where "e = (to, dt)" by (cases e)
    then show ?thesis
      using Cons Suc.prems Suc.IH [OF Suc.prems(1), of "fire_timeout c fire to (announce_pop to dt rest (fst s), snd s)"] f
      by (auto split: if_splits)
  qed (use Suc.prems in auto)
qed simp

lemma z_time_slice_idle [simp]: "idle_thread (cpus (z_time_slice c n k) i) = idle_thread (cpus k i)"
  by (simp add: z_time_slice_def move_thread_to_end_of_prio_q_def Let_def)

lemma quiet_expiry_handlers: "quiet fire \<Longrightarrow> expiry_handlers fire"
  by unfold_locales (simp_all add: quiet_def del: split_paired_All)

lemma fire_timeout_bits:
  assumes "quiet fire" "sched_ok k" "timeout_list k = (to, dt) # rest"
    and s': "s' = fire_timeout 0 fire to (announce_pop to dt rest k, ob)"
    and alive: "\<not> bit (thread_state (threads k t)) 3"
  shows "n \<in> {0, 3} \<Longrightarrow> bit (thread_state (threads (fst s') t)) n = bit (thread_state (threads k t)) n"
    and "awake t k \<or> to = ThreadTo t \<Longrightarrow> awake t (fst s')"
proof -
  have kb: "kinv_but {t. to = ThreadTo t} (announce_pop to dt rest k)"
    using sched_ok_announce_pop [OF assms(2,3)] by (simp add: sched_ok_but_def)
  show "n \<in> {0, 3} \<Longrightarrow> bit (thread_state (threads (fst s') t)) n = bit (thread_state (threads k t)) n"
  proof (cases "to = ThreadTo t")
    case True
    assume "n \<in> {0, 3}"
    then show ?thesis using z_thread_timeout_bits(2) [OF kb] alive True by (simp add: s' fire_timeout_def)
  next
    case False
    then show ?thesis
      using assms(1) z_thread_timeout_other by (cases to) (auto simp: s' fire_timeout_def quiet_def)
  qed
  show "awake t k \<or> to = ThreadTo t \<Longrightarrow> awake t (fst s')"
  proof (cases "to = ThreadTo t")
    case True
    then show ?thesis using z_thread_timeout_bits(1) [OF kb] alive by (simp add: s' fire_timeout_def)
  next
    case False
    assume "awake t k \<or> to = ThreadTo t"
    then show ?thesis
      using False assms(1) z_thread_timeout_other
      by (cases to) (auto simp: s' fire_timeout_def quiet_def awake_def)
  qed
qed

lemma announce_loop_wakes:
  assumes "quiet fire" "announce_loop fuel 0 fire s = Some s'" "sched_ok (fst s)"
    and "\<not> bit (thread_state (threads (fst s) t)) 3"
    and "awake t (fst s) \<or>
      ThreadTo t \<in> fst ` set (timeout_list (fst s)) \<and> ThreadTo t \<notin> fst ` set (timeout_list (fst s'))"
  shows "awake t (fst s') \<and> sched_ok (fst s') \<and>
    (\<forall>n\<in>{0, 3}. bit (thread_state (threads (fst s') t)) n = bit (thread_state (threads (fst s) t)) n)"
  using assms(2-)
proof (induction fuel arbitrary: s)
  case (Suc fuel)
  show ?case
  proof (cases "timeout_list (fst s)")
    case Nil
    then show ?thesis using Suc.prems by auto
  next
    case (Cons e rest)
    obtain to dt where e: "e = (to, dt)" by (cases e)
    then have tl: "timeout_list (fst s) = (to, dt) # rest" using Cons by simp
    show ?thesis
    proof (cases "dt \<le> announce_remaining (fst s)")
      case False
      then show ?thesis using Suc.prems tl by auto
    next
      case True
      define s1 where "s1 = fire_timeout 0 fire to (announce_pop to dt rest (fst s), snd s)"
      note b = fire_timeout_bits [OF assms(1) Suc.prems(2) tl s1_def Suc.prems(3)]
      have l: "announce_loop fuel 0 fire s1 = Some s'" using Suc.prems(1) tl True by (simp add: s1_def)
      have ok: "sched_ok (fst s1)"
        using expiry_handlers.fire_timeout_ok(1) [OF quiet_expiry_handlers [OF assms(1)] Suc.prems(2) tl]
        by (simp add: s1_def)
      have tl1: "timeout_list (fst s1) = rest" by (simp add: s1_def quiet_fire [OF assms(1)])
      have alive: "\<not> bit (thread_state (threads (fst s1) t)) 3" using b(1) [of 3] Suc.prems(3) by simp
      have "awake t (fst s1) \<or>
          ThreadTo t \<in> fst ` set (timeout_list (fst s1)) \<and> ThreadTo t \<notin> fst ` set (timeout_list (fst s'))"
        using Suc.prems(4) b(2) tl tl1 by auto
      from Suc.IH [OF l ok alive this] show ?thesis using b(1) by auto
    qed
  qed
qed simp

lemma z_time_slice_bits:
  "n \<noteq> 7 \<Longrightarrow> bit (thread_state (threads (z_time_slice c d k) t)) n = bit (thread_state (threads k t)) n"
  by (simp add: z_time_slice_def move_thread_to_end_of_prio_q_def Let_def)

lemma announce_wakes_thread:
  assumes "sched_ok (fst s)" "quiet fire" "length (timeout_list (fst s)) < fuel"
    and "(ThreadTo t, d) \<in> set (deadlines 0 (timeout_list (fst s)))" "d \<le> ticks"
    and "\<not> bit (thread_state (threads (fst s) t)) 0" "\<not> bit (thread_state (threads (fst s) t)) 3"
  shows "\<exists>s'. sys_clock_announce fuel 0 fire ticks s = Some s' \<and> t \<in> set (runq (fst s'))"
proof -
  let ?k = "(z_time_slice 0 ticks (fst s))\<lparr>announce_remaining := ticks\<rparr>"
  obtain s' where a: "sys_clock_announce fuel 0 fire ticks s = Some s'"
    and dl: "deadlines 0 (timeout_list (fst s')) = map (\<lambda>(to, d). (to, d - ticks))
        (filter (\<lambda>(to, d). ticks < d) (deadlines 0 (timeout_list (fst s))))"
    using announce_deadlines [OF assms(1-3)] by blast
  obtain s1 where l: "announce_loop fuel 0 fire (?k, snd s) = Some s1" and s': "s' = (announce_finish 0 (fst s1), snd s1)"
    using a by (auto simp: sys_clock_announce_def Let_def)
  have ok: "sched_ok ?k" using assms(1) sched_ok_z_time_slice sched_ok_announce_remaining by blast
  have "distinct (map fst (deadlines 0 (timeout_list (fst s))))"
    using kinv_tlist [of "{}" "fst s"] assms(1) deltaq.due_distinct by (simp add: sched_ok_def)
  then have "(ThreadTo t, d') \<notin> set (deadlines 0 (timeout_list (fst s)))" if "ticks < d'" for d'
    using that assms(4,5) eq_key_imp_eq_value by fastforce
  then have "ThreadTo t \<notin> fst ` set (deadlines 0 (timeout_list (fst s')))" unfolding dl by force
  then have nt: "ThreadTo t \<notin> fst ` set (timeout_list (fst s'))" by simp
  moreover have "ThreadTo t \<in> fst ` set (timeout_list (fst s))"
    using assms(4) fst_deadlines [of 0 "timeout_list (fst s)"] by (metis fst_conv image_eqI)
  ultimately have w: "awake t (fst s1) \<and> sched_ok (fst s1) \<and>
      (\<forall>n\<in>{0, 3}. bit (thread_state (threads (fst s1) t)) n = bit (thread_state (threads ?k t)) n)"
    using announce_loop_wakes [OF assms(2) l, of t] ok assms(7) s' by (simp add: z_time_slice_bits)
  have fin: "sched_ok (fst s')" unfolding s' using w sched_ok_announce_finish announce_loop_exit [OF l] by simp
  have "z_is_thread_ready (fst s') t"
    using w nt assms(6,7)
    by (simp add: z_is_thread_ready_def prevented_bits awake_def s' z_time_slice_bits
        z_is_thread_timeout_active_def z_is_inactive_timeout_def)
  moreover have "t \<noteq> idle0 (fst s')"
  proof -
    have "z_is_thread_timeout_active (fst s) t"
      using \<open>ThreadTo t \<in> fst ` set (timeout_list (fst s))\<close>
      by (simp add: z_is_thread_timeout_active_def z_is_inactive_timeout_def)
    then have "t \<noteq> idle0 (fst s)" using timeout_active_not_queued [OF assms(1)] by simp
    then show ?thesis using announce_loop_idle [OF assms(2) l] by (simp add: s')
  qed
  ultimately have "t \<in> set (runq (fst s'))"
    using fin kinv_queued [of "{}" "fst s'" t] by (simp add: sched_ok_def kinv_but_def runq_ok_def)
  then show ?thesis using a by blast
qed

end
