(* ===== verification/Thread.thy ===== *)
theory Thread
  imports Clock
begin

text \<open>
  Creation and start of threads (\<^verbatim>\<open>kernel/thread.c\<close>) and the boot sequence that brings the
  scheduler up (\<^verbatim>\<open>kernel/init.c\<close>). The memory of a \<^verbatim>\<open>struct k_thread\<close> that has not been
  set up is represented by \<open>no_thread\<close>; stacks, entry points, names and the monitor
  list of all threads are not part of the model.
\<close>

section \<open>Setting up a thread\<close>

definition no_thread :: k_thread where
  "no_thread = \<lparr>pended_on = None, user_options = 0, thread_state = THREAD_DUMMY, prio = 0,
     sched_locked = 0, is_idle = False, cpu_mask = 0, swap_data = 0, swap_retval = 0\<rparr>"

definition z_init_thread_base :: "tid \<Rightarrow> int \<Rightarrow> u8 \<Rightarrow> u32 \<Rightarrow> kernel \<Rightarrow> kernel" where
  "z_init_thread_base t priority initial_state options k =
     upd_thread t (\<lambda>th. th\<lparr>pended_on := None, user_options := ucast options,
       thread_state := initial_state, prio := word_of_int priority, sched_locked := 0,
       is_idle := (if CONFIG_SMP k then False else is_idle th)\<rparr>) k"

definition z_setup_new_thread :: "tid \<Rightarrow> int \<Rightarrow> u32 \<Rightarrow> kernel \<Rightarrow> kernel" where
  "z_setup_new_thread new_thread p options k =
     (let k = k\<lparr>waitqs := (waitqs k)(JoinQ new_thread := [])\<rparr>;
          k = z_init_thread_base new_thread p THREAD_PRESTART options k
      in if CONFIG_SCHED_CPU_MASK k
         then upd_thread new_thread (\<lambda>th. th\<lparr>cpu_mask := - 1\<rparr>) k else k)"

definition k_thread_start :: "cpu_id \<Rightarrow> tid \<Rightarrow> kernel \<Rightarrow> kernel" where
  "k_thread_start c t k = z_sched_start c t k"

definition schedule_new_thread :: "cpu_id \<Rightarrow> tid \<Rightarrow> k_timeout_t \<Rightarrow> kernel \<Rightarrow> kernel" where
  "schedule_new_thread c t delay k =
     (if delay = K_NO_WAIT then k_thread_start c t k else z_add_thread_timeout c t delay k)"

definition k_thread_create :: "cpu_id \<Rightarrow> tid \<Rightarrow> int \<Rightarrow> u32 \<Rightarrow> k_timeout_t \<Rightarrow> kernel \<Rightarrow> kernel" where
  "k_thread_create c new_thread p options delay k =
     (let k = z_setup_new_thread new_thread p options k
      in if delay \<noteq> K_FOREVER then schedule_new_thread c new_thread delay k else k)"

record static_thread_data =
  init_thread :: tid
  init_prio :: int
  init_options :: u32
  init_delay :: int

definition K_MSEC :: "int \<Rightarrow> k_timeout_t" where
  "K_MSEC ms = sint (k_ms_to_ticks_ceil64 (word_of_int (max ms 0)))"

definition z_init_static_threads :: "cpu_id \<Rightarrow> static_thread_data list \<Rightarrow> kernel \<Rightarrow> kernel" where
  "z_init_static_threads c tds k =
     (let k = foldl (\<lambda>k td. z_setup_new_thread (init_thread td) (init_prio td) (init_options td) k) k tds;
          k = k_sched_lock c k;
          k = foldl (\<lambda>k td. if init_delay td \<noteq> K_TICKS_FOREVER
                            then schedule_new_thread c (init_thread td) (K_MSEC (init_delay td)) k
                            else k) k tds
      in k_sched_unlock c k)"

abbreviation (input) K_ESSENTIAL :: u32 where "K_ESSENTIAL \<equiv> 1"

definition z_thread_essential_set :: "cpu_id \<Rightarrow> kernel \<Rightarrow> kernel" where
  "z_thread_essential_set c k =
     upd_thread (current_thread c k) (\<lambda>th. th\<lparr>user_options := user_options th OR 1\<rparr>) k"

definition z_thread_essential_clear :: "cpu_id \<Rightarrow> kernel \<Rightarrow> kernel" where
  "z_thread_essential_clear c k =
     upd_thread (current_thread c k) (\<lambda>th. th\<lparr>user_options := user_options th AND NOT 1\<rparr>) k"

definition k_thread_timeout_expires_ticks :: "tid \<Rightarrow> kernel \<Rightarrow> int" where
  "k_thread_timeout_expires_ticks t k = z_timeout_expires (ThreadTo t) k"

definition k_thread_timeout_remaining_ticks :: "tid \<Rightarrow> kernel \<Rightarrow> int" where
  "k_thread_timeout_remaining_ticks t k = z_timeout_remaining (ThreadTo t) k"

section \<open>The boot sequence\<close>

definition z_dummy_thread_init :: "cpu_id \<Rightarrow> tid \<Rightarrow> kernel \<Rightarrow> kernel" where
  "z_dummy_thread_init c dummy k =
     (let k = upd_thread dummy (\<lambda>th. th\<lparr>thread_state := THREAD_DUMMY, user_options := 1\<rparr>) k;
          k = (if CONFIG_SCHED_CPU_MASK k then upd_thread dummy (\<lambda>th. th\<lparr>cpu_mask := - 1\<rparr>) k else k)
      in upd_cpu c (\<lambda>cp. cp\<lparr>current := dummy\<rparr>) k)"

definition init_idle_thread :: "tid \<Rightarrow> kernel \<Rightarrow> kernel" where
  "init_idle_thread t k =
     (let k = z_setup_new_thread t K_IDLE_PRIO K_ESSENTIAL k;
          k = z_mark_thread_as_started t k
      in if CONFIG_SMP k then upd_thread t (\<lambda>th. th\<lparr>is_idle := True\<rparr>) k else k)"

abbreviation (input) CONFIG_MAIN_THREAD_PRIORITY :: int where "CONFIG_MAIN_THREAD_PRIORITY \<equiv> 0"

definition prepare_multithreading :: "tid \<Rightarrow> (cpu_id \<Rightarrow> tid) \<Rightarrow> kernel \<Rightarrow> kernel" where
  "prepare_multithreading z_main_thread z_idle_threads k =
     (let k = z_sched_init 0 k;
          k = (if \<not> CONFIG_SMP k then k\<lparr>cache := z_main_thread\<rparr> else k);
          k = z_setup_new_thread z_main_thread CONFIG_MAIN_THREAD_PRIORITY K_ESSENTIAL k;
          k = z_mark_thread_as_started z_main_thread k;
          k = z_ready_thread 0 z_main_thread k
      in foldl (\<lambda>k i. upd_cpu i (\<lambda>cp. cp\<lparr>idle_thread := z_idle_threads i\<rparr>)
                        (init_idle_thread (z_idle_threads i) k)) k [0..<CONFIG_MP_NUM_CPUS k])"

definition z_cstart :: "tid \<Rightarrow> tid \<Rightarrow> (cpu_id \<Rightarrow> tid) \<Rightarrow> kernel \<Rightarrow> kernel" where
  "z_cstart dummy z_main_thread z_idle_threads k =
     (let k = z_dummy_thread_init 0 dummy k;
          k = prepare_multithreading z_main_thread z_idle_threads k
      in z_swap 0 k)"

section \<open>Creation keeps the invariants\<close>

text \<open>The slot may be reused once its last thread is neither linked anywhere nor waited for.\<close>

definition reusable :: "tid \<Rightarrow> kernel \<Rightarrow> bool" where
  "reusable t k \<longleftrightarrow> t \<noteq> idle0 k \<and> t \<noteq> cur0 k \<and> \<not> z_is_thread_queued (threads k t) \<and>
     pended_on (threads k t) = None \<and> \<not> z_is_thread_timeout_active k t \<and> waitqs k (JoinQ t) = []"

lemma setup_fields [simp]:
  "cpus (z_setup_new_thread t p opts k) = cpus k"
  "cache (z_setup_new_thread t p opts k) = cache k"
  "runq (z_setup_new_thread t p opts k) = runq k"
  "timeout_list (z_setup_new_thread t p opts k) = timeout_list k"
  "clock_elapsed (z_setup_new_thread t p opts k) = clock_elapsed k"
  "CONFIG_SMP (z_setup_new_thread t p opts k) = CONFIG_SMP k"
  "CONFIG_SCHED_CPU_MASK (z_setup_new_thread t p opts k) = CONFIG_SCHED_CPU_MASK k"
  "CONFIG_MP_NUM_CPUS (z_setup_new_thread t p opts k) = CONFIG_MP_NUM_CPUS k"
  "waitqs (z_setup_new_thread t p opts k) = (waitqs k)(JoinQ t := [])"
  by (simp_all add: z_setup_new_thread_def z_init_thread_base_def Let_def)

lemma setup_threads:
  "u \<noteq> t \<Longrightarrow> threads (z_setup_new_thread t p opts k) u = threads k u"
  "thread_state (threads (z_setup_new_thread t p opts k) t) = THREAD_PRESTART"
  "pended_on (threads (z_setup_new_thread t p opts k) t) = None"
  "prio (threads (z_setup_new_thread t p opts k) t) = word_of_int p"
  "sched_locked (threads (z_setup_new_thread t p opts k) t) = 0"
  by (simp_all add: z_setup_new_thread_def z_init_thread_base_def Let_def)

lemma bit_PRESTART: "bit (THREAD_PRESTART :: u8) n = (n = 2)"
  using bit_or_exp [of "0 :: u8" 2 n] by simp

lemma sched_ok_setup:
  assumes "sched_ok k" "reusable t k"
  shows "sched_ok (z_setup_new_thread t p opts k)"
    and "t \<noteq> idle0 (z_setup_new_thread t p opts k)"
    and "\<not> z_is_thread_timeout_active (z_setup_new_thread t p opts k) t"
proof -
  let ?k = "z_setup_new_thread t p opts k"
  have inv: "kinv k" using assms(1) by (simp add: sched_ok_def)
  have act: "z_is_thread_timeout_active ?k u = z_is_thread_timeout_active k u" for u
    by (rule timeout_active_cong) simp
  have st: "\<not> z_is_thread_queued (threads ?k t)" "z_is_thread_prevented_from_running (threads ?k t)"
    "\<not> z_is_thread_pending (threads ?k t)" "\<not> is_aborting (threads ?k t)"
    by (simp_all add: bit_thread_state prevented_bits setup_threads bit_PRESTART)
  have nrq: "t \<notin> set (runq k)" using inv assms(2) by (simp add: kinv_but_def runq_ok_def reusable_def)
  have "runq_ok ?k"
  proof -
    have "\<forall>u\<in>set (runq k). prio_key (threads ?k) u = prio_key (threads k) u"
      using nrq by (metis prio_key_def setup_threads(1))
    then have "sorted_key (prio_key (threads ?k)) (runq k) = sorted_key (prio_key (threads k)) (runq k)"
      by (intro sorted_key_cong) blast
    moreover have "z_is_thread_queued (threads ?k u) = z_is_thread_queued (threads k u)" for u
      using st(1) assms(2) by (cases "u = t") (simp_all add: setup_threads reusable_def)
    ultimately show ?thesis using inv by (simp add: kinv_but_def runq_ok_def)
  qed
  moreover have "ready_ok {} ?k"
  proof -
    have "z_is_thread_ready ?k u = z_is_thread_ready k u" if "u \<noteq> t" for u
      using that by (intro z_is_thread_ready_cong) (simp_all add: setup_threads)
    moreover have "\<not> z_is_thread_ready ?k t" using st(2) by (simp add: z_is_thread_ready_def)
    ultimately show ?thesis
      using inv st(1,4) unfolding kinv_but_def ready_ok_def by (metis setup_threads(1) setup_fields(1))
  qed
  moreover have "waitq_ok ?k"
  proof -
    have "pended_on (threads ?k u) = pended_on (threads k u)" for u
      using assms(2) by (cases "u = t") (simp_all add: setup_threads reusable_def)
    moreover have "z_is_thread_pending (threads ?k u) = z_is_thread_pending (threads k u)" for u
      using st(3) inv assms(2)
      by (cases "u = t") (simp_all add: setup_threads reusable_def kinv_but_def waitq_ok_def)
    moreover have "waitqs ?k = waitqs k" using assms(2) by (simp add: reusable_def fun_upd_idem)
    ultimately show ?thesis using inv by (simp add: kinv_but_def waitq_ok_def)
  qed
  moreover have "idle_ok ?k"
    using inv assms(2) z_is_thread_ready_cong [of ?k "idle0 k" k]
    by (simp add: kinv_but_def idle_ok_def reusable_def setup_threads)
  ultimately have "kinv ?k" using inv by (simp add: kinv_but_def clock_ok_def)
  moreover have "cpu_mask (threads ?k u) = cpu_mask (threads k u)" if "u \<in> set (runq k)" for u
    using that nrq setup_threads(1) by metis
  then have "cache_ok ?k"
    by (intro cache_ok_frame [OF sched_okD(2) [OF assms(1)]])
      (use assms(2) in \<open>simp_all add: current_thread_def reusable_def setup_threads\<close>)
  moreover have "cur_ok ?k"
    using assms(1) by (simp add: sched_ok_def cur_ok_def act current_thread_def)
  ultimately show "sched_ok ?k" by (simp add: sched_ok_def)
  show "t \<noteq> idle0 ?k" "\<not> z_is_thread_timeout_active ?k t"
    using assms(2) act by (simp_all add: reusable_def)
qed

lemma sched_ok_z_add_thread_timeout:
  assumes "sched_ok k" "z_is_thread_prevented_from_running (threads k t)"
    "\<not> z_is_thread_timeout_active k t" "t \<noteq> cur0 k"
  shows "sched_ok (z_add_thread_timeout c t d k)"
proof -
  let ?k = "z_add_thread_timeout c t d k"
  have inv: "kinv k" using assms(1) by (simp add: sched_ok_def)
  have ni: "t \<noteq> idle0 k" using idle_not_prevented [OF assms(1)] assms(2) by auto
  have "kinv_but {t} ?k"
    by (rule kinv_add_thread_timeout) (use kinv_mono [OF inv] ni assms(3) in auto)
  then have "kinv ?k"
    by (rule kinv_close)
      (use prevented_not_queued [OF assms(1,2)] assms(2) in \<open>simp add: z_is_thread_ready_def\<close>)
  moreover have "cache_ok ?k"
    by (rule cache_ok_frame [of k]) (use assms(1) in \<open>simp_all add: sched_ok_def current_thread_def\<close>)
  moreover have "cur_ok ?k"
    using assms(1,4) by (simp add: sched_ok_def cur_ok_def z_is_thread_timeout_active_def
        z_add_thread_timeout_def inactive_add current_thread_def)
  ultimately show ?thesis by (simp add: sched_ok_def)
qed

lemma sched_ok_schedule_new_thread:
  assumes "sched_ok k" "z_is_thread_prevented_from_running (threads k t)"
    "\<not> z_is_thread_timeout_active k t" "t \<noteq> cur0 k"
  shows "sched_ok (schedule_new_thread 0 t d k)"
  using assms sched_ok_z_sched_start [OF assms(1)] sched_ok_z_add_thread_timeout [OF assms]
  by (simp add: schedule_new_thread_def k_thread_start_def)

lemma sched_ok_k_thread_create:
  assumes "sched_ok k" "reusable t k"
  shows "sched_ok (k_thread_create 0 t p opts delay k)"
proof -
  let ?k = "z_setup_new_thread t p opts k"
  note s = sched_ok_setup [OF assms, of p opts]
  have "z_is_thread_prevented_from_running (threads ?k t)"
    by (simp add: prevented_bits setup_threads bit_PRESTART)
  moreover have "t \<noteq> cur0 ?k" using assms(2) by (simp add: reusable_def current_thread_def)
  ultimately have "sched_ok (schedule_new_thread 0 t delay ?k)"
    using s by (intro sched_ok_schedule_new_thread) simp_all
  then show ?thesis using s(1) by (simp add: k_thread_create_def Let_def)
qed

section \<open>The state after boot\<close>

definition bss_kernel :: "bool \<Rightarrow> bool \<Rightarrow> nat \<Rightarrow> kernel" where
  "bss_kernel smp masks n =
     \<lparr>CONFIG_SMP = smp, CONFIG_MP_NUM_CPUS = n, CONFIG_SCHED_CPU_MASK = masks,
      threads = (\<lambda>_. no_thread),
      cpus = (\<lambda>_. \<lparr>nested = 0, current = 0, idle_thread = 0, slice_ticks = 0, swap_ok = False,
                   irq_masked = False\<rparr>),
      cache = 0, runq = [], waitqs = (\<lambda>_. []), timeout_list = [], curr_tick = 0,
      announce_remaining = 0, slice_time = 0, slice_max_prio = 0, clock_elapsed = 0,
      clock_timeout = None\<rparr>"

lemma z_sched_init_bss: "z_sched_init 0 k = (upd_cpu 0 (\<lambda>cp. cp\<lparr>slice_ticks := 0\<rparr>) (k\<lparr>runq := []\<rparr>))
   \<lparr>slice_time := 0, slice_max_prio := 0\<rparr>"
proof -
  have "k_ms_to_ticks_ceil32 (word_of_int 0) = 0"
    by (simp add: k_ms_to_ticks_ceil32_def z_tmcvt_def)
  then show ?thesis
    by (simp add: z_sched_init_def init_ready_q_def k_sched_time_slice_set_def z_reset_time_slice_def Let_def)
qed

lemma boot_before_ready:
  fixes masks :: bool and n :: nat and main dummy :: tid
  assumes "dummy \<noteq> main"
  defines "k \<equiv> z_mark_thread_as_started main (z_setup_new_thread main CONFIG_MAIN_THREAD_PRIORITY K_ESSENTIAL
    ((z_sched_init 0 (z_dummy_thread_init 0 dummy (bss_kernel False masks n)))\<lparr>cache := main\<rparr>))"
  shows "thread_state (threads k main) = 0" "thread_state (threads k t) = (if t = main then 0 else THREAD_DUMMY)"
    "pended_on (threads k t) = None" "runq k = []" "waitqs k w = []" "timeout_list k = []" "clock_elapsed k = 0"
    "CONFIG_SMP k = False" "CONFIG_SCHED_CPU_MASK k = masks" "CONFIG_MP_NUM_CPUS k = n"
    "cur0 k = dummy" "masks \<Longrightarrow> cpu_mask (threads k main) = - 1" "slice_time k = 0"
    "prio (threads k main) = 0" "sched_locked (threads k main) = 0"
proof -
  have d: "k = z_mark_thread_as_started main (z_setup_new_thread main CONFIG_MAIN_THREAD_PRIORITY K_ESSENTIAL
      ((upd_cpu 0 (\<lambda>cp. cp\<lparr>slice_ticks := 0\<rparr>)
        ((z_dummy_thread_init 0 dummy (bss_kernel False masks n))\<lparr>runq := []\<rparr>))
       \<lparr>slice_time := 0, slice_max_prio := 0, cache := main\<rparr>))"
    unfolding k_def z_sched_init_bss by simp
  show "thread_state (threads k main) = 0" "thread_state (threads k t) = (if t = main then 0 else THREAD_DUMMY)"
    "pended_on (threads k t) = None" "runq k = []" "waitqs k w = []" "timeout_list k = []" "clock_elapsed k = 0"
    "CONFIG_SMP k = False" "CONFIG_SCHED_CPU_MASK k = masks" "CONFIG_MP_NUM_CPUS k = n"
    "cur0 k = dummy" "masks \<Longrightarrow> cpu_mask (threads k main) = - 1" "slice_time k = 0"
    "prio (threads k main) = 0" "sched_locked (threads k main) = 0"
    using assms(1)
    by (simp_all add: d z_mark_thread_as_started_def z_setup_new_thread_def z_init_thread_base_def
        z_dummy_thread_init_def bss_kernel_def no_thread_def Let_def z_reset_thread_states_def current_thread_def)
qed

lemma slice_time_queue: "slice_time (queue_thread c t k) = slice_time k"
  by (simp add: queue_thread_def Let_def runq_add_def)

lemma boot_after_ready:
  fixes masks :: bool and n :: nat and main dummy :: tid
  assumes "dummy \<noteq> main"
  defines "k \<equiv> z_mark_thread_as_started main (z_setup_new_thread main CONFIG_MAIN_THREAD_PRIORITY K_ESSENTIAL
    ((z_sched_init 0 (z_dummy_thread_init 0 dummy (bss_kernel False masks n)))\<lparr>cache := main\<rparr>))"
  defines "k' \<equiv> z_ready_thread 0 main k"
  shows "runq k' = [main]" "cache k' = main" "cur0 k' = dummy" "CONFIG_SMP k' = False"
    "CONFIG_MP_NUM_CPUS k' = n" "timeout_list k' = []" "waitqs k' w = []" "clock_elapsed k' = 0" "slice_time k' = 0"
    "CONFIG_SCHED_CPU_MASK k' = masks"
    "thread_state (threads k' t) = (if t = main then THREAD_QUEUED else THREAD_DUMMY)"
    "pended_on (threads k' t) = None" "masks \<Longrightarrow> cpu_mask (threads k' main) = - 1"
    "prio (threads k' main) = 0" "sched_locked (threads k' main) = 0"
proof -
  note b = boot_before_ready [OF assms(1), of masks n, folded k_def]
  have "z_is_thread_ready k main" "\<not> z_is_thread_queued (threads k main)"
    using b by (simp_all add: state_bits)
  then have k': "k' = update_cache 0 False (queue_thread 0 main k)"
    using b(8) by (simp add: k'_def z_ready_thread_uniprocessor ready_thread_def)
  have rq: "runq (queue_thread 0 main k) = [main]" using b(4,8) by (simp add: runq_queue_thread)
  have "cpu_mask (threads k main) AND push_bit 0 1 \<noteq> 0" if masks
    using b(12) [OF that] by simp
  then have nu: "next_up_uniprocessor 0 (queue_thread 0 main k) = main"
    using rq b(9) by (simp add: next_up_uniprocessor_def runq_best_def z_priq_dumb_best_def)
  have "z_is_thread_prevented_from_running (threads (queue_thread 0 main k) (cur0 (queue_thread 0 main k)))"
    using b(2) [of dummy] b(11) assms(1) by (simp add: prevented_bits current_thread_def)
  then show "cache k' = main"
    using nu b(8) by (simp add: k' update_cache_def should_preempt_def Let_def)
  show "runq k' = [main]" "cur0 k' = dummy" "CONFIG_SMP k' = False"
    "CONFIG_MP_NUM_CPUS k' = n" "timeout_list k' = []" "waitqs k' w = []" "clock_elapsed k' = 0" "slice_time k' = 0"
    "CONFIG_SCHED_CPU_MASK k' = masks"
    "thread_state (threads k' t) = (if t = main then THREAD_QUEUED else THREAD_DUMMY)"
    "pended_on (threads k' t) = None" "masks \<Longrightarrow> cpu_mask (threads k' main) = - 1"
    "prio (threads k' main) = 0" "sched_locked (threads k' main) = 0"
    using rq b by (simp_all add: k' current_thread_def z_set_thread_states_def slice_time_queue)
qed

lemma bit_QUEUED: "bit (THREAD_QUEUED :: u8) n = (n = 7)"
  using bit_or_exp [of "0 :: u8" 7 n] by simp

lemma bit_DUMMY: "bit (THREAD_DUMMY :: u8) n = (n = 0)"
  using bit_or_exp [of "0 :: u8" 0 n] by simp

lemma boot_before_swap:
  fixes masks :: bool and main dummy idle :: tid
  assumes "distinct [dummy, main, idle]"
  defines "k \<equiv> prepare_multithreading main (\<lambda>_. idle) (z_dummy_thread_init 0 dummy (bss_kernel False masks 1))"
  shows "kinv k" "cache k = main" "next_up_uniprocessor 0 k = main" "cur0 k = dummy" "runq k = [main]"
    "timeout_list k = []" "idle0 k = idle" "waitqs k w = []" "pended_on (threads k t) = None"
    "thread_state (threads k t) = (if t = main then THREAD_QUEUED else if t = idle then 0 else THREAD_DUMMY)"
    "prio (threads k main) = 0" "sched_locked (threads k main) = 0" "masks \<Longrightarrow> cpu_mask (threads k main) = - 1"
    "is_preempt (threads k idle)"
proof -
  have dm: "dummy \<noteq> main" and im: "idle \<noteq> main" "idle \<noteq> dummy" using assms(1) by auto
  define k' where "k' = z_ready_thread 0 main (z_mark_thread_as_started main
    (z_setup_new_thread main CONFIG_MAIN_THREAD_PRIORITY K_ESSENTIAL
      ((z_sched_init 0 (z_dummy_thread_init 0 dummy (bss_kernel False masks 1)))\<lparr>cache := main\<rparr>)))"
  note b = boot_after_ready [OF dm, of masks 1, folded k'_def]
  have smp: "\<not> CONFIG_SMP (z_sched_init 0 (z_dummy_thread_init 0 dummy (bss_kernel False masks 1)))"
    by (simp add: z_sched_init_bss z_dummy_thread_init_def bss_kernel_def Let_def)
  have k: "k = upd_cpu 0 (\<lambda>cp. cp\<lparr>idle_thread := idle\<rparr>) (init_idle_thread idle k')"
    using smp b(5) by (simp add: k_def prepare_multithreading_def Let_def k'_def)
  have i: "init_idle_thread idle k' = z_mark_thread_as_started idle (z_setup_new_thread idle K_IDLE_PRIO K_ESSENTIAL k')"
    using b(4) by (simp add: init_idle_thread_def Let_def z_mark_thread_as_started_def)
  have ts: "thread_state (threads k t) =
      (if t = main then THREAD_QUEUED else if t = idle then 0 else THREAD_DUMMY)" for t
    using b(11) [of t] im setup_threads(1) [of t idle]
    by (auto simp: k i z_mark_thread_as_started_def z_reset_thread_states_def setup_threads)
  have po: "pended_on (threads k t) = None" for t
    using b(12) [of t] setup_threads(1) [of t idle]
    by (cases "t = idle") (simp_all add: k i z_mark_thread_as_started_def setup_threads)
  have f: "runq k = [main]" "timeout_list k = []" "waitqs k w = []" "clock_elapsed k = 0" "\<not> CONFIG_SMP k"
    "idle0 k = idle" "CONFIG_SCHED_CPU_MASK k = masks" "cur0 k = dummy" "cache k = main" for w
    using b by (simp_all add: k i z_mark_thread_as_started_def current_thread_def)
  show "cache k = main" "cur0 k = dummy" "runq k = [main]" "timeout_list k = []" "idle0 k = idle" "waitqs k w = []"
    "pended_on (threads k t) = None"
    "thread_state (threads k t) = (if t = main then THREAD_QUEUED else if t = idle then 0 else THREAD_DUMMY)"
    using f po ts by simp_all
  have "runq_ok k" using f im by (simp add: runq_ok_def bit_thread_state ts bit_QUEUED bit_DUMMY)
  moreover have "ready_ok {} k" "idle_ok k"
    using f by (simp_all add: ready_ok_def idle_ok_def state_bits ts bit_QUEUED bit_DUMMY im)
  moreover have "waitq_ok k" using f by (simp add: waitq_ok_def po bit_thread_state ts bit_QUEUED bit_DUMMY)
  ultimately show "kinv k" using f by (simp add: kinv_but_def clock_ok_def tlist_wf_def)
  have "cpu_mask (threads k main) = cpu_mask (threads k' main)"
    using im setup_threads(1) [of main idle] by (simp add: k i z_mark_thread_as_started_def)
  then show cm: "masks \<Longrightarrow> cpu_mask (threads k main) = - 1" using b(13) by simp
  show "is_preempt (threads k idle)" by (simp add: k i z_mark_thread_as_started_def setup_threads is_preempt_iff)
  show "prio (threads k main) = 0" "sched_locked (threads k main) = 0"
    using im b(14,15) setup_threads(1) [of main idle] by (simp_all add: k i z_mark_thread_as_started_def)
  from cm show "next_up_uniprocessor 0 k = main"
    using f by (simp add: next_up_uniprocessor_def runq_best_def z_priq_dumb_best_def)
qed

lemma boot_uniprocessor:
  fixes masks :: bool and main dummy idle :: tid
  assumes "distinct [dummy, main, idle]"
  shows "sched_ok (z_cstart dummy main (\<lambda>_. idle) (bss_kernel False masks 1))"
    and "current_thread 0 (z_cstart dummy main (\<lambda>_. idle) (bss_kernel False masks 1)) = main"
    and "runq (z_cstart dummy main (\<lambda>_. idle) (bss_kernel False masks 1)) = [main]"
    and "timeout_list (z_cstart dummy main (\<lambda>_. idle) (bss_kernel False masks 1)) = []"
    and "idle0 (z_cstart dummy main (\<lambda>_. idle) (bss_kernel False masks 1)) = idle"
    and "waitqs (z_cstart dummy main (\<lambda>_. idle) (bss_kernel False masks 1)) w = []"
    and "pended_on (threads (z_cstart dummy main (\<lambda>_. idle) (bss_kernel False masks 1)) t) = None"
    and "thread_state (threads (z_cstart dummy main (\<lambda>_. idle) (bss_kernel False masks 1)) t) =
      (if t = main then THREAD_QUEUED else if t = idle then 0 else THREAD_DUMMY)"
    and "prio (threads (z_cstart dummy main (\<lambda>_. idle) (bss_kernel False masks 1)) main) = 0"
    and "sched_locked (threads (z_cstart dummy main (\<lambda>_. idle) (bss_kernel False masks 1)) main) = 0"
    and "masks \<Longrightarrow> cpu_mask (threads (z_cstart dummy main (\<lambda>_. idle) (bss_kernel False masks 1)) main) = - 1"
    and "is_preempt (threads (z_cstart dummy main (\<lambda>_. idle) (bss_kernel False masks 1)) idle)"
proof -
  let ?k = "prepare_multithreading main (\<lambda>_. idle) (z_dummy_thread_init 0 dummy (bss_kernel False masks 1))"
  note b = boot_before_swap [OF assms, of masks]
  have smp: "\<not> CONFIG_SMP ?k" using b(1) by (rule kinv_not_smp)
  have "dummy \<noteq> main" using assms by simp
  then show "sched_ok (z_cstart dummy main (\<lambda>_. idle) (bss_kernel False masks 1))"
    unfolding z_cstart_def Let_def z_swap_def
    by (intro sched_ok_do_swap) (use b in \<open>simp_all add: cache_ok_def\<close>)
  show "current_thread 0 (z_cstart dummy main (\<lambda>_. idle) (bss_kernel False masks 1)) = main"
    "runq (z_cstart dummy main (\<lambda>_. idle) (bss_kernel False masks 1)) = [main]"
    "timeout_list (z_cstart dummy main (\<lambda>_. idle) (bss_kernel False masks 1)) = []"
    "idle0 (z_cstart dummy main (\<lambda>_. idle) (bss_kernel False masks 1)) = idle"
    "waitqs (z_cstart dummy main (\<lambda>_. idle) (bss_kernel False masks 1)) w = []"
    using b(2-8) smp by (simp_all add: z_cstart_def Let_def z_swap_def do_swap_fields)
  have sw: "pended_on (threads (z_swap 0 k) u) = pended_on (threads k u)"
    "thread_state (threads (z_swap 0 k) u) = thread_state (threads k u)" "prio (threads (z_swap 0 k) u) = prio (threads k u)"
    "sched_locked (threads (z_swap 0 k) u) = sched_locked (threads k u)"
    "cpu_mask (threads (z_swap 0 k) u) = cpu_mask (threads k u)" if "\<not> CONFIG_SMP k" for k u
    using that by (simp_all add: z_swap_def do_swap_fields)
  show "pended_on (threads (z_cstart dummy main (\<lambda>_. idle) (bss_kernel False masks 1)) t) = None"
    "thread_state (threads (z_cstart dummy main (\<lambda>_. idle) (bss_kernel False masks 1)) t) =
      (if t = main then THREAD_QUEUED else if t = idle then 0 else THREAD_DUMMY)"
    "prio (threads (z_cstart dummy main (\<lambda>_. idle) (bss_kernel False masks 1)) main) = 0"
    "sched_locked (threads (z_cstart dummy main (\<lambda>_. idle) (bss_kernel False masks 1)) main) = 0"
    unfolding z_cstart_def Let_def sw [OF smp] b(9-12) by (rule refl)+
  show "is_preempt (threads (z_cstart dummy main (\<lambda>_. idle) (bss_kernel False masks 1)) idle)"
    using b(14) unfolding z_cstart_def Let_def is_preempt_iff sw [OF smp] .
  show "cpu_mask (threads (z_cstart dummy main (\<lambda>_. idle) (bss_kernel False masks 1)) main) = - 1" if masks
    using sw(5) [OF smp, of main] b(13) [OF that] unfolding z_cstart_def Let_def by simp
qed

lemma boot_interrupts:
  "nested (cpus (z_cstart d m i (bss_kernel False b 1)) 0) = 0"
  "\<not> irq_masked (cpus (z_cstart d m i (bss_kernel False b 1)) 0)"
  by (simp_all add: z_cstart_def prepare_multithreading_def Let_def z_swap_def do_swap_fields
      z_sched_init_bss ready_thread_def z_dummy_thread_init_def init_idle_thread_def
      z_mark_thread_as_started_def z_ready_thread_def bss_kernel_def)

end
