(* ===== verification/Sched_Machine.thy ===== *)
theory Sched_Machine
  imports Thread
begin

text \<open>
  The uniprocessor kernel as a state machine: the boot state and one step per call of the
  scheduler's interface by the running thread or by an interrupt handler, with the clock
  and the nesting of interrupts as steps of the environment. The invariants of theory
  \<open>Sched_Inv\<close> hold in every reachable state, and with them the scheduling policy: at
  every return to a thread the processor runs the best ready thread unless the thread it
  was running must not be preempted.
\<close>

section \<open>Interrupts\<close>

definition isr_enter :: "kernel \<Rightarrow> kernel" where
  "isr_enter k = upd_cpu 0 (\<lambda>cp. cp\<lparr>nested := Suc (nested cp)\<rparr>) k"

text \<open>The outermost interrupt returns through \<^verbatim>\<open>z_get_next_switch_handle\<close>.\<close>

definition isr_exit :: "kernel \<Rightarrow> kernel" where
  "isr_exit k =
     (let k = upd_cpu 0 (\<lambda>cp. cp\<lparr>nested := nested cp - 1\<rparr>) k
      in if nested (cpus k 0) = 0 then z_get_next_switch_handle 0 k else k)"

definition irq_mask :: "bool \<Rightarrow> kernel \<Rightarrow> kernel" where
  "irq_mask b k = upd_cpu 0 (\<lambda>cp. cp\<lparr>irq_masked := b\<rparr>) k"

section \<open>Steps\<close>

inductive kstep :: "kernel \<Rightarrow> kernel \<Rightarrow> bool" where
  start: "kstep k (k_thread_start 0 t k)"
| create: "reusable t k \<Longrightarrow> kstep k (k_thread_create 0 t p opts delay k)"
| suspend: "t \<noteq> idle0 k \<Longrightarrow> kstep k (k_thread_suspend 0 t k)"
| resume: "kstep k (k_thread_resume 0 t k)"
| wakeup: "kstep k (k_wakeup 0 t k)"
| priority_set: "t \<noteq> idle0 k \<Longrightarrow> kstep k (k_thread_priority_set 0 t p k)"
| sched_lock: "sched_locked (threads k (cur0 k)) \<noteq> 1 \<Longrightarrow> kstep k (k_sched_lock 0 k)"
| sched_unlock: "kstep k (k_sched_unlock 0 k)"
| yield: "running k \<Longrightarrow> kstep k (k_yield 0 k)"
| sleep: "running k \<Longrightarrow> kstep k (snd (k_sleep 0 d k))"
| join: "running k \<Longrightarrow> kstep k (snd (k_thread_join 0 t d k))"
| abort: "t \<noteq> idle0 k \<Longrightarrow> kstep k (snd (k_thread_abort 0 t k))"
| cpu_mask: "kstep k (snd (cpu_mask_mod t e d k))"
| wait: "running k \<Longrightarrow> kstep k (z_sched_wait 0 (ObjQ n) d k)"
| wake: "kstep k (snd (z_sched_wake 0 w v p k))"
| wake_all: "kstep k (snd (z_sched_wake_all 0 w v p k))"
| reschedule: "kstep k (z_reschedule 0 k)"
| slice_set: "kstep k (k_sched_time_slice_set 0 ms p k)"
| add_timeout: "z_is_inactive_timeout k (ObjTo n) \<Longrightarrow> kstep k (z_add_timeout 0 (ObjTo n) d k)"
| abort_timeout: "kstep k (snd (z_abort_timeout (ObjTo n) k))"
| tick: "sys_clock_announce fuel 0 (\<lambda>n s. s) ticks (k, ()) = Some s \<Longrightarrow> kstep k (fst s)"
| elapse: "0 \<le> e \<Longrightarrow> kstep k (k\<lparr>clock_elapsed := e\<rparr>)"
| enter: "kstep k (isr_enter k)"
| exit: "nested (cpus k 0) \<noteq> 0 \<Longrightarrow> kstep k (isr_exit k)"
| irq: "kstep k (irq_mask b k)"

inductive reachable :: "kernel \<Rightarrow> bool" where
  boot: "distinct [dummy, main, idle] \<Longrightarrow>
    reachable (z_cstart dummy main (\<lambda>_. idle) (bss_kernel False masks 1))"
| step: "reachable k \<Longrightarrow> kstep k k' \<Longrightarrow> reachable k'"

section \<open>The remaining steps keep the invariants\<close>

lemma sched_ok_isr_enter: "sched_ok k \<Longrightarrow> sched_ok (isr_enter k)"
  unfolding isr_enter_def by (rule sched_ok_upd_cpu) simp_all

lemma sched_ok_irq_mask: "sched_ok k \<Longrightarrow> sched_ok (irq_mask b k)"
  unfolding irq_mask_def by (rule sched_ok_upd_cpu) simp_all

lemma sched_ok_isr_exit: "sched_ok k \<Longrightarrow> sched_ok (isr_exit k)"
proof -
  assume "sched_ok k"
  then have "sched_ok (upd_cpu 0 (\<lambda>cp. cp\<lparr>nested := nested cp - 1\<rparr>) k)"
    by (rule sched_ok_upd_cpu) simp_all
  then show ?thesis by (simp add: isr_exit_def Let_def sched_ok_z_get_next_switch_handle)
qed

lemma sched_ok_slice_fields:
  "sched_ok k \<Longrightarrow> sched_ok (k\<lparr>slice_time := a, slice_max_prio := b\<rparr>)"
proof -
  assume a: "sched_ok k"
  let ?k = "k\<lparr>slice_time := a, slice_max_prio := b\<rparr>"
  have "kinv ?k = kinv k" by (rule kinv_but_cong) simp_all
  moreover have "cache_ok ?k"
    by (rule cache_ok_frame [of k]) (use a in \<open>simp_all add: sched_ok_def current_thread_def\<close>)
  moreover have "cur_ok ?k"
    by (rule cur_ok_cong [of k]) (use a in \<open>simp_all add: sched_ok_def current_thread_def\<close>)
  ultimately show ?thesis using a by (simp add: sched_ok_def)
qed

lemma sched_ok_time_slice_set: "sched_ok k \<Longrightarrow> sched_ok (k_sched_time_slice_set 0 ms p k)"
  unfolding k_sched_time_slice_set_def Let_def
  by (intro sched_ok_reset_time_slice sched_ok_slice_fields sched_ok_upd_cpu) simp_all

lemma sched_ok_object_timeout:
  assumes "sched_ok k"
  shows "z_is_inactive_timeout k (ObjTo n) \<Longrightarrow> sched_ok (z_add_timeout c (ObjTo n) d k)"
    and "sched_ok (snd (z_abort_timeout (ObjTo n) k))"
proof -
  have inv: "kinv k" and w: "tlist_wf (timeout_list k)"
    using assms kinv_tlist [of "{}" k] by (simp_all add: sched_ok_def)
  have act: "z_is_thread_timeout_active (z_add_timeout c (ObjTo n) d k) t = z_is_thread_timeout_active k t"
    "z_is_thread_timeout_active (snd (z_abort_timeout (ObjTo n) k)) t = z_is_thread_timeout_active k t" for t
    using w by (auto simp: z_is_thread_timeout_active_def inactive_add inactive_abort)
  have c: "cache_ok (z_add_timeout c (ObjTo n) d k)" "cache_ok (snd (z_abort_timeout (ObjTo n) k))"
    by (rule cache_ok_frame [of k]; use assms in \<open>simp add: sched_ok_def current_thread_def\<close>)+
  show "sched_ok (z_add_timeout c (ObjTo n) d k)" if "z_is_inactive_timeout k (ObjTo n)"
    using z_add_timeout_list_kinv [OF inv _ that, of c d] c(1) act(1) assms
    by (simp add: sched_ok_def cur_ok_def current_thread_def)
  show "sched_ok (snd (z_abort_timeout (ObjTo n) k))"
    using kinv_abort_timeout [OF inv, of "ObjTo n"] c(2) act(2) assms
    by (simp add: sched_ok_def cur_ok_def current_thread_def)
qed

lemma quiet_id: "quiet (\<lambda>n s. s)"
  by (simp add: quiet_def)

lemma sched_ok_announce_loop:
  assumes "expiry_handlers fire" "announce_loop fuel 0 fire s = Some s'" "sched_ok (fst s)"
  shows "sched_ok (fst s')"
  using assms(2,3)
proof (induction fuel arbitrary: s)
  case (Suc fuel)
  show ?case
  proof (cases "timeout_list (fst s)")
    case (Cons e rest)
    obtain to dt where tl: "timeout_list (fst s) = (to, dt) # rest" using Cons by (cases e) simp
    then show ?thesis
      using Suc.prems Suc.IH expiry_handlers.fire_timeout_ok(1) [OF assms(1) Suc.prems(2) tl]
      by (auto split: if_splits)
  qed (use Suc.prems in auto)
qed simp

lemma sched_ok_sys_clock_announce:
  assumes "expiry_handlers fire" "sys_clock_announce fuel 0 fire ticks s = Some s'" "sched_ok (fst s)"
  shows "sched_ok (fst s')"
proof -
  let ?k = "(z_time_slice 0 ticks (fst s))\<lparr>announce_remaining := ticks\<rparr>"
  obtain s1 where l: "announce_loop fuel 0 fire (?k, snd s) = Some s1" and s': "s' = (announce_finish 0 (fst s1), snd s1)"
    using assms(2) by (auto simp: sys_clock_announce_def Let_def)
  have "sched_ok ?k" using assms(3) sched_ok_z_time_slice sched_ok_announce_remaining by blast
  then have "sched_ok (fst s1)" using sched_ok_announce_loop [OF assms(1) l] by simp
  then show ?thesis unfolding s' using sched_ok_announce_finish announce_loop_exit [OF l] by simp
qed

section \<open>The invariants hold in every reachable state\<close>

lemma kstep_sched_ok: "kstep k k' \<Longrightarrow> sched_ok k \<Longrightarrow> sched_ok k'"
proof (induction rule: kstep.induct)
  case (tick fuel ticks k s)
  then show ?case
    using sched_ok_sys_clock_announce [OF quiet_expiry_handlers [OF quiet_id] tick(1)] by simp
qed (simp_all add: k_thread_start_def sched_ok_z_sched_start sched_ok_k_thread_create
    sched_ok_k_thread_suspend sched_ok_k_thread_resume sched_ok_k_wakeup sched_ok_k_thread_priority_set
    sched_ok_k_sched_lock sched_ok_k_sched_unlock sched_ok_k_yield sched_ok_k_sleep
    sched_ok_k_thread_join k_thread_abort_def sched_ok_z_thread_abort sched_ok_cpu_mask_mod
    sched_ok_z_sched_wait sched_ok_z_sched_wake z_sched_wake_all_def sched_ok_z_sched_wake_all
    sched_ok_reschedule sched_ok_time_slice_set sched_ok_object_timeout sched_ok_clock_elapsed
    sched_ok_isr_enter sched_ok_isr_exit sched_ok_irq_mask
    del: z_sched_wake_all_loop.simps)

lemma reachable_sched_ok: "reachable k \<Longrightarrow> sched_ok k"
  by (induction rule: reachable.induct) (blast intro: boot_uniprocessor kstep_sched_ok)+

section \<open>The scheduling policy\<close>

definition allowed :: "kernel \<Rightarrow> tid \<Rightarrow> bool" where
  "allowed k t \<longleftrightarrow> (CONFIG_SCHED_CPU_MASK k \<longrightarrow> cpu_mask (threads k t) AND push_bit 0 1 \<noteq> 0)"

text \<open>
  \<open>best_runs\<close>: the running thread is of the highest priority among the threads that
  are ready and allowed on the CPU, or it is runnable and not preemptible.
\<close>

definition best_runs :: "kernel \<Rightarrow> bool" where
  "best_runs k \<longleftrightarrow>
     (\<not> z_is_thread_prevented_from_running (threads k (cur0 k)) \<and> \<not> is_preempt (threads k (cur0 k))) \<or>
     z_is_thread_ready k (cur0 k) \<and>
     (\<forall>t. t \<noteq> idle0 k \<and> z_is_thread_ready k t \<and> allowed k t \<longrightarrow>
          cur0 k \<noteq> idle0 k \<and> prio_of (threads k (cur0 k)) \<le> prio_of (threads k t))"

lemma runq_best_highest:
  assumes "runq_ok k" "t \<in> set (runq k)" "allowed k t"
  shows "\<exists>b. runq_best 0 k = Some b \<and> b \<in> set (runq k) \<and> prio_of (threads k b) \<le> prio_of (threads k t)"
proof -
  have d: "dumb_invar (threads k) (runq k)"
    using assms(1) by (simp add: runq_ok_def dumb_invar_def prio_key_def [abs_def])
  show ?thesis
  proof (cases "CONFIG_SCHED_CPU_MASK k")
    case False
    then show ?thesis
      using dumbq.best_is_highest [OF d assms(2)] by (simp add: runq_best_def)
  next
    case True
    then show ?thesis
      using d assms(2,3) priq_dumb_mask_best_best [of "threads k" "runq k" t 0]
      by (auto simp: runq_best_def allowed_def)
  qed
qed

lemma next_up_best:
  assumes "sched_ok k" "t \<noteq> idle0 k" "z_is_thread_ready k t" "allowed k t"
  shows "next_up_uniprocessor 0 k \<noteq> idle0 k \<and>
    prio_of (threads k (next_up_uniprocessor 0 k)) \<le> prio_of (threads k t)"
proof -
  have inv: "kinv k" using assms(1) by (simp add: sched_ok_def)
  have rq: "runq_ok k" using inv by (simp add: kinv_but_def)
  have "t \<in> set (runq k)"
    using kinv_queued [OF inv, of t] assms(2,3) rq by (simp add: runq_ok_def)
  from runq_best_highest [OF rq this assms(4)] obtain b where
    b: "runq_best 0 k = Some b" "b \<in> set (runq k)" "prio_of (threads k b) \<le> prio_of (threads k t)" by blast
  then have "b \<noteq> idle0 k" using rq by (auto simp: runq_ok_def)
  then show ?thesis using b by (simp add: next_up_uniprocessor_def)
qed

lemma settled_best_runs:
  assumes "sched_ok k" "cur0 k = cache k"
  shows "best_runs k"
proof (cases "cache k = next_up_uniprocessor 0 k")
  case True
  then show ?thesis
    using assms next_up_best [OF assms(1)] next_up_ready [OF sched_okD(1) [OF assms(1)]]
    by (auto simp: best_runs_def)
next
  case False
  then show ?thesis using assms by (simp add: best_runs_def sched_ok_def cache_ok_def)
qed

lemma isr_exit_settled:
  assumes "sched_ok k" "nested (cpus k 0) = 1"
  shows "cur0 (isr_exit k) = cache (isr_exit k)"
  using assms by (simp add: isr_exit_def Let_def z_get_next_switch_handle_def set_current_def current_thread_def)

lemma reschedule_settled:
  assumes "sched_ok k" "\<not> irq_masked (cpus k 0)" "nested (cpus k 0) = 0"
  shows "cur0 (z_reschedule 0 k) = cache (z_reschedule 0 k)"
  using assms
  by (simp add: z_reschedule_def resched_uniprocessor need_swap_def z_swap_def do_swap_fields arch_is_in_isr_def)

lemma swap_settled: "sched_ok k \<Longrightarrow> cur0 (z_swap 0 k) = cache (z_swap 0 k)"
  by (simp add: z_swap_def do_swap_fields)

end
