(* ===== verification/Wait_Object.thy ===== *)
theory Wait_Object
  imports Sched_Machine
begin

text \<open>
  What the kernel objects share: a wait queue in which threads block, and operations that
  wake the first waiter. The lemmas say what these calls of the scheduler do to the wait
  queues and to the invariants. Locale \<open>kernel_object\<close> is the contract between an object
  and the rest of the system: its operations keep the scheduler's invariants and the
  object's own, and nothing else adds a waiter to its queue.
\<close>

section \<open>Waking the first waiter\<close>

lemma z_unpend_first_thread_cases:
  "z_unpend_first_thread w k =
     (case waitqs k w of [] \<Rightarrow> (None, k)
      | t # _ \<Rightarrow> (Some t, snd (z_abort_thread_timeout t (unpend_thread_no_timeout t k))))"
  by (simp add: z_unpend_first_thread_def z_priq_dumb_best_def split: list.split)

lemma waiters_distinct: "sched_ok k \<Longrightarrow> distinct (waitqs k w)"
  by (simp add: sched_ok_def kinv_but_def waitq_ok_def)

lemma waiter_not_idle: "sched_ok k \<Longrightarrow> t \<in> set (waitqs k w) \<Longrightarrow> t \<noteq> idle0 k"
  using pended_not_idle [of "{}" k t w] waitq_member [of "{}" k t w] by (simp add: sched_ok_def)

lemma waitqs_unpend_first:
  assumes "sched_ok k" "waitqs k w = t # ts"
  shows "waitqs (snd (z_unpend_first_thread w k)) = (waitqs k)(w := ts)"
proof -
  have "pended_on (threads k t) = Some w"
    using waitq_member [of "{}" k t w] assms by (simp add: sched_ok_def)
  then show ?thesis
    using assms(2) by (auto simp: z_unpend_first_thread_cases waitqs_unpend fun_eq_iff)
qed

text \<open>
  \<open>woken v d t w k\<close>: thread \<open>t\<close>, the first waiter of \<open>w\<close>, is made ready with
  return value \<open>v\<close> and data \<open>d\<close>; the two ways in which the objects do it.
\<close>

lemma wake_first:
  assumes "sched_ok k" "waitqs k w = t # ts" "k1 = snd (z_unpend_first_thread w k)"
  shows "sched_ok (z_ready_thread 0 t (arch_thread_return_value_set t v k1))"
    and "waitqs (z_ready_thread 0 t (arch_thread_return_value_set t v k1)) = (waitqs k)(w := ts)"
    and "sched_ok (z_ready_thread 0 t (z_thread_return_value_set_with_data t v d k1))"
    and "waitqs (z_ready_thread 0 t (z_thread_return_value_set_with_data t v d k1)) = (waitqs k)(w := ts)"
    and "idle0 (z_ready_thread 0 t (arch_thread_return_value_set t v k1)) = idle0 k"
    and "idle0 (z_ready_thread 0 t (z_thread_return_value_set_with_data t v d k1)) = idle0 k"
proof -
  have r: "z_unpend_first_thread w k = (Some t, k1)"
    using assms(2,3) by (simp add: z_unpend_first_thread_cases)
  have o: "sched_ok_but {t} k1" "t \<noteq> idle0 k1" "\<not> z_is_thread_queued (threads k1 t)"
    using sched_ok_z_unpend_first_thread [OF _ r, of "{}"] assms(1) by (auto simp: sched_ok_but_empty)
  have v: "sched_ok_but {t} (arch_thread_return_value_set t v k1)"
    unfolding arch_thread_return_value_set_def using o(1) by (rule sched_ok_upd_retval)
  have d: "sched_ok_but {t} (z_thread_return_value_set_with_data t v d k1)"
    unfolding z_thread_return_value_set_with_data_def arch_thread_return_value_set_def
    using o(1) by (intro sched_ok_upd_retval)
  have smp: "\<not> CONFIG_SMP k1" using o(1) kinv_not_smp by (auto simp: sched_ok_but_def)
  have w: "waitqs k1 = (waitqs k)(w := ts)" using waitqs_unpend_first assms by simp
  show "sched_ok (z_ready_thread 0 t (arch_thread_return_value_set t v k1))"
    using sched_ok_ready_thread [OF v] o smp
    by (simp add: z_ready_thread_uniprocessor sched_ok_but_empty arch_thread_return_value_set_def bit_thread_state)
  show "sched_ok (z_ready_thread 0 t (z_thread_return_value_set_with_data t v d k1))"
    using sched_ok_ready_thread [OF d] o smp
    by (simp add: z_ready_thread_uniprocessor sched_ok_but_empty z_thread_return_value_set_with_data_def
        arch_thread_return_value_set_def bit_thread_state)
  show "waitqs (z_ready_thread 0 t (arch_thread_return_value_set t v k1)) = (waitqs k)(w := ts)"
    "waitqs (z_ready_thread 0 t (z_thread_return_value_set_with_data t v d k1)) = (waitqs k)(w := ts)"
    using smp w by (simp_all add: z_ready_thread_uniprocessor arch_thread_return_value_set_def
        z_thread_return_value_set_with_data_def)
  show "idle0 (z_ready_thread 0 t (arch_thread_return_value_set t v k1)) = idle0 k"
    "idle0 (z_ready_thread 0 t (z_thread_return_value_set_with_data t v d k1)) = idle0 k"
    using smp assms(2,3) by (simp_all add: z_ready_thread_uniprocessor arch_thread_return_value_set_def
        z_thread_return_value_set_with_data_def z_unpend_first_thread_cases)
qed

text \<open>
  The loop with which an object wakes all its waiters with one return value: it runs until
  no waiter is left and counts the threads it woke. The length of the queue bounds it.
\<close>

fun wake_loop :: "nat \<Rightarrow> cpu_id \<Rightarrow> nat \<Rightarrow> int \<Rightarrow> kernel \<Rightarrow> nat \<times> kernel" where
  "wake_loop 0 c w v k = (0, k)"
| "wake_loop (Suc n) c w v k =
     (case z_unpend_first_thread (ObjQ w) k of
        (None, k) \<Rightarrow> (0, k)
      | (Some t, k) \<Rightarrow>
          let (woken, k) = wake_loop n c w v (z_ready_thread c t (arch_thread_return_value_set t v k))
          in (Suc woken, k))"

lemma wake_loop_ok:
  assumes "sched_ok k" "length (waitqs k (ObjQ w)) \<le> n"
  shows "fst (wake_loop n 0 w v k) = length (waitqs k (ObjQ w)) \<and> sched_ok (snd (wake_loop n 0 w v k)) \<and>
    waitqs (snd (wake_loop n 0 w v k)) = (waitqs k)(ObjQ w := []) \<and> idle0 (snd (wake_loop n 0 w v k)) = idle0 k"
  using assms
proof (induction n arbitrary: k)
  case (Suc n)
  show ?case
  proof (cases "waitqs k (ObjQ w)")
    case Nil
    then show ?thesis using Suc.prems by (auto simp: z_unpend_first_thread_cases)
  next
    case (Cons t ts)
    define k1 where "k1 = snd (z_unpend_first_thread (ObjQ w) k)"
    define k2 where "k2 = z_ready_thread 0 t (arch_thread_return_value_set t v k1)"
    have l: "wake_loop (Suc n) 0 w v k = (Suc (fst (wake_loop n 0 w v k2)), snd (wake_loop n 0 w v k2))"
      using Cons by (simp add: z_unpend_first_thread_cases k1_def k2_def split_beta)
    note f = wake_first(1,2,5) [OF Suc.prems(1) Cons k1_def, where v = v, folded k2_def]
    show ?thesis
      unfolding l using Suc.IH [OF f(1)] Suc.prems(2) Cons f(2,3) by (auto simp: fun_eq_iff)
  qed
qed auto

section \<open>Blocking\<close>

lemma waitqs_z_pend_curr:
  assumes "sched_ok k"
  shows "waitqs (z_pend_curr 0 (Some w) d k) =
    (waitqs k)(w := insort_after (prio_key (threads k)) (cur0 k) (waitqs k w))"
proof -
  have "\<not> CONFIG_SMP (pend 0 (cur0 k) (Some w) d k)" using assms by (simp add: pend_def)
  then show ?thesis
    by (simp add: z_pend_curr_def z_swap_def do_swap_fields pend_def waitqs_add_to_waitq)
qed

lemma idle_z_pend_curr [simp]: "sched_ok k \<Longrightarrow> idle0 (z_pend_curr 0 (Some w) d k) = idle0 k"
  by (simp add: z_pend_curr_def z_swap_def do_swap_fields pend_def)

lemma sched_ok_block: "sched_ok k \<Longrightarrow> running k \<Longrightarrow> sched_ok (z_pend_curr 0 (Some w) d k)"
  using sched_ok_z_pend_curr(1) running_not_pended by (simp add: running_def)

text \<open>Blocking with the address of the caller's buffer, and waking the first waiter.\<close>

lemma block_with_data:
  assumes "sched_ok k" "running k"
    and "k' = z_pend_curr 0 (Some w) d (upd_thread (cur0 k) (\<lambda>th. th\<lparr>swap_data := x\<rparr>) k)"
  shows "sched_ok k'" "idle0 k' = idle0 k"
    "waitqs k' = (waitqs k)(w := insort_after (prio_key (threads k)) (cur0 k) (waitqs k w))"
proof -
  let ?k = "upd_thread (cur0 k) (\<lambda>th. th\<lparr>swap_data := x\<rparr>) k"
  have ok: "sched_ok ?k"
    using sched_ok_upd_retval(2) [of "{}" k] assms(1) by (simp add: sched_ok_but_empty)
  have f: "cur0 ?k = cur0 k" "idle0 ?k = idle0 k" "waitqs ?k = waitqs k" by (simp_all add: current_thread_def)
  have p: "prio_key (threads ?k) = prio_key (threads k)" by (auto simp: prio_key_def fun_eq_iff)
  have "cur0 ?k \<noteq> idle0 ?k" "pended_on (threads ?k (cur0 ?k)) = None"
    using running_not_pended [OF assms(1,2)] assms(2) f by (simp_all add: running_def)
  then show "sched_ok k'" using sched_ok_z_pend_curr(1) [OF ok] by (simp add: assms(3))
  show "idle0 k' = idle0 k" "waitqs k' = (waitqs k)(w := insort_after (prio_key (threads k)) (cur0 k) (waitqs k w))"
    using ok f p by (simp_all add: assms(3) waitqs_z_pend_curr)
qed

section \<open>The other steps of the kernel add no waiter\<close>

definition waiters_shrink :: "kernel \<Rightarrow> kernel \<Rightarrow> bool" where
  "waiters_shrink k k' \<longleftrightarrow>
     idle0 k' = idle0 k \<and> (\<forall>n. set (waitqs k' (ObjQ n)) \<subseteq> set (waitqs k (ObjQ n)))"

lemma waiters_shrink_refl [simp]: "waitqs k' = waitqs k \<Longrightarrow> idle0 k' = idle0 k \<Longrightarrow> waiters_shrink k k'"
  by (simp add: waiters_shrink_def)

lemma waiters_shrink_trans: "waiters_shrink k k' \<Longrightarrow> waiters_shrink k' k'' \<Longrightarrow> waiters_shrink k k''"
  by (auto simp: waiters_shrink_def)

lemma shrink_unpend [simp]: "waiters_shrink k (unpend_thread_no_timeout t k)"
  by (auto simp: waiters_shrink_def waitqs_unpend dest: set_remove1_subset [THEN subsetD])

lemma waitqs_swap [simp]:
  "\<not> CONFIG_SMP k \<Longrightarrow> waitqs (z_swap 0 k) = waitqs k"
  "\<not> CONFIG_SMP k \<Longrightarrow> idle0 (z_swap 0 k) = idle0 k"
  by (simp_all add: z_swap_def do_swap_fields)

lemma waitqs_reschedules [simp]:
  "\<not> CONFIG_SMP k \<Longrightarrow> idle0 (z_reschedule 0 k) = idle0 k"
  "\<not> CONFIG_SMP k \<Longrightarrow> idle0 (z_reschedule_unlocked 0 k) = idle0 k"
  "\<not> CONFIG_SMP k \<Longrightarrow> waitqs (z_reschedule 0 k) = waitqs k"
  "\<not> CONFIG_SMP k \<Longrightarrow> waitqs (z_reschedule_unlocked 0 k) = waitqs k"
  by (simp_all add: z_reschedule_def z_reschedule_unlocked_def z_reschedule_irqlock_def resched_uniprocessor
      z_swap_irqlock_def z_swap_def do_swap_fields)

lemma waitqs_starting [simp]:
  assumes "\<not> CONFIG_SMP k"
  shows "waitqs (z_sched_start 0 t k) = waitqs k" "waitqs (k_thread_suspend 0 t k) = waitqs k"
    "waitqs (k_thread_resume 0 t k) = waitqs k" "waitqs (k_wakeup 0 t k) = waitqs k"
    "waitqs (k_yield 0 k) = waitqs k"
    "idle0 (z_sched_start 0 t k) = idle0 k" "idle0 (k_thread_suspend 0 t k) = idle0 k"
    "idle0 (k_thread_resume 0 t k) = idle0 k" "idle0 (k_wakeup 0 t k) = idle0 k"
    "idle0 (k_yield 0 k) = idle0 k"
  using assms
  by (simp_all add: z_sched_start_def k_thread_suspend_def k_thread_resume_def k_wakeup_def k_yield_def
      z_mark_thread_as_started_def z_mark_thread_as_suspended_def z_mark_thread_as_not_suspended_def
      Let_def z_ready_thread_uniprocessor split_beta)

lemma waitqs_priority [simp]:
  assumes "\<not> CONFIG_SMP k"
  shows "waitqs (k_thread_priority_set 0 t p k) = waitqs k" "waitqs (k_sched_lock 0 k) = waitqs k"
    "waitqs (k_sched_unlock 0 k) = waitqs k" "waitqs (snd (cpu_mask_mod t e d k)) = waitqs k"
    "waitqs (snd (k_sleep 0 tm k)) = waitqs k" "waitqs (k_sched_time_slice_set 0 ms i k) = waitqs k"
    "idle0 (k_thread_priority_set 0 t p k) = idle0 k" "idle0 (k_sched_lock 0 k) = idle0 k"
    "idle0 (k_sched_unlock 0 k) = idle0 k" "idle0 (snd (cpu_mask_mod t e d k)) = idle0 k"
    "idle0 (snd (k_sleep 0 tm k)) = idle0 k" "idle0 (k_sched_time_slice_set 0 ms i k) = idle0 k"
  using assms
  by (simp_all add: k_thread_priority_set_def z_thread_priority_set_def z_set_prio_def k_sched_lock_def
      z_sched_lock_def k_sched_unlock_def cpu_mask_mod_def k_sleep_def z_tick_sleep_def Let_def
      z_mark_thread_as_suspended_def k_sched_time_slice_set_def)

lemma wake_and_reschedule:
  assumes "sched_ok k" "waitqs k w = t # ts" "k1 = snd (z_unpend_first_thread w k)"
    and "k' = z_reschedule 0 (z_ready_thread 0 t (arch_thread_return_value_set t v k1)) \<or>
      k' = z_reschedule 0 (z_ready_thread 0 t (z_thread_return_value_set_with_data t v d k1))"
  shows "sched_ok k'" "idle0 k' = idle0 k" "waitqs k' = (waitqs k)(w := ts)"
proof -
  obtain k2 where k2: "sched_ok k2" "idle0 k2 = idle0 k" "waitqs k2 = (waitqs k)(w := ts)" "k' = z_reschedule 0 k2"
    using assms(4) wake_first(1,2,5) [OF assms(1-3), where v = v]
      wake_first(3,4,6) [OF assms(1-3), where v = v and d = d] by blast
  show "sched_ok k'" "idle0 k' = idle0 k" "waitqs k' = (waitqs k)(w := ts)"
    using k2 sched_ok_reschedule [OF k2(1)] sched_ok_smp [OF k2(1)] by simp_all
qed

lemma shrink_unpend_all: "waiters_shrink k (unpend_all_loop n c w k)"
proof (induction n arbitrary: k)
  case (Suc n)
  have "waiters_shrink k (ready_thread c t (arch_thread_return_value_set t 0
      (snd (z_abort_thread_timeout t (unpend_thread_no_timeout t k)))))" for t
    using shrink_unpend [of k t] by (simp add: waiters_shrink_def arch_thread_return_value_set_def)
  then show ?case
    using Suc.IH by (auto simp: Let_def split: option.split intro: waiters_shrink_trans)
qed simp

lemma shrink_end_thread: "waiters_shrink k (end_thread c t k)"
proof (cases "thread_state (threads k t) AND THREAD_DEAD = 0")
  case True
  define k1 where "k1 = upd_thread t (z_reset_thread_states THREAD_ABORTING)
    (upd_thread t (z_set_thread_states THREAD_DEAD) k)"
  define k2 where "k2 = (if z_is_thread_queued (threads k1 t) then dequeue_thread c t k1 else k1)"
  define k3 where "k3 = (if pended_on (threads k2 t) \<noteq> None then unpend_thread_no_timeout t k2 else k2)"
  have w: "waitqs k2 = waitqs k" "idle0 k2 = idle0 k" by (simp_all add: k2_def k1_def)
  have "waiters_shrink k k3" using shrink_unpend [of k2 t] w by (simp add: k3_def waiters_shrink_def)
  then have "waiters_shrink k (unpend_all c (JoinQ t) (snd (z_abort_thread_timeout t k3)))"
    unfolding unpend_all_def
    by (intro waiters_shrink_trans [OF _ shrink_unpend_all]) (simp add: waiters_shrink_def)
  moreover have "end_thread c t k = update_cache c True (unpend_all c (JoinQ t) (snd (z_abort_thread_timeout t k3)))"
    using True by (simp add: end_thread_def Let_def k1_def k2_def k3_def)
  ultimately show ?thesis by (simp add: waiters_shrink_def)
qed (simp add: end_thread_def)

lemma shrink_thread_abort:
  assumes "sched_ok k" "t \<noteq> idle0 k"
  shows "waiters_shrink k (snd (k_thread_abort 0 t k))"
  using assms(1) shrink_end_thread [of k 0 t] end_thread_uniprocessor(1) [OF assms]
  by (simp add: k_thread_abort_def z_thread_abort_uniprocessor Let_def waiters_shrink_def)

lemma shrink_wake: "waiters_shrink k (snd (z_sched_wake c w v d k))"
proof -
  have "waiters_shrink k (ready_thread c t (snd (z_abort_thread_timeout t (unpend_thread_no_timeout t
      (z_thread_return_value_set_with_data t v d k)))))" for t
    using shrink_unpend [of "z_thread_return_value_set_with_data t v d k" t]
    by (simp add: waiters_shrink_def z_thread_return_value_set_with_data_def arch_thread_return_value_set_def)
  then show ?thesis by (simp add: z_sched_wake_def Let_def split: option.split)
qed

lemma shrink_wake_all: "waiters_shrink k (snd (z_sched_wake_all_loop n c w v d b k))"
proof (induction n arbitrary: b k)
  case (Suc n)
  then show ?case
    using shrink_wake [of k c w v d] waiters_shrink_trans by (auto simp: split_beta)
qed simp

lemma shrink_thread_timeout: "waiters_shrink k (z_thread_timeout c t k)"
  using shrink_unpend [of k t]
  by (auto simp: z_thread_timeout_def Let_def waiters_shrink_def z_mark_thread_as_started_def
      z_mark_thread_as_not_suspended_def)

lemma shrink_thread_create: "reusable t k \<Longrightarrow> sched_ok k \<Longrightarrow> waiters_shrink k (k_thread_create 0 t p opts delay k)"
  by (auto simp: k_thread_create_def schedule_new_thread_def k_thread_start_def waiters_shrink_def Let_def)

lemma shrink_thread_join: "sched_ok k \<Longrightarrow> waiters_shrink k (snd (k_thread_join 0 t d k))"
  using waitqs_z_pend_curr [of k "JoinQ t" d] idle_z_pend_curr [of k "JoinQ t" d]
  by (simp add: waiters_shrink_def k_thread_join_def z_pend_curr_def pend_def Let_def)

lemma shrink_announce:
  assumes "\<And>n s. waiters_shrink (fst s) (fst (fire n s))" "announce_loop fuel c fire s = Some s'"
  shows "waiters_shrink (fst s) (fst s')"
  using assms(2)
proof (induction fuel arbitrary: s)
  case (Suc fuel)
  show ?case
  proof (cases "timeout_list (fst s)")
    case (Cons e rest)
    obtain to dt where e: "e = (to, dt)" by (cases e)
    let ?s = "(announce_pop to dt rest (fst s), snd s)"
    have "waiters_shrink (fst ?s) (fst (fire_timeout c fire to ?s))"
      using assms(1) [of ?s] shrink_thread_timeout [of "fst ?s" c]
      by (cases to) (simp_all add: fire_timeout_def)
    then have "waiters_shrink (fst s) (fst (fire_timeout c fire to ?s))"
      by (simp add: waiters_shrink_def)
    then show ?thesis
      using Suc Cons e waiters_shrink_trans by (auto split: if_splits)
  qed (use Suc.prems in simp)
qed simp

lemma shrink_sys_clock_announce:
  assumes "\<And>n s. waiters_shrink (fst s) (fst (fire n s))" "sys_clock_announce fuel c fire ticks s = Some s'"
  shows "waiters_shrink (fst s) (fst s')"
proof -
  let ?k = "(z_time_slice c ticks (fst s))\<lparr>announce_remaining := ticks\<rparr>"
  have w: "waitqs ?k = waitqs (fst s)"
    by (simp add: z_time_slice_def move_thread_to_end_of_prio_q_def Let_def)
  obtain s1 where l: "announce_loop fuel c fire (?k, snd s) = Some s1" "s' = (announce_finish c (fst s1), snd s1)"
    using assms(2) by (auto simp: sys_clock_announce_def Let_def)
  show ?thesis using shrink_announce [OF assms(1) l(1)] l(2) w by (simp add: waiters_shrink_def)
qed

text \<open>Only waiting on an object's queue adds a waiter to it.\<close>

lemma kstep_waiters:
  assumes "kstep k k'" "sched_ok k"
  shows "waiters_shrink k k' \<or> (\<exists>n d. k' = z_sched_wait 0 (ObjQ n) d k)"
  using assms
proof (induction rule: kstep.induct)
  case (tick fuel ticks k s)
  then show ?case using shrink_sys_clock_announce [OF _ tick(1)] by simp
next
  case (exit k)
  then show ?case by (simp add: isr_exit_def Let_def z_get_next_switch_handle_def set_current_def)
qed (auto simp: k_thread_start_def shrink_thread_create shrink_thread_join shrink_thread_abort shrink_wake
    z_sched_wake_all_def shrink_wake_all isr_enter_def irq_mask_def simp del: z_sched_wake_all_loop.simps)

section \<open>The contract of a kernel object\<close>

text \<open>
  \<open>step\<close> is one call of the object's interface, on the object and the kernel; \<open>wq\<close> the
  number of the object's wait queue; \<open>ok ob i ws\<close> the object's invariant when \<open>i\<close> is the
  idle thread and \<open>ws\<close> are the threads waiting for the object. It must survive a waiter
  that leaves, since timeouts and aborts take threads off the queue without the object.
\<close>

locale kernel_object =
  fixes step :: "'o \<times> kernel \<Rightarrow> 'o \<times> kernel \<Rightarrow> bool"
    and wq :: "'o \<Rightarrow> nat"
    and ok :: "'o \<Rightarrow> tid \<Rightarrow> tid list \<Rightarrow> bool"
  assumes step_sched_ok: "step (ob, k) (ob', k') \<Longrightarrow> sched_ok k \<Longrightarrow> ok ob (idle0 k) (waitqs k (ObjQ (wq ob))) \<Longrightarrow>
      sched_ok k' \<and> idle0 k' = idle0 k"
    and step_ok: "step (ob, k) (ob', k') \<Longrightarrow> sched_ok k \<Longrightarrow> ok ob (idle0 k) (waitqs k (ObjQ (wq ob))) \<Longrightarrow>
      wq ob' = wq ob \<and> ok ob' (idle0 k) (waitqs k' (ObjQ (wq ob)))"
    and step_frame: "step (ob, k) (ob', k') \<Longrightarrow> sched_ok k \<Longrightarrow> ok ob (idle0 k) (waitqs k (ObjQ (wq ob))) \<Longrightarrow>
      n \<noteq> wq ob \<Longrightarrow> set (waitqs k' (ObjQ n)) \<subseteq> set (waitqs k (ObjQ n))"
    and ok_shrink: "ok ob i ws \<Longrightarrow> set ws' \<subseteq> set ws \<Longrightarrow> ok ob i ws'"
begin

definition inv :: "'o \<times> kernel \<Rightarrow> bool" where
  "inv s \<longleftrightarrow> sched_ok (snd s) \<and> ok (fst s) (idle0 (snd s)) (waitqs (snd s) (ObjQ (wq (fst s))))"

lemma inv_step: "inv s \<Longrightarrow> step s s' \<Longrightarrow> inv s'"
  using step_sched_ok [of "fst s" "snd s" "fst s'" "snd s'"] step_ok [of "fst s" "snd s" "fst s'" "snd s'"]
  by (simp add: inv_def)

lemma ok_environment:
  "ok ob (idle0 k) (waitqs k (ObjQ (wq ob))) \<Longrightarrow> waiters_shrink k k' \<Longrightarrow>
   ok ob (idle0 k') (waitqs k' (ObjQ (wq ob)))"
  unfolding waiters_shrink_def using ok_shrink [of ob "idle0 k" "waitqs k (ObjQ (wq ob))"] by simp

lemma inv_kstep: "inv (ob, k) \<Longrightarrow> kstep k k' \<Longrightarrow> waiters_shrink k k' \<Longrightarrow> inv (ob, k')"
  using kstep_sched_ok ok_environment unfolding inv_def by auto

text \<open>Two objects with different wait queues do not disturb each other.\<close>

lemma step_other_object:
  "inv s \<Longrightarrow> step s s' \<Longrightarrow> n \<noteq> wq (fst s) \<Longrightarrow>
   set (waitqs (snd s') (ObjQ n)) \<subseteq> set (waitqs (snd s) (ObjQ n))"
  using step_frame [of "fst s" "snd s" "fst s'" "snd s'"] by (simp add: inv_def)

end

end
