(* ===== verification/Sample_State.thy ===== *)
theory Sample_State
  imports Wait_Object
begin

text \<open>
  A small concrete kernel on which the theorems about kernel objects are instantiated:
  thread 0 is the idle thread, thread 7 runs with priority 5, and threads 2 and 3, of
  priorities 1 and 3, wait in the queue of one object. It satisfies every invariant.
\<close>

definition sample_kernel :: "nat \<Rightarrow> kernel" where
  "sample_kernel w =
     (bss_kernel False False 1)\<lparr>
       threads := (\<lambda>t.
         if t = 0 then no_thread\<lparr>thread_state := 0, prio := 15\<rparr>
         else if t = 7 then no_thread\<lparr>thread_state := THREAD_QUEUED, prio := 5\<rparr>
         else if t = 2 then no_thread\<lparr>thread_state := THREAD_PENDING, prio := 1, pended_on := Some (ObjQ w)\<rparr>
         else if t = 3 then no_thread\<lparr>thread_state := THREAD_PENDING, prio := 3, pended_on := Some (ObjQ w)\<rparr>
         else no_thread),
       cpus := (\<lambda>_. \<lparr>nested = 0, current = 7, idle_thread = 0, slice_ticks = 0, swap_ok = False,
                     irq_masked = False\<rparr>),
       cache := 7, runq := [7], waitqs := (\<lambda>_. [])(ObjQ w := [2, 3])\<rparr>"

lemma sample_kernel_fields [simp]:
  "waitqs (sample_kernel w) = (\<lambda>_. [])(ObjQ w := [2, 3])" "idle0 (sample_kernel w) = 0"
  "cur0 (sample_kernel w) = 7" "timeout_list (sample_kernel w) = []" "runq (sample_kernel w) = [7]"
  "cache (sample_kernel w) = 7" "\<not> CONFIG_SMP (sample_kernel w)"
  "irq_masked (cpus (sample_kernel w) i) = False" "nested (cpus (sample_kernel w) i) = 0"
  "prio (threads (sample_kernel w) 7) = 5" "prio (threads (sample_kernel w) 2) = 1"
  "clock_elapsed (sample_kernel w) = 0" "\<not> CONFIG_SCHED_CPU_MASK (sample_kernel w)"
  by (simp_all add: sample_kernel_def bss_kernel_def current_thread_def)

lemma sample_kernel_ok: "sched_ok (sample_kernel w)"
proof -
  let ?k = "sample_kernel w"
  have th: "threads ?k t = (if t = 0 then no_thread\<lparr>thread_state := 0, prio := 15\<rparr>
         else if t = 7 then no_thread\<lparr>thread_state := THREAD_QUEUED, prio := 5\<rparr>
         else if t = 2 then no_thread\<lparr>thread_state := THREAD_PENDING, prio := 1, pended_on := Some (ObjQ w)\<rparr>
         else if t = 3 then no_thread\<lparr>thread_state := THREAD_PENDING, prio := 3, pended_on := Some (ObjQ w)\<rparr>
         else no_thread)" for t by (simp add: sample_kernel_def)
  have st: "z_is_thread_queued (threads ?k t) \<longleftrightarrow> t = 7" "z_is_thread_pending (threads ?k t) \<longleftrightarrow> t = 2 \<or> t = 3"
    "z_is_thread_ready ?k t \<longleftrightarrow> t = 0 \<or> t = 7" "\<not> is_aborting (threads ?k t)"
    "pended_on (threads ?k t) = (if t = 2 \<or> t = 3 then Some (ObjQ w) else None)" for t
    by (simp_all add: th no_thread_def z_is_thread_queued_def z_is_thread_state_set_def z_is_thread_pending_def
        z_is_thread_ready_def z_is_thread_prevented_from_running_def z_is_thread_timeout_active_def
        z_is_inactive_timeout_def is_aborting_def)
  have "kinv ?k"
    by (simp add: kinv_parts st tlist_wf_def) auto
  moreover have "cache_ok ?k"
    by (simp add: cache_ok_def next_up_uniprocessor_def runq_best_def z_priq_dumb_best_def)
  moreover have "cur_ok ?k" by (simp add: cur_ok_def z_is_thread_timeout_active_def z_is_inactive_timeout_def)
  ultimately show ?thesis by (simp add: sched_ok_def)
qed

lemma sample_kernel_running: "running (sample_kernel w)"
  by (simp add: running_def z_is_thread_ready_def z_is_thread_prevented_from_running_def no_thread_def
      z_is_thread_timeout_active_def z_is_inactive_timeout_def sample_kernel_def bss_kernel_def current_thread_def)

end
