(* ===== verification/Sem.thy ===== *)
theory Sem
  imports Sample_State
begin

text \<open>
  Semaphores, \<^verbatim>\<open>kernel/sem.c\<close>. Beside its invariant, a semaphore conserves its tokens:
  along any run every token handed to a thread was there at the start or was given.
\<close>

section \<open>Definitions\<close>

record k_sem =
  sem_wait_q :: nat
  count :: u32
  limit :: u32

abbreviation (input) K_SEM_MAX_LIMIT :: u32 where "K_SEM_MAX_LIMIT \<equiv> 0xFFFFFFFF"

definition k_sem_init :: "u32 \<Rightarrow> u32 \<Rightarrow> k_sem \<times> kernel \<Rightarrow> int \<times> (k_sem \<times> kernel)" where
  "k_sem_init initial_count lim s =
     (if lim = 0 \<or> lim > K_SEM_MAX_LIMIT \<or> initial_count > lim then (- EINVAL, s)
      else (0, ((fst s)\<lparr>count := initial_count, limit := lim\<rparr>,
                (snd s)\<lparr>waitqs := (waitqs (snd s))(ObjQ (sem_wait_q (fst s)) := [])\<rparr>)))"

definition k_sem_give :: "cpu_id \<Rightarrow> k_sem \<times> kernel \<Rightarrow> k_sem \<times> kernel" where
  "k_sem_give c s =
     (let sem = fst s;
          (thread, k) = z_unpend_first_thread (ObjQ (sem_wait_q sem)) (snd s)
      in case thread of
           Some t \<Rightarrow> (sem, z_reschedule c (z_ready_thread c t (arch_thread_return_value_set t 0 k)))
         | None \<Rightarrow>
             (sem\<lparr>count := count sem + (if count sem \<noteq> limit sem then 1 else 0)\<rparr>, z_reschedule c k))"

definition k_sem_take :: "cpu_id \<Rightarrow> k_timeout_t \<Rightarrow> k_sem \<times> kernel \<Rightarrow> int outcome \<times> (k_sem \<times> kernel)" where
  "k_sem_take c timeout s =
     (let (sem, k) = s
      in if count sem > 0 then (Returned 0, (sem\<lparr>count := count sem - 1\<rparr>, k))
         else if timeout = K_NO_WAIT then (Returned (- EBUSY), (sem, k))
         else (Blocked, (sem, z_pend_curr c (Some (ObjQ (sem_wait_q sem))) timeout k)))"

definition k_sem_take_resume :: "cpu_id \<Rightarrow> kernel \<Rightarrow> int" where
  "k_sem_take_resume c k = swap_retval (threads k (current_thread c k))"

definition k_sem_reset :: "cpu_id \<Rightarrow> k_sem \<times> kernel \<Rightarrow> k_sem \<times> kernel" where
  "k_sem_reset c s =
     (let (sem, k) = s;
          k = snd (wake_loop (length (waitqs k (ObjQ (sem_wait_q sem)))) c (sem_wait_q sem) (- EAGAIN) k)
      in (sem\<lparr>count := 0\<rparr>, z_reschedule c k))"

definition k_sem_count_get :: "k_sem \<Rightarrow> u32" where
  "k_sem_count_get sem = count sem"

section \<open>Behaviour\<close>

definition sem_ok :: "k_sem \<Rightarrow> tid \<Rightarrow> tid list \<Rightarrow> bool" where
  "sem_ok sem idle ws \<longleftrightarrow> 0 < limit sem \<and> count sem \<le> limit sem \<and> (0 < count sem \<longrightarrow> ws = [])"

lemma k_sem_give_waiter:
  assumes "sched_ok k" "waitqs k (ObjQ (sem_wait_q sem)) = t # ts"
  shows "fst (k_sem_give 0 (sem, k)) = sem"
    and "sched_ok (snd (k_sem_give 0 (sem, k)))"
    and "waitqs (snd (k_sem_give 0 (sem, k))) = (waitqs k)(ObjQ (sem_wait_q sem) := ts)"
    and "idle0 (snd (k_sem_give 0 (sem, k))) = idle0 k"
proof -
  define k1 where "k1 = snd (z_unpend_first_thread (ObjQ (sem_wait_q sem)) k)"
  have g: "k_sem_give 0 (sem, k) =
      (sem, z_reschedule 0 (z_ready_thread 0 t (arch_thread_return_value_set t 0 k1)))"
    using assms(2) by (simp add: k_sem_give_def z_unpend_first_thread_cases k1_def)
  note w = wake_first(1,2,5) [OF assms k1_def]
  show "fst (k_sem_give 0 (sem, k)) = sem" by (simp add: g)
  show "sched_ok (snd (k_sem_give 0 (sem, k)))" using sched_ok_reschedule [OF w(1)] by (simp add: g)
  show "waitqs (snd (k_sem_give 0 (sem, k))) = (waitqs k)(ObjQ (sem_wait_q sem) := ts)"
    using w(2) sched_ok_smp [OF w(1)] by (simp add: g)
  show "idle0 (snd (k_sem_give 0 (sem, k))) = idle0 k" using w(3) sched_ok_smp [OF w(1)] by (simp add: g)
qed

lemma k_sem_give_store:
  assumes "sched_ok k" "waitqs k (ObjQ (sem_wait_q sem)) = []"
  shows "k_sem_give 0 (sem, k) =
    (sem\<lparr>count := count sem + (if count sem \<noteq> limit sem then 1 else 0)\<rparr>, z_reschedule 0 k)"
  using assms by (simp add: k_sem_give_def z_unpend_first_thread_cases)

lemma word_Suc_le: "a \<le> b \<Longrightarrow> a \<noteq> b \<Longrightarrow> a + 1 \<le> b" for a b :: u32
  by (metis inc_le order_le_less)

lemma k_sem_reset_ok:
  assumes "sched_ok k"
  shows "fst (k_sem_reset 0 (sem, k)) = sem\<lparr>count := 0\<rparr>" "sched_ok (snd (k_sem_reset 0 (sem, k)))"
    "waitqs (snd (k_sem_reset 0 (sem, k))) = (waitqs k)(ObjQ (sem_wait_q sem) := [])"
    "idle0 (snd (k_sem_reset 0 (sem, k))) = idle0 k"
  using wake_loop_ok [OF assms order_refl, where v = "- EAGAIN"]
  by (simp_all add: k_sem_reset_def Let_def sched_ok_reschedule)

section \<open>The contract\<close>

inductive sem_step :: "k_sem \<times> kernel \<Rightarrow> k_sem \<times> kernel \<Rightarrow> bool" where
  give: "sem_step s (k_sem_give 0 s)"
| take: "running (snd s) \<or> d = K_NO_WAIT \<Longrightarrow> sem_step s (snd (k_sem_take 0 d s))"
| reset: "sem_step s (k_sem_reset 0 s)"

lemma sem_step_effect:
  assumes "sem_step (sem, k) (sem', k')" "sched_ok k"
  shows "sched_ok k'" "idle0 k' = idle0 k" "sem_wait_q sem' = sem_wait_q sem"
    "n \<noteq> sem_wait_q sem \<Longrightarrow> waitqs k' (ObjQ n) = waitqs k (ObjQ n)"
    "sem_ok sem (idle0 k) (waitqs k (ObjQ (sem_wait_q sem))) \<Longrightarrow>
     sem_ok sem' (idle0 k) (waitqs k' (ObjQ (sem_wait_q sem)))"
proof -
  let ?q = "ObjQ (sem_wait_q sem)"
  have "sched_ok k' \<and> idle0 k' = idle0 k \<and> sem_wait_q sem' = sem_wait_q sem \<and>
    (n \<noteq> sem_wait_q sem \<longrightarrow> waitqs k' (ObjQ n) = waitqs k (ObjQ n)) \<and>
    (sem_ok sem (idle0 k) (waitqs k ?q) \<longrightarrow> sem_ok sem' (idle0 k) (waitqs k' ?q))"
    using assms(1)
  proof cases
    case give
    then show ?thesis
      using assms(2) k_sem_give_waiter k_sem_give_store sched_ok_reschedule
      by (cases "waitqs k ?q") (auto simp: sem_ok_def word_Suc_le prod_eq_iff)
  next
    case (take d)
    then show ?thesis using assms(2)
      by (auto simp: k_sem_take_def sem_ok_def sched_ok_block waitqs_z_pend_curr word_less_nat_alt
          word_le_nat_alt unat_sub_if' split: if_splits)
  next
    case reset
    then show ?thesis using assms(2) k_sem_reset_ok [of k sem] by (auto simp: sem_ok_def prod_eq_iff)
  qed
  then show "sched_ok k'" "idle0 k' = idle0 k" "sem_wait_q sem' = sem_wait_q sem"
    "n \<noteq> sem_wait_q sem \<Longrightarrow> waitqs k' (ObjQ n) = waitqs k (ObjQ n)"
    "sem_ok sem (idle0 k) (waitqs k ?q) \<Longrightarrow> sem_ok sem' (idle0 k) (waitqs k' ?q)" by blast+
qed

interpretation sem: kernel_object sem_step sem_wait_q sem_ok
proof unfold_locales
  show "sem_ok ob i ws \<Longrightarrow> set ws' \<subseteq> set ws \<Longrightarrow> sem_ok ob i ws'" for ob i ws ws'
    by (auto simp: sem_ok_def)
qed (auto dest: sem_step_effect)

section \<open>Tokens are conserved\<close>

text \<open>
  \<open>sem_run s gives grants dropped s'\<close>: a run without resets from \<open>s\<close> to \<open>s'\<close> in
  which the semaphore was given \<open>gives\<close> times, a thread obtained a token \<open>grants\<close>
  times (a take that returned 0, or a give that woke a waiter with 0), and \<open>dropped\<close>
  gives found the count at its limit. Other steps of the kernel interleave.
\<close>

inductive sem_run :: "k_sem \<times> kernel \<Rightarrow> nat \<Rightarrow> nat \<Rightarrow> nat \<Rightarrow> k_sem \<times> kernel \<Rightarrow> bool" where
  refl: "sem_run s 0 0 0 s"
| give_waiter: "sem_run s g a d (sem, k) \<Longrightarrow> waitqs k (ObjQ (sem_wait_q sem)) \<noteq> [] \<Longrightarrow>
    sem_run s (Suc g) (Suc a) d (k_sem_give 0 (sem, k))"
| give_stored: "sem_run s g a d (sem, k) \<Longrightarrow> waitqs k (ObjQ (sem_wait_q sem)) = [] \<Longrightarrow>
    count sem \<noteq> limit sem \<Longrightarrow> sem_run s (Suc g) a d (k_sem_give 0 (sem, k))"
| give_dropped: "sem_run s g a d (sem, k) \<Longrightarrow> waitqs k (ObjQ (sem_wait_q sem)) = [] \<Longrightarrow>
    count sem = limit sem \<Longrightarrow> sem_run s (Suc g) a (Suc d) (k_sem_give 0 (sem, k))"
| taken: "sem_run s g a d s1 \<Longrightarrow> k_sem_take 0 tm s1 = (Returned 0, s2) \<Longrightarrow> sem_run s g (Suc a) d s2"
| not_taken: "sem_run s g a d s1 \<Longrightarrow> k_sem_take 0 tm s1 = (r, s2) \<Longrightarrow> r \<noteq> Returned 0 \<Longrightarrow>
    running (snd s1) \<or> tm = K_NO_WAIT \<Longrightarrow> sem_run s g a d s2"
| kernel: "sem_run s g a d (sem, k) \<Longrightarrow> kstep k k' \<Longrightarrow> waiters_shrink k k' \<Longrightarrow> sem_run s g a d (sem, k')"

lemma k_sem_take_fst:
  "k_sem_take c tm (sem, k) = (r, s2) \<Longrightarrow>
   fst s2 = (if r = Returned 0 then sem\<lparr>count := count sem - 1\<rparr> else sem) \<and> (r = Returned 0 \<longleftrightarrow> 0 < count sem)"
  by (auto simp: k_sem_take_def split: if_splits)

lemma unat_Suc_below: "a \<le> b \<Longrightarrow> a \<noteq> b \<Longrightarrow> unat (a + 1) = Suc (unat a)" for a b :: u32
proof -
  assume "a \<le> b" "a \<noteq> b"
  then have "unat a < unat b" "unat b < 2 ^ 32"
    using unsigned_less [where 'a = nat and w = b] by (simp_all add: word_less_nat_alt [symmetric])
  then have "unat a + 1 < 2 ^ 32" by linarith
  then show ?thesis by (simp add: unat_word_ariths(1))
qed

lemma sem_run_tokens:
  "sem_run s g a d s' \<Longrightarrow> sem.inv s \<Longrightarrow>
   sem.inv s' \<and> a + unat (count (fst s')) + d = unat (count (fst s)) + g"
proof (induction rule: sem_run.induct)
  case (give_waiter s g a d sem k)
  then have i: "sem.inv (sem, k)" by simp
  have "sem.inv (k_sem_give 0 (sem, k))" using sem.inv_step [OF i sem_step.give] .
  moreover have "fst (k_sem_give 0 (sem, k)) = sem"
    using i give_waiter.hyps(2) k_sem_give_waiter(1) by (auto simp: sem.inv_def neq_Nil_conv)
  ultimately show ?case using give_waiter by simp
next
  case (give_stored s g a d sem k)
  then have i: "sem.inv (sem, k)" by simp
  have "sem.inv (k_sem_give 0 (sem, k))" using sem.inv_step [OF i sem_step.give] .
  moreover have "unat (count sem + 1) = Suc (unat (count sem))"
    using i give_stored.hyps(3) unat_Suc_below by (auto simp: sem.inv_def sem_ok_def)
  ultimately show ?case
    using give_stored i k_sem_give_store by (simp add: sem.inv_def)
next
  case (give_dropped s g a d sem k)
  then have i: "sem.inv (sem, k)" by simp
  have "sem.inv (k_sem_give 0 (sem, k))" using sem.inv_step [OF i sem_step.give] .
  then show ?case using give_dropped i k_sem_give_store by (simp add: sem.inv_def)
next
  case (taken s g a d s1 tm s2)
  obtain sem k where s1: "s1 = (sem, k)" by (cases s1)
  note t = k_sem_take_fst [OF taken.hyps(2) [unfolded s1]]
  have "k_sem_take 0 K_NO_WAIT s1 = (Returned 0, s2)"
    using taken.hyps(2) t s1 by (simp add: k_sem_take_def)
  then have "sem_step s1 s2" using sem_step.take [of s1 K_NO_WAIT] by simp
  then have "sem.inv s2" using taken sem.inv_step by blast
  moreover have "unat (count sem - 1) = unat (count sem) - 1" "0 < unat (count sem)"
    using t by (simp_all add: unat_minus_one word_less_nat_alt unat_gt_0)
  ultimately show ?case using taken t s1 by simp
next
  case (not_taken s g a d s1 tm r s2)
  obtain sem k where s1: "s1 = (sem, k)" by (cases s1)
  have "sem_step s1 s2" using sem_step.take [of s1 tm] not_taken.hyps by simp
  then have "sem.inv s2" using not_taken sem.inv_step by blast
  then show ?case using not_taken k_sem_take_fst [OF not_taken.hyps(2) [unfolded s1]] s1 by simp
next
  case (kernel s g a d sem k k')
  then show ?case using sem.inv_kstep [of sem k k'] by simp
qed simp

section \<open>Properties\<close>





end
