(* ===== verification/Frames.thy ===== *)
theory Frames
  imports Sem
begin

text \<open>
  What the kernel calls leave alone: of the threads other than the caller and the one a call
  acts on, only the flag that a thread is queued changes; the interrupt state of the CPU
  changes only when an interrupt is entered or left.
\<close>

section \<open>Frames\<close>

definition keeps :: "tid \<Rightarrow> kernel \<Rightarrow> kernel \<Rightarrow> bool" where
  "keeps t k k' \<longleftrightarrow>
     (\<forall>n. n \<noteq> 7 \<longrightarrow> bit (thread_state (threads k' t)) n = bit (thread_state (threads k t)) n) \<and>
     prio (threads k' t) = prio (threads k t) \<and>
     sched_locked (threads k' t) = sched_locked (threads k t) \<and>
     cpu_mask (threads k' t) = cpu_mask (threads k t) \<and>
     pended_on (threads k' t) = pended_on (threads k t) \<and>
     (ThreadTo t \<in> fst ` set (timeout_list k') \<longleftrightarrow> ThreadTo t \<in> fst ` set (timeout_list k))"

definition same_cpu :: "kernel \<Rightarrow> kernel \<Rightarrow> bool" where
  "same_cpu k k' \<longleftrightarrow>
     nested (cpus k' 0) = nested (cpus k 0) \<and> irq_masked (cpus k' 0) = irq_masked (cpus k 0) \<and>
     idle0 k' = idle0 k \<and> CONFIG_SCHED_CPU_MASK k' = CONFIG_SCHED_CPU_MASK k \<and> CONFIG_SMP k' = CONFIG_SMP k"

lemma keeps_refl [simp]: "keeps t k k"
  by (simp add: keeps_def)

lemma keeps_trans [trans]: "keeps t k k' \<Longrightarrow> keeps t k' k'' \<Longrightarrow> keeps t k k''"
  by (simp add: keeps_def)

lemma same_cpu_refl [simp]: "same_cpu k k"
  by (simp add: same_cpu_def)

lemma same_cpu_trans [trans]: "same_cpu k k' \<Longrightarrow> same_cpu k' k'' \<Longrightarrow> same_cpu k k''"
  by (simp add: same_cpu_def)

lemma keeps_ready: "keeps t k k' \<Longrightarrow> z_is_thread_ready k' t = z_is_thread_ready k t"
  by (simp add: keeps_def state_bits)

lemma keeps_prevented:
  "keeps t k k' \<Longrightarrow> z_is_thread_prevented_from_running (threads k' t) = z_is_thread_prevented_from_running (threads k t)"
  by (simp add: keeps_def prevented_bits)

lemma keeps_preempt: "keeps t k k' \<Longrightarrow> is_preempt (threads k' t) = is_preempt (threads k t)"
  by (simp add: keeps_def is_preempt_iff)

lemma keeps_allowed: "keeps t k k' \<Longrightarrow> same_cpu k k' \<Longrightarrow> allowed k' t = allowed k t"
  by (simp add: keeps_def same_cpu_def allowed_def)

text \<open>The building blocks.\<close>

lemma keeps_upd_thread: "t \<noteq> u \<Longrightarrow> keeps t k (upd_thread u f k)"
  by (simp add: keeps_def)

lemma keeps_update_cache [simp]: "keeps t k (update_cache c b k)" "same_cpu k (update_cache c b k)"
  by (simp_all add: keeps_def same_cpu_def)

lemma keeps_queue_thread [simp]: "keeps t k (queue_thread c u k)" "\<not> CONFIG_SMP k \<Longrightarrow> same_cpu k (queue_thread c u k)"
  by (simp_all add: keeps_def same_cpu_def)

lemma keeps_dequeue_thread [simp]: "keeps t k (dequeue_thread c u k)" "same_cpu k (dequeue_thread c u k)"
  by (simp_all add: keeps_def same_cpu_def)

lemma keeps_ready_thread [simp]:
  "keeps t k (ready_thread c u k)" "\<not> CONFIG_SMP k \<Longrightarrow> same_cpu k (ready_thread c u k)"
  using keeps_trans [OF keeps_queue_thread(1) keeps_update_cache(1)]
    same_cpu_trans [OF keeps_queue_thread(2) keeps_update_cache(2)]
  by (simp_all add: ready_thread_def)

lemma keeps_z_swap [simp]: "\<not> CONFIG_SMP k \<Longrightarrow> keeps t k (z_swap 0 k)" "\<not> CONFIG_SMP k \<Longrightarrow> same_cpu k (z_swap 0 k)"
  by (simp_all add: keeps_def same_cpu_def z_swap_def do_swap_fields)

lemma keeps_z_reschedule [simp]:
  "\<not> CONFIG_SMP k \<Longrightarrow> keeps t k (z_reschedule 0 k)" "\<not> CONFIG_SMP k \<Longrightarrow> same_cpu k (z_reschedule 0 k)"
  "\<not> CONFIG_SMP k \<Longrightarrow> keeps t k (z_reschedule_unlocked 0 k)"
  "\<not> CONFIG_SMP k \<Longrightarrow> same_cpu k (z_reschedule_unlocked 0 k)"
  using keeps_z_swap(1) [of k t] keeps_z_swap(2) [of k]
  by (simp_all add: z_reschedule_def resched_uniprocessor z_reschedule_unlocked_def z_reschedule_irqlock_def
      z_swap_irqlock_def z_swap_def)

lemma same_cpu_upd_thread [simp]: "same_cpu k (upd_thread t f k)"
  by (simp add: same_cpu_def)

lemma keeps_z_add_thread_timeout: "t \<noteq> u \<Longrightarrow> keeps t k (z_add_thread_timeout c u d k)"
  by (simp add: keeps_def z_add_thread_timeout_def timeout_list_add)

lemma same_cpu_z_add_thread_timeout [simp]: "same_cpu k (z_add_thread_timeout c u d k)"
  by (simp add: same_cpu_def z_add_thread_timeout_def)

lemma keeps_z_abort_thread_timeout:
  assumes "tlist_wf (timeout_list k)" "t \<noteq> u"
  shows "keeps t k (snd (z_abort_thread_timeout u k))" "same_cpu k (snd (z_abort_thread_timeout u k))"
  using assms by (auto simp: keeps_def same_cpu_def z_abort_thread_timeout_def timeout_list_abort)

lemma keeps_unpend: "t \<noteq> u \<Longrightarrow> keeps t k (unpend_thread_no_timeout u k)" "same_cpu k (unpend_thread_no_timeout u k)"
  by (simp_all add: keeps_def same_cpu_def)

lemma keeps_unready_thread [simp]: "keeps t k (unready_thread c u k)" "same_cpu k (unready_thread c u k)"
  using keeps_trans [OF keeps_dequeue_thread(1) keeps_update_cache(1)]
    same_cpu_trans [OF keeps_dequeue_thread(2) keeps_update_cache(2)]
  by (simp_all add: unready_thread_def Let_def)

section \<open>Calls\<close>

lemma keeps_setup:
  "t \<noteq> u \<Longrightarrow> keeps t k (z_setup_new_thread u p opts k)" "same_cpu k (z_setup_new_thread u p opts k)"
  by (simp_all add: keeps_def same_cpu_def setup_threads)

lemma keeps_k_sched_lock: "t \<noteq> cur0 k \<Longrightarrow> keeps t k (k_sched_lock 0 k)" "same_cpu k (k_sched_lock 0 k)"
  by (simp_all add: k_sched_lock_def z_sched_lock_def keeps_upd_thread)

lemma keeps_k_sched_unlock:
  assumes "\<not> CONFIG_SMP k"
  shows "t \<noteq> cur0 k \<Longrightarrow> keeps t k (k_sched_unlock 0 k)" "same_cpu k (k_sched_unlock 0 k)"
proof -
  let ?f = "\<lambda>th. th\<lparr>sched_locked := sched_locked th + 1\<rparr>"
  let ?k = "update_cache 0 False (upd_thread (cur0 k) ?f k)"
  have "\<not> CONFIG_SMP ?k" using assms by simp
  note r = keeps_z_reschedule(3) [OF this, of t] keeps_z_reschedule(4) [OF this]
  show "keeps t k (k_sched_unlock 0 k)" if "t \<noteq> cur0 k"
    using keeps_trans [OF keeps_trans [OF keeps_upd_thread [OF that] keeps_update_cache(1)] r(1)]
    by (simp add: k_sched_unlock_def)
  show "same_cpu k (k_sched_unlock 0 k)"
    using same_cpu_trans [OF same_cpu_trans [OF same_cpu_upd_thread keeps_update_cache(2)] r(2)]
    by (simp add: k_sched_unlock_def)
qed

lemma keeps_k_thread_start:
  assumes "\<not> CONFIG_SMP k"
  shows "t \<noteq> u \<Longrightarrow> keeps t k (k_thread_start 0 u k)" "same_cpu k (k_thread_start 0 u k)"
proof -
  let ?k = "ready_thread 0 u (z_mark_thread_as_started u k)"
  have n: "\<not> CONFIG_SMP (z_mark_thread_as_started u k)" using assms by (simp add: z_mark_thread_as_started_def)
  then have "\<not> CONFIG_SMP ?k" by simp
  note r = keeps_z_reschedule(1) [OF this, of t] keeps_z_reschedule(2) [OF this]
  show "keeps t k (k_thread_start 0 u k)" if "t \<noteq> u"
    using keeps_trans [OF keeps_trans [OF keeps_upd_thread [OF that] keeps_ready_thread(1)] r(1) [unfolded z_mark_thread_as_started_def]]
    by (simp add: k_thread_start_def z_sched_start_def z_mark_thread_as_started_def)
  show "same_cpu k (k_thread_start 0 u k)"
    using same_cpu_trans [OF same_cpu_trans [OF same_cpu_upd_thread keeps_ready_thread(2)] r(2) [unfolded z_mark_thread_as_started_def]] n
    by (simp add: k_thread_start_def z_sched_start_def z_mark_thread_as_started_def)
qed

lemma keeps_cpu_mask_mod:
  "t \<noteq> u \<Longrightarrow> keeps t k (snd (cpu_mask_mod u e d k))" "same_cpu k (snd (cpu_mask_mod u e d k))"
  by (simp_all add: cpu_mask_mod_def keeps_upd_thread)

lemma keeps_z_pend_curr:
  assumes "\<not> CONFIG_SMP k"
  shows "t \<noteq> cur0 k \<Longrightarrow> keeps t k (z_pend_curr 0 (Some w) d k)" "same_cpu k (z_pend_curr 0 (Some w) d k)"
proof -
  let ?k = "pend 0 (cur0 k) (Some w) d k"
  have n: "\<not> CONFIG_SMP ?k" using assms by (simp add: pend_def)
  have "keeps t k ?k" if "t \<noteq> cur0 k"
    using that by (simp add: keeps_def pend_def add_thread_timeout_def z_add_thread_timeout_def timeout_list_add
        add_to_waitq_locked_def z_mark_thread_as_pending_def unready_thread_def Let_def)
  then show "keeps t k (z_pend_curr 0 (Some w) d k)" if "t \<noteq> cur0 k"
    using that keeps_trans keeps_z_swap(1) [OF n] by (simp add: z_pend_curr_def)
  have "same_cpu k ?k"
    by (simp add: same_cpu_def pend_def add_thread_timeout_def z_add_thread_timeout_def
        add_to_waitq_locked_def z_mark_thread_as_pending_def unready_thread_def Let_def)
  then show "same_cpu k (z_pend_curr 0 (Some w) d k)"
    using same_cpu_trans keeps_z_swap(2) [OF n] by (simp add: z_pend_curr_def)
qed

text \<open>The waiter that a semaphore wakes.\<close>

definition wake :: "tid \<Rightarrow> kernel \<Rightarrow> kernel" where
  "wake u k = upd_thread u (\<lambda>th. th\<lparr>swap_retval := 0\<rparr>)
     (snd (z_abort_thread_timeout u (unpend_thread_no_timeout u k)))"

lemma keeps_wake:
  assumes "sched_ok k"
  shows "t \<noteq> u \<Longrightarrow> keeps t k (wake u k)" "same_cpu k (wake u k)" "\<not> CONFIG_SMP (wake u k)"
    "ThreadTo u \<notin> fst ` set (timeout_list (wake u k))"
    "thread_state (threads (wake u k) u) = thread_state (threads k u) AND NOT THREAD_PENDING"
proof -
  have "tlist_wf (timeout_list k)" using kinv_tlist [OF sched_okD(1) [OF assms]] by simp
  then have w: "tlist_wf (timeout_list (unpend_thread_no_timeout u k))" by simp
  show "keeps t k (wake u k)" if "t \<noteq> u"
    using keeps_trans [OF keeps_unpend(1) [OF that]
        keeps_trans [OF keeps_z_abort_thread_timeout(1) [OF w that] keeps_upd_thread [OF that]]]
    by (simp add: wake_def)
  show "same_cpu k (wake u k)" "\<not> CONFIG_SMP (wake u k)"
    using assms w by (simp_all add: same_cpu_def wake_def z_abort_thread_timeout_def timeout_list_abort)
  show "ThreadTo u \<notin> fst ` set (timeout_list (wake u k))"
    "thread_state (threads (wake u k) u) = thread_state (threads k u) AND NOT THREAD_PENDING"
    using w by (simp_all add: wake_def z_abort_thread_timeout_def timeout_list_abort z_reset_thread_states_def)
qed

lemma k_sem_give_eq:
  assumes "sched_ok k"
  shows "snd (k_sem_give 0 (sem, k)) = z_reschedule 0
    (case waitqs k (ObjQ (sem_wait_q sem)) of [] \<Rightarrow> k | u # us \<Rightarrow> ready_thread 0 u (wake u k))"
proof (cases "waitqs k (ObjQ (sem_wait_q sem))")
  case Nil
  then show ?thesis using k_sem_give_store [OF assms Nil] by simp
next
  case (Cons u us)
  then show ?thesis using keeps_wake(3) [OF assms, of u]
    by (simp add: k_sem_give_def z_unpend_first_thread_cases wake_def arch_thread_return_value_set_def
        z_ready_thread_uniprocessor)
qed

lemma keeps_k_sem_give:
  assumes "sched_ok k" "t \<notin> set (waitqs k (ObjQ (sem_wait_q sem)))"
  shows "keeps t k (snd (k_sem_give 0 (sem, k)))"
proof (cases "waitqs k (ObjQ (sem_wait_q sem))")
  case Nil
  then show ?thesis using assms by (simp add: k_sem_give_eq)
next
  case (Cons u us)
  then have tu: "t \<noteq> u" using assms(2) by auto
  show ?thesis
    using keeps_trans [OF keeps_wake(1) [OF assms(1) tu] keeps_trans [OF keeps_ready_thread(1) keeps_z_reschedule(1)]]
      keeps_wake(3) [OF assms(1), of u] Cons
    by (simp add: k_sem_give_eq [OF assms(1)])
qed

lemma same_cpu_k_sem_give: "sched_ok k \<Longrightarrow> same_cpu k (snd (k_sem_give 0 (sem, k)))"
  using same_cpu_trans [OF keeps_wake(2) same_cpu_trans [OF keeps_ready_thread(2) keeps_z_reschedule(2)]] keeps_wake(3)
  by (simp add: k_sem_give_eq split: list.splits)

lemma give_wakes:
  assumes "sched_ok k" "waitqs k (ObjQ (sem_wait_q sem)) = t # ts"
    "\<And>n. n \<in> {0, 2, 3, 4} \<Longrightarrow> \<not> bit (thread_state (threads k t)) n"
  shows "z_is_thread_ready (snd (k_sem_give 0 (sem, k))) t"
proof -
  note w = keeps_wake(3-5) [OF assms(1), of t]
  have "z_is_thread_ready (wake t k) t"
    using w(2,3) assms(3) by (simp add: state_bits bit_simps)
  then show ?thesis
    using keeps_ready [OF keeps_trans [OF keeps_ready_thread(1) keeps_z_reschedule(1)]] w(1) assms(1,2)
    by (simp add: k_sem_give_eq)
qed

definition yielding :: "kernel \<Rightarrow> kernel" where
  "yielding k = update_cache 0 True (queue_thread 0 (cur0 k) (dequeue_thread 0 (cur0 k) k))"

definition sleeping :: "k_timeout_t \<Rightarrow> kernel \<Rightarrow> kernel" where
  "sleeping d k =
     z_mark_thread_as_suspended (cur0 k) (z_add_thread_timeout 0 (cur0 k) d (unready_thread 0 (cur0 k) k))"

lemma k_sleep_eq:
  "\<not> CONFIG_SMP k \<Longrightarrow> d \<noteq> K_FOREVER \<Longrightarrow>
   snd (k_sleep 0 d k) = z_swap 0 (if d = 0 then yielding k else sleeping d k)"
  by (simp add: k_sleep_def z_tick_sleep_def Let_def k_yield_def yielding_def sleeping_def)

lemma keeps_yielding: "keeps t k (yielding k)" "\<not> CONFIG_SMP k \<Longrightarrow> same_cpu k (yielding k)"
  using keeps_trans [OF keeps_dequeue_thread(1) keeps_trans [OF keeps_queue_thread(1) keeps_update_cache(1)]]
    same_cpu_trans [OF keeps_dequeue_thread(2) same_cpu_trans [OF keeps_queue_thread(2) keeps_update_cache(2)]]
  by (simp_all add: yielding_def)

lemma keeps_k_sleep:
  assumes "sched_ok k" "d \<noteq> K_FOREVER"
  shows "t \<noteq> cur0 k \<Longrightarrow> keeps t k (snd (k_sleep 0 d k))" "same_cpu k (snd (k_sleep 0 d k))"
proof -
  have n: "\<not> CONFIG_SMP k" using assms(1) by simp
  let ?y = "yielding k" and ?s = "sleeping d k"
  note e = k_sleep_eq [OF n assms(2)]
  have m: "\<not> CONFIG_SMP ?y" "\<not> CONFIG_SMP ?s"
    using n by (simp_all add: z_mark_thread_as_suspended_def yielding_def sleeping_def)
  have y: "keeps t k ?y" "same_cpu k ?y" for t using keeps_yielding n by simp_all
  have s: "t \<noteq> cur0 k \<Longrightarrow> keeps t k ?s" "same_cpu k ?s" for t
    using keeps_trans [OF keeps_unready_thread(1) keeps_trans [OF keeps_z_add_thread_timeout keeps_upd_thread]]
      same_cpu_trans [OF keeps_unready_thread(2) same_cpu_trans [OF same_cpu_z_add_thread_timeout same_cpu_upd_thread]]
    by (simp_all add: z_mark_thread_as_suspended_def sleeping_def)
  show "keeps t k (snd (k_sleep 0 d k))" if "t \<noteq> cur0 k"
    unfolding e using keeps_trans [OF y(1) keeps_z_swap(1) [OF m(1)]] keeps_trans [OF s(1) [OF that] keeps_z_swap(1) [OF m(2)]] by simp
  show "same_cpu k (snd (k_sleep 0 d k))"
    unfolding e using same_cpu_trans [OF y(2) keeps_z_swap(2) [OF m(1)]] same_cpu_trans [OF s(2) keeps_z_swap(2) [OF m(2)]] by simp
qed

text \<open>A thread that sleeps is ready again at once, or has a timeout and can be woken by it.\<close>

definition dozes :: "tid \<Rightarrow> kernel \<Rightarrow> bool" where
  "dozes t k \<longleftrightarrow> ThreadTo t \<in> fst ` set (timeout_list k) \<and>
     \<not> bit (thread_state (threads k t)) 0 \<and> \<not> bit (thread_state (threads k t)) 3"

lemma sleep_dozes:
  assumes "sched_ok k" "running k" "d \<noteq> K_FOREVER"
  shows "z_is_thread_ready (snd (k_sleep 0 d k)) (cur0 k) \<or> dozes (cur0 k) (snd (k_sleep 0 d k))"
proof -
  have n: "\<not> CONFIG_SMP k" using assms(1) by simp
  let ?y = "yielding k" and ?s = "sleeping d k"
  note e = k_sleep_eq [OF n assms(3)]
  have m: "\<not> CONFIG_SMP ?y" "\<not> CONFIG_SMP ?s"
    using n by (simp_all add: z_mark_thread_as_suspended_def yielding_def sleeping_def)
  have r: "z_is_thread_ready k (cur0 k)" using assms(2) by (simp add: running_def)
  have "keeps (cur0 k) k ?y" by (rule keeps_yielding)
  then have "z_is_thread_ready (z_swap 0 ?y) (cur0 k)"
    using keeps_ready [OF keeps_trans [OF _ keeps_z_swap(1) [OF m(1)]]] r by blast
  moreover have "dozes (cur0 k) (z_swap 0 ?s)"
    using r n assms(3)
    by (simp add: dozes_def z_swap_def do_swap_fields m [unfolded sleeping_def] sleeping_def z_mark_thread_as_suspended_def z_add_thread_timeout_def
        timeout_list_add unready_thread_def Let_def state_bits)
  ultimately show ?thesis unfolding e by simp
qed

section \<open>The clock interrupt\<close>

text \<open>
  A thread without a timeout is not touched by an announcement, but for the flag that it is
  queued; no wait queue grows.
\<close>

definition undisturbed :: "tid \<Rightarrow> kernel \<Rightarrow> kernel \<Rightarrow> bool" where
  "undisturbed t k k' \<longleftrightarrow>
     keeps t k k' \<and> ThreadTo t \<notin> fst ` set (timeout_list k') \<and>
     (\<forall>w. set (waitqs k' w) \<subseteq> set (waitqs k w))"

lemma undisturbed_trans: "undisturbed t k k' \<Longrightarrow> undisturbed t k' k'' \<Longrightarrow> undisturbed t k k''"
  using keeps_trans by (fastforce simp: undisturbed_def)

lemma undisturbed_fire:
  assumes "quiet fire" "to \<noteq> ThreadTo t" "ThreadTo t \<notin> fst ` set (timeout_list (fst s))"
  shows "undisturbed t (fst s) (fst (fire_timeout c fire to s))"
proof (cases to)
  case (ThreadTo u)
  then have "u \<noteq> t" using assms(2) by simp
  moreover have "set (waitqs (z_thread_timeout c u k) w) \<subseteq> set (waitqs k w)" for k w
    by (auto simp: z_thread_timeout_def Let_def waitqs_unpend z_mark_thread_as_started_def
        z_mark_thread_as_not_suspended_def dest: set_remove1_subset [THEN subsetD] split: if_splits)
  ultimately show ?thesis
    using assms(3) by (simp add: ThreadTo fire_timeout_def undisturbed_def keeps_def z_thread_timeout_other)
next
  case (ObjTo n)
  then show ?thesis using assms(1,3) by (simp add: fire_timeout_def quiet_def undisturbed_def del: split_paired_All)
qed

lemma undisturbed_announce_loop:
  assumes "quiet fire" "announce_loop fuel c fire s = Some s'" "ThreadTo t \<notin> fst ` set (timeout_list (fst s))"
  shows "undisturbed t (fst s) (fst s')"
  using assms(2,3)
proof (induction fuel arbitrary: s)
  case (Suc fuel)
  show ?case
  proof (cases "timeout_list (fst s)")
    case Nil
    then show ?thesis using Suc.prems by (simp add: undisturbed_def)
  next
    case (Cons e rest)
    obtain to dt where e: "e = (to, dt)" by (cases e)
    define s1 where "s1 = fire_timeout c fire to (announce_pop to dt rest (fst s), snd s)"
    have to: "to \<noteq> ThreadTo t" "ThreadTo t \<notin> fst ` set rest" using Suc.prems(2) Cons e by auto
    show ?thesis
    proof (cases "dt \<le> announce_remaining (fst s)")
      case True
      have "undisturbed t (announce_pop to dt rest (fst s)) (fst s1)"
        using undisturbed_fire [OF assms(1) to(1), of "(announce_pop to dt rest (fst s), snd s)" c] to(2)
        by (simp add: s1_def)
      then have u: "undisturbed t (fst s) (fst s1)" using to Cons e by (simp add: undisturbed_def keeps_def)
      have "announce_loop fuel c fire s1 = Some s'" using Suc.prems(1) Cons e True by (simp add: s1_def)
      then have "undisturbed t (fst s1) (fst s')" using Suc.IH u by (simp add: undisturbed_def)
      with u show ?thesis by (rule undisturbed_trans)
    next
      case False
      then show ?thesis using Suc.prems Cons e by (auto simp: undisturbed_def)
    qed
  qed
qed simp

lemma keeps_z_time_slice:
  "keeps t k (z_time_slice c n k)" "\<not> CONFIG_SMP k \<Longrightarrow> same_cpu k (z_time_slice c n k)"
  by (simp_all add: keeps_def same_cpu_def z_time_slice_def move_thread_to_end_of_prio_q_def Let_def)

lemma undisturbed_announce:
  assumes "sys_clock_announce fuel 0 (\<lambda>n s. s) ticks (k, ()) = Some r" "ThreadTo t \<notin> fst ` set (timeout_list k)"
  shows "undisturbed t k (fst r)"
proof -
  let ?k = "(z_time_slice 0 ticks k)\<lparr>announce_remaining := ticks\<rparr>"
  obtain s1 where l: "announce_loop fuel 0 (\<lambda>n s. s) (?k, ()) = Some s1" "r = (announce_finish 0 (fst s1), snd s1)"
    using assms(1) by (auto simp: sys_clock_announce_def Let_def)
  have w: "waitqs ?k = waitqs k" "timeout_list ?k = timeout_list k"
    by (simp_all add: z_time_slice_def move_thread_to_end_of_prio_q_def Let_def)
  have "undisturbed t k ?k" using assms(2) w keeps_z_time_slice(1) [of t k 0 ticks] by (simp add: undisturbed_def keeps_def)
  moreover have "undisturbed t ?k (fst s1)"
    using undisturbed_announce_loop [OF quiet_id l(1)] assms(2) w by simp
  moreover have "undisturbed t (fst s1) (fst r)" if "ThreadTo t \<notin> fst ` set (timeout_list (fst s1))"
    using that by (simp add: l(2) undisturbed_def keeps_def)
  ultimately show ?thesis using undisturbed_trans by (metis undisturbed_def)
qed

lemma undisturbed_isr:
  assumes "sched_ok k" "ThreadTo t \<notin> fst ` set (timeout_list k)"
  shows "undisturbed t k (isr_enter k)" "undisturbed t k (isr_exit k)" "undisturbed t k (k\<lparr>clock_elapsed := e\<rparr>)"
  using assms
  by (simp_all add: undisturbed_def keeps_def isr_enter_def isr_exit_def Let_def z_get_next_switch_handle_def
      set_current_def)

lemma idle_isr: "sched_ok k \<Longrightarrow> idle0 (isr_exit k) = idle0 k" "idle0 (isr_enter k) = idle0 k"
  by (simp_all add: isr_enter_def isr_exit_def Let_def z_get_next_switch_handle_def set_current_def)

text \<open>The calls of the threads: what they do to the timeouts, to wait queues and to the other thread.\<close>

lemma take_blocks:
  assumes "sched_ok k"
  shows "timeout_list (z_pend_curr 0 (Some w) K_FOREVER k) = timeout_list k"
  using assms by (simp add: z_pend_curr_def z_swap_def pend_def do_swap_fields add_thread_timeout_def)

lemma z_reschedule_timeouts [simp]: "\<not> CONFIG_SMP k \<Longrightarrow> timeout_list (z_reschedule 0 k) = timeout_list k"
  by (simp add: z_reschedule_def resched_uniprocessor z_swap_def do_swap_fields)

lemma timeouts_start: "\<not> CONFIG_SMP k \<Longrightarrow> timeout_list (z_sched_start 0 t k) = timeout_list k"
  by (simp add: z_sched_start_def z_mark_thread_as_started_def)

lemma fst_remove_delta_subset: "fst ` set (remove_delta to ts) \<subseteq> fst ` set ts"
  by (induction to ts rule: remove_delta.induct) auto

lemma abort_timeout_subset:
  "fst ` set (timeout_list (snd (z_abort_thread_timeout t k))) \<subseteq> fst ` set (timeout_list k)"
  using fst_remove_delta_subset by (simp add: z_abort_thread_timeout_def z_abort_timeout_def)

lemma give_timeouts:
  assumes "sched_ok k"
  shows "fst ` set (timeout_list (snd (k_sem_give 0 (sem, k)))) \<subseteq> fst ` set (timeout_list k)"
proof (cases "waitqs k (ObjQ (sem_wait_q sem))")
  case Nil
  then show ?thesis using k_sem_give_store [OF assms Nil] assms by simp
next
  case (Cons t ts)
  then show ?thesis using assms abort_timeout_subset [of t "unpend_thread_no_timeout t k"]
    by (simp add: k_sem_give_def z_unpend_first_thread_cases arch_thread_return_value_set_def z_ready_thread_uniprocessor)
qed

lemma sleep_timeouts:
  assumes "sched_ok k"
  shows "fst ` set (timeout_list (snd (k_sleep 0 d k))) \<subseteq> insert (ThreadTo (cur0 k)) (fst ` set (timeout_list k))"
proof -
  have smp: "\<not> CONFIG_SMP k" using assms by simp
  have "timeout_list (k_yield 0 k) = timeout_list k"
    using smp by (simp add: k_yield_def Let_def z_swap_def do_swap_fields)
  moreover have "fst ` set (timeout_list (k_thread_suspend 0 t k)) \<subseteq> fst ` set (timeout_list k)" for t
    using smp abort_timeout_subset [of t k]
    by (simp add: k_thread_suspend_def Let_def z_mark_thread_as_suspended_def z_reschedule_unlocked_def
        z_reschedule_irqlock_def resched_uniprocessor z_swap_irqlock_def do_swap_fields)
  moreover have "fst ` set (timeout_list (z_swap 0 (z_mark_thread_as_suspended t (z_add_thread_timeout 0 t d (unready_thread 0 t k)))))
      \<subseteq> insert (ThreadTo t) (fst ` set (timeout_list k))" for t
    using smp by (simp add: z_swap_def do_swap_fields z_mark_thread_as_suspended_def z_add_thread_timeout_def timeout_list_add subset_insertI)
  ultimately show ?thesis by (auto simp: k_sleep_def z_tick_sleep_def Let_def)
qed

definition same_masks :: "kernel \<Rightarrow> kernel \<Rightarrow> bool" where
  "same_masks k k' \<longleftrightarrow> same_cpu k k' \<and> (\<forall>t. cpu_mask (threads k' t) = cpu_mask (threads k t))"

lemma same_masks_fire:
  assumes "\<not> CONFIG_SMP (fst s)"
  shows "same_masks (fst s) (fst (fire_timeout 0 (\<lambda>n s. s) to s))"
  using assms
  by (cases to) (simp_all add: fire_timeout_def same_masks_def same_cpu_def z_thread_timeout_def Let_def
      z_mark_thread_as_started_def z_mark_thread_as_not_suspended_def ready_thread_def)

lemma same_masks_announce_loop:
  "announce_loop fuel 0 (\<lambda>n s. s) s = Some s' \<Longrightarrow> \<not> CONFIG_SMP (fst s) \<Longrightarrow> same_masks (fst s) (fst s')"
proof (induction fuel arbitrary: s)
  case (Suc fuel)
  show ?case
  proof (cases "timeout_list (fst s)")
    case Nil
    then show ?thesis using Suc.prems by (simp add: same_masks_def)
  next
    case (Cons e rest)
    obtain to dt where e: "e = (to, dt)" by (cases e)
    define s0 where "s0 = (announce_pop to dt rest (fst s), snd s)"
    define s1 where "s1 = fire_timeout 0 (\<lambda>n s. s) to s0"
    have "same_masks (fst s) (fst s0)" by (simp add: same_masks_def same_cpu_def s0_def)
    moreover have "same_masks (fst s0) (fst s1)"
      unfolding s1_def using Suc.prems(2) by (intro same_masks_fire) (simp add: s0_def)
    ultimately have m: "same_masks (fst s) (fst s1)" by (simp add: same_masks_def same_cpu_def)
    show ?thesis
    proof (cases "dt \<le> announce_remaining (fst s)")
      case True
      then have "announce_loop fuel 0 (\<lambda>n s. s) s1 = Some s'"
        using Suc.prems(1) Cons e by (simp add: s1_def s0_def)
      then have "same_masks (fst s1) (fst s')" using Suc m by (simp add: same_masks_def same_cpu_def)
      then show ?thesis using m by (simp add: same_masks_def same_cpu_def)
    next
      case False
      then show ?thesis using Suc.prems Cons e by (simp add: same_masks_def same_cpu_def)
    qed
  qed
qed simp

lemma same_masks_announce:
  assumes "sys_clock_announce fuel 0 (\<lambda>n s. s) ticks (k, ()) = Some r" "\<not> CONFIG_SMP k"
  shows "same_masks k (fst r)"
proof -
  let ?k = "(z_time_slice 0 ticks k)\<lparr>announce_remaining := ticks\<rparr>"
  obtain s1 where l: "announce_loop fuel 0 (\<lambda>n s. s) (?k, ()) = Some s1" "r = (announce_finish 0 (fst s1), snd s1)"
    using assms(1) by (auto simp: sys_clock_announce_def Let_def)
  have "same_masks k ?k"
    using keeps_z_time_slice(1) [of _ k 0 ticks] keeps_z_time_slice(2) [of k 0 ticks] assms(2)
    by (simp add: same_masks_def keeps_def same_cpu_def)
  then show ?thesis
    using same_masks_announce_loop [OF l(1)] assms(2) l(2) by (simp add: same_masks_def same_cpu_def)
qed

lemma announce_loop_alive:
  "announce_loop fuel 0 (\<lambda>n s. s) s = Some s' \<Longrightarrow> sched_ok (fst s) \<Longrightarrow> \<not> bit (thread_state (threads (fst s) t)) 3 \<Longrightarrow>
   n \<in> {0, 3} \<Longrightarrow> bit (thread_state (threads (fst s') t)) n = bit (thread_state (threads (fst s) t)) n"
proof (induction fuel arbitrary: s)
  case (Suc fuel)
  show ?case
  proof (cases "timeout_list (fst s)")
    case Nil
    then show ?thesis using Suc.prems by simp
  next
    case (Cons e rest)
    obtain to dt where e: "e = (to, dt)" by (cases e)
    then have tl: "timeout_list (fst s) = (to, dt) # rest" using Cons by simp
    define s1 where "s1 = fire_timeout 0 (\<lambda>n s. s) to (announce_pop to dt rest (fst s), snd s)"
    note b = fire_timeout_bits(1) [OF quiet_id Suc.prems(2) tl s1_def Suc.prems(3)]
    have ok: "sched_ok (fst s1)"
      using expiry_handlers.fire_timeout_ok(1) [OF quiet_expiry_handlers [OF quiet_id] Suc.prems(2) tl]
      by (simp add: s1_def)
    show ?thesis
    proof (cases "dt \<le> announce_remaining (fst s)")
      case True
      then have "announce_loop fuel 0 (\<lambda>n s. s) s1 = Some s'" using Suc.prems(1) tl by (simp add: s1_def)
      from Suc.IH [OF this ok] b [of 3] b Suc.prems(3,4) show ?thesis by simp
    next
      case False
      then show ?thesis using Suc.prems tl by auto
    qed
  qed
qed simp

lemma announce_dozes:
  assumes "sched_ok k" "sys_clock_announce fuel 0 (\<lambda>n s. s) ticks (k, ()) = Some r" "dozes t k"
  shows "z_is_thread_ready (fst r) t \<or> dozes t (fst r)"
proof -
  let ?k = "(z_time_slice 0 ticks k)\<lparr>announce_remaining := ticks\<rparr>"
  obtain s1 where l: "announce_loop fuel 0 (\<lambda>n s. s) (?k, ()) = Some s1" "r = (announce_finish 0 (fst s1), snd s1)"
    using assms(2) by (auto simp: sys_clock_announce_def Let_def)
  have ok: "sched_ok ?k" using assms(1) sched_ok_z_time_slice sched_ok_announce_remaining by blast
  have b: "\<not> bit (thread_state (threads ?k t)) 0" "\<not> bit (thread_state (threads ?k t)) 3"
    "ThreadTo t \<in> fst ` set (timeout_list ?k)"
    using assms(3) keeps_z_time_slice(1) [of t k 0 ticks] by (simp_all add: dozes_def keeps_def)
  have b': "\<not> bit (thread_state (threads (fst s1) t)) 0" "\<not> bit (thread_state (threads (fst s1) t)) 3"
    using announce_loop_alive [OF l(1), of t] ok b by simp_all
  show ?thesis
  proof (cases "ThreadTo t \<in> fst ` set (timeout_list (fst s1))")
    case True
    then show ?thesis using b' by (simp add: dozes_def l(2))
  next
    case False
    then have "awake t (fst s1)" using announce_loop_wakes [OF quiet_id l(1), of t] ok b by simp
    then show ?thesis using False b' by (simp add: l(2) state_bits awake_def)
  qed
qed

text \<open>Ending a thread that no one waits for.\<close>

lemma keeps_end_thread:
  assumes "sched_ok k" "t \<noteq> u" "waitqs k (JoinQ u) = []"
  shows "keeps t k (end_thread 0 u k)" "same_cpu k (end_thread 0 u k)"
    "bit (thread_state (threads (end_thread 0 u k) u)) 3"
proof -
  define k2 where "k2 = upd_thread u (z_reset_thread_states THREAD_ABORTING) (upd_thread u (z_set_thread_states THREAD_DEAD) k)"
  define k3 where "k3 = (if z_is_thread_queued (threads k2 u) then dequeue_thread 0 u k2 else k2)"
  define k4 where "k4 = (if pended_on (threads k3 u) \<noteq> None then unpend_thread_no_timeout u k3 else k3)"
  define k5 where "k5 = snd (z_abort_thread_timeout u k4)"
  have "tlist_wf (timeout_list k4)"
    using kinv_tlist [OF sched_okD(1) [OF assms(1)]] by (simp add: k4_def k3_def k2_def)
  note a = keeps_z_abort_thread_timeout [OF this assms(2), folded k5_def]
  have "keeps t k k3" "same_cpu k k3"
    using assms(2) by (simp_all add: k3_def k2_def keeps_def same_cpu_def)
  moreover have "keeps t k3 k4" "same_cpu k3 k4" using keeps_unpend assms(2) by (simp_all add: k4_def)
  ultimately have 5: "keeps t k k5" "same_cpu k k5" using a keeps_trans same_cpu_trans by blast+
  have "waitqs k5 (JoinQ u) = []"
    using assms(3) by (simp add: k5_def k4_def k3_def k2_def waitqs_unpend)
  then have "unpend_all 0 (JoinQ u) k5 = k5" by (simp add: unpend_all_def)
  moreover have "end_thread 0 u k = (if thread_state (threads k u) AND THREAD_DEAD = 0
      then update_cache 0 True (unpend_all 0 (JoinQ u) k5) else k)"
    by (simp only: end_thread_def Let_def k5_def k4_def k3_def k2_def)
  ultimately have e: "end_thread 0 u k =
      (if thread_state (threads k u) AND THREAD_DEAD = 0 then update_cache 0 True k5 else k)" by simp
  show "keeps t k (end_thread 0 u k)" "same_cpu k (end_thread 0 u k)"
    using keeps_trans [OF 5(1) keeps_update_cache(1)] same_cpu_trans [OF 5(2) keeps_update_cache(2)] by (simp_all add: e)
  have "bit (thread_state (threads k5 u)) 3"
    by (simp add: k5_def k4_def k3_def k2_def)
  then show "bit (thread_state (threads (end_thread 0 u k) u)) 3" by (simp add: e)
qed

end
