(* ===== verification/Main_Thread.thy ===== *)
theory Main_Thread
  imports Frames
begin

text \<open>
  The end of the boot, \<^verbatim>\<open>kernel/init.c\<close>: the main thread starts the static threads, runs
  \<^verbatim>\<open>main\<close> and ends. It is not preempted by the threads it starts; ending, it hands the CPU
  to them.
\<close>

section \<open>Definitions\<close>

text \<open>
  The main thread: the static threads are started, \<^verbatim>\<open>main\<close> runs, which is here the empty
  default of \<^verbatim>\<open>kernel/main_weak.c\<close>, and the thread entry routine ends the thread. The
  initialisation of device drivers, which comes before the static threads, is left out.
\<close>

definition main_weak :: "kernel \<Rightarrow> kernel" where
  "main_weak k = k"

definition bg_thread_main :: "tid \<Rightarrow> (kernel \<Rightarrow> kernel) \<Rightarrow> static_thread_data list \<Rightarrow> kernel \<Rightarrow> kernel" where
  "bg_thread_main z_main_thread main tds k =
     (let k = z_init_static_threads 0 tds k;
          k = main k
      in upd_thread z_main_thread (\<lambda>th. th\<lparr>user_options := user_options th AND NOT 1\<rparr>) k)"

definition z_thread_entry :: "(kernel \<Rightarrow> kernel) \<Rightarrow> kernel \<Rightarrow> kernel" where
  "z_thread_entry entry k =
     (let k = entry k in snd (k_thread_abort 0 (z_current_get 0 k) k))"

text \<open>The state in which an application with the static threads \<open>tds\<close> starts.\<close>

definition boot_with :: "static_thread_data list \<Rightarrow> kernel" where
  "boot_with tds =
     z_thread_entry (bg_thread_main 1 main_weak tds) (z_cstart 0 1 (\<lambda>_. 2) (bss_kernel False True 1))"

section \<open>Threads that are not born yet\<close>

definition unborn :: "tid \<Rightarrow> kernel \<Rightarrow> bool" where
  "unborn t k \<longleftrightarrow> waitqs k = (\<lambda>_. []) \<and> timeout_list k = [] \<and> pended_on (threads k t) = None \<and>
     thread_state (threads k t) = THREAD_DUMMY"

lemma unborn_frame:
  assumes "unborn t k" "waitqs k' = waitqs k" "timeout_list k' = timeout_list k"
    "pended_on (threads k' t) = pended_on (threads k t)" "thread_state (threads k' t) = thread_state (threads k t)"
  shows "unborn t k'"
  using assms by (simp add: unborn_def)

lemma unborn_boot: "t \<notin> {1, 2} \<Longrightarrow> unborn t (z_cstart 0 1 (\<lambda>_. 2) (bss_kernel False True 1))"
  using boot_uniprocessor [of 0 1 2 True] by (simp add: unborn_def fun_eq_iff)

lemma unborn_setup: "unborn t k \<Longrightarrow> t \<noteq> u \<Longrightarrow> unborn t (z_setup_new_thread u p opts k)"
  by (simp add: unborn_def setup_threads fun_eq_iff)

lemma unborn_lock: "unborn t k \<Longrightarrow> unborn t (k_sched_lock 0 k)"
  by (erule unborn_frame) (simp_all add: k_sched_lock_def z_sched_lock_def)

lemma unborn_z_swap: "unborn t k \<Longrightarrow> \<not> CONFIG_SMP k \<Longrightarrow> unborn t (z_swap 0 k)"
  by (erule unborn_frame) (simp_all add: z_swap_def do_swap_fields)

lemma unborn_resched: 
   "unborn t k \<Longrightarrow> \<not> CONFIG_SMP k \<Longrightarrow> unborn t (z_reschedule 0 k)"
   "unborn t k \<Longrightarrow> \<not> CONFIG_SMP k \<Longrightarrow> unborn t (z_reschedule_unlocked 0 k)"
  using unborn_z_swap [of t k]
  by (simp_all add: z_reschedule_def resched_uniprocessor z_reschedule_unlocked_def z_reschedule_irqlock_def z_swap_irqlock_def z_swap_def)

lemma unborn_start: "unborn t k \<Longrightarrow> \<not> CONFIG_SMP k \<Longrightarrow> t \<noteq> u \<Longrightarrow> unborn t (k_thread_start 0 u k)"
proof -
  assume a: "unborn t k" "\<not> CONFIG_SMP k" "t \<noteq> u"
  let ?k = "ready_thread 0 u (z_mark_thread_as_started u k)"
  have "unborn t ?k"
    by (rule unborn_frame [OF a(1)]) (use a(3) in \<open>simp_all add: ready_thread_def z_mark_thread_as_started_def\<close>)
  then show ?thesis using a unborn_resched(1) [of t ?k]
    by (simp add: k_thread_start_def z_sched_start_def z_mark_thread_as_started_def)
qed

lemma unborn_unlock: "unborn t k \<Longrightarrow> \<not> CONFIG_SMP k \<Longrightarrow> unborn t (k_sched_unlock 0 k)"
proof -
  assume a: "unborn t k" "\<not> CONFIG_SMP k"
  let ?k = "update_cache 0 False (upd_thread (cur0 k) (\<lambda>th. th\<lparr>sched_locked := sched_locked th + 1\<rparr>) k)"
  have "unborn t ?k" by (rule unborn_frame [OF a(1)]) simp_all
  then show ?thesis using a unborn_resched(2) [of t ?k] by (simp add: k_sched_unlock_def)
qed

lemma unborn_end: 
  assumes "unborn t k" "\<not> CONFIG_SMP k" "t \<noteq> u" shows "unborn t (end_thread 0 u k)"
proof -
  have n: "timeout_list k = []" "waitqs k w = []" for w using assms(1) by (simp_all add: unborn_def)
  show ?thesis
    by (rule unborn_frame [OF assms(1)])
      (simp_all add: end_thread_def unpend_all_def fun_eq_iff Let_def z_abort_thread_timeout_def z_abort_timeout_def
        waitqs_unpend n assms(3))
qed
lemma unborn_abort:
  "unborn t k \<Longrightarrow> sched_ok k \<Longrightarrow> t \<noteq> u \<Longrightarrow> u \<noteq> idle0 k \<Longrightarrow> unborn t (snd (k_thread_abort 0 u k))"
  using unborn_end [of t k u] unborn_z_swap [of t "end_thread 0 u k"] end_thread_uniprocessor(1) [of k u]
  by (simp add: k_thread_abort_def z_thread_abort_uniprocessor Let_def)

text \<open>
  The main thread, of priority 0, is not preempted while it starts thread A; ending, it gives
  the CPU to thread A.
\<close>

lemma best_of_two:
  assumes "cpu_mask (threads k a) = - 1" "runq k = a # q"
  shows "next_up_uniprocessor 0 k = a"
  using assms by (simp add: next_up_uniprocessor_def runq_best_def z_priq_dumb_best_def)

lemma lock_start:
  assumes ok: "sched_ok k" and r: "reusable a k" and k: "runq k = [m]" "cur0 k = m"
    and m: "prio_of (threads k m) \<le> 7" "sched_locked (threads k m) = 0" "cpu_mask (threads k m) = - 1"
  defines "k' \<equiv> k_thread_start 0 a (k_sched_lock 0 (z_setup_new_thread a 7 0 k))"
  shows "sched_ok k'" "runq k' = [m, a]" "cur0 k' = m" "threads k' m = (threads k m)\<lparr>sched_locked := - 1\<rparr>"
    "prio (threads k' a) = 7" "cpus k' = cpus k" "CONFIG_SCHED_CPU_MASK k \<Longrightarrow> cpu_mask (threads k' a) = - 1"
proof -
  define k1 where "k1 = z_setup_new_thread a 7 0 k"
  define k2 where "k2 = k_sched_lock 0 k1"
  define k3 where "k3 = queue_thread 0 a (z_mark_thread_as_started a k2)"
  have am: "a \<noteq> m" using r k(2) by (simp add: reusable_def)
  have ok1: "sched_ok k1" using sched_ok_setup(1) [OF ok r] by (simp add: k1_def)
  have f1: "cur0 k1 = m" "threads k1 m = threads k m" "runq k1 = [m]" "cpus k1 = cpus k"
     "thread_state (threads k1 a) = THREAD_PRESTART" "prio (threads k1 a) = 7" "timeout_list k1 = timeout_list k"
    using k am by (simp_all add: k1_def setup_threads current_thread_def)
  have c1: "CONFIG_SCHED_CPU_MASK k \<Longrightarrow> cpu_mask (threads k1 a) = - 1"
    by (simp add: k1_def z_setup_new_thread_def z_init_thread_base_def Let_def)
  have ok2: "sched_ok k2" using kstep_sched_ok [OF kstep.sched_lock ok1] f1(1,2) m(2) by (simp add: k2_def)
  have f2: "cur0 k2 = m" "threads k2 m = (threads k m)\<lparr>sched_locked := - 1\<rparr>" "threads k2 a = threads k1 a"
     "runq k2 = [m]" "cpus k2 = cpus k" "timeout_list k2 = timeout_list k"
    using f1 m(2) am by (simp_all add: k2_def k_sched_lock_def z_sched_lock_def current_thread_def)
  show "sched_ok k'" using kstep_sched_ok [OF kstep.start ok2] by (simp add: k'_def k1_def k2_def)
  have "\<not> z_is_thread_timeout_active k2 a" using r f2(6) by (simp add: reusable_def state_bits)
  then have rd: "ready_thread 0 a (z_mark_thread_as_started a k2) = update_cache 0 False k3"
    using f1(5) f2(3) by (simp add: k3_def ready_thread_def z_mark_thread_as_started_def state_bits bit_PRESTART)
  have smp: "\<not> CONFIG_SMP k2" using ok2 by simp
  have "cpus k3 = cpus k"
    using f2(5) smp by (simp add: k3_def queue_thread_def Let_def runq_add_def z_mark_thread_as_started_def)
  then have f3: "cur0 k3 = m" "threads k3 m = threads k2 m" "cpus k3 = cpus k" "prio (threads k3 a) = 7" "\<not> CONFIG_SMP k3"
     "cpu_mask (threads k3 a) = cpu_mask (threads k1 a)"
    using f1(6) f2 smp am by (simp_all add: k3_def z_mark_thread_as_started_def current_thread_def)
  have rq: "runq k3 = [m, a]"
    using f2(2,3,4) f1(6) m(1) smp am by (simp add: k3_def runq_queue_thread z_mark_thread_as_started_def prio_key_def)
  have "next_up_uniprocessor 0 k3 = m" using best_of_two [OF _ rq] f3(2) f2(2) m(3) by simp
  then have u: "update_cache 0 False k3 = k3\<lparr>cache := m\<rparr>"
    using f3(1,5) by (simp add: update_cache_def Let_def)
  have k': "k' = k3\<lparr>cache := m\<rparr>"
    using f1(5) f2(3) rd f3(1,5) u
    by (simp add: k'_def k_thread_start_def z_sched_start_def k1_def [symmetric] k2_def [symmetric] z_reschedule_def
      resched_uniprocessor need_swap_def state_bits bit_PRESTART current_thread_def)
  show "runq k' = [m, a]" "cur0 k' = m" "threads k' m = (threads k m)\<lparr>sched_locked := - 1\<rparr>" 
   "prio (threads k' a) = 7" "cpus k' = cpus k"
    using rq f3 f2(2) by (simp_all add: k' current_thread_def)
  show "CONFIG_SCHED_CPU_MASK k \<Longrightarrow> cpu_mask (threads k' a) = - 1" using c1 f3(6) by (simp add: k')
qed

lemma sched_ok_nonessential:
  "sched_ok k \<Longrightarrow> sched_ok (upd_thread t (\<lambda>th. th\<lparr>user_options := f (user_options th)\<rparr>) k)"
proof -
  assume ok: "sched_ok k"
  let ?k = "upd_thread t (\<lambda>th. th\<lparr>user_options := f (user_options th)\<rparr>) k"
  have "kinv ?k" using sched_okD(1) [OF ok] by (subst kinv_upd_thread_other) simp_all
  moreover have "cache_ok ?k"
    by (rule cache_ok_frame [OF sched_okD(2) [OF ok]]) (auto simp: current_thread_def prevented_bits is_preempt_iff)
  moreover have "cur_ok ?k"
    using sched_okD(3) [OF ok] by (simp add: cur_ok_def current_thread_def state_bits)
  ultimately show ?thesis by (simp add: sched_ok_def)
qed

lemma abort_last:
  assumes ok: "sched_ok k" and k: "runq k = [m, a]" "cur0 k = m" "waitqs k = (\<lambda>_. [])" "timeout_list k = []"
    and a: "cpu_mask (threads k a) = - 1" and n: "nested (cpus k 0) = 0" and am: "a \<noteq> m"
  shows "cur0 (end_thread 0 m k) = m" "cache (end_thread 0 m k) = a" "nested (cpus (end_thread 0 m k) 0) = 0"
    "idle0 (end_thread 0 m k) = idle0 k"
proof -
  have q: "z_is_thread_queued (threads k m)" "m \<noteq> idle0 k"
    using sched_okD(1) [OF ok] k(1) by (auto simp: kinv_but_def runq_ok_def)
  then have st: "z_is_thread_ready k m" using kinv_queued [OF sched_okD(1) [OF ok]] by simp
  then have p: "pended_on (threads k m) = None" using running_not_pended [OF ok] k(2) q(2) by (simp add: running_def)
  define k1 where "k1 = dequeue_thread 0 m (upd_thread m (z_reset_thread_states THREAD_ABORTING)
      (upd_thread m (z_set_thread_states THREAD_DEAD) k))"
  have e: "end_thread 0 m k = update_cache 0 True k1"
    using st q p k(3,4) by (simp add: end_thread_def Let_def k1_def unpend_all_def state_bits
      z_abort_thread_timeout_def z_abort_timeout_def)
  have smp: "\<not> CONFIG_SMP k" using ok by simp
  then have rq: "runq k1 = [a]" using k(1) am by (simp add: k1_def runq_dequeue_thread)
  have "next_up_uniprocessor 0 k1 = a" using best_of_two [OF _ rq] a am by (simp add: k1_def)
  then show "cache (end_thread 0 m k) = a" using smp unfolding e by (subst cache_update_cache_True) (simp_all add: k1_def)
  show "cur0 (end_thread 0 m k) = m" "nested (cpus (end_thread 0 m k) 0) = 0" "idle0 (end_thread 0 m k) = idle0 k"
    using k(2) n unfolding e by (simp_all add: k1_def current_thread_def)
qed

lemma unlock_end:
  assumes ok: "sched_ok k" and k: "runq k = [m, a]" "cur0 k = m" "waitqs k = (\<lambda>_. [])" "timeout_list k = []"
    and m: "sched_locked (threads k m) = - 1" "cpu_mask (threads k m) = - 1"
    and a: "cpu_mask (threads k a) = - 1" and n: "nested (cpus k 0) = 0" and am: "a \<noteq> m"
  defines "k' \<equiv> upd_thread m (\<lambda>th. th\<lparr>user_options := user_options th AND NOT 1\<rparr>) (k_sched_unlock 0 k)"
  shows "cur0 k' = m" "idle0 k' = idle0 k" "sched_ok (snd (k_thread_abort 0 m k'))" "cur0 (snd (k_thread_abort 0 m k')) = a"
    "idle0 (snd (k_thread_abort 0 m k')) = idle0 k" "nested (cpus (snd (k_thread_abort 0 m k')) 0) = 0"
    "cache (snd (k_thread_abort 0 m k')) = a" "t \<noteq> m \<Longrightarrow> keeps t k (snd (k_thread_abort 0 m k'))"
    "same_cpu k (snd (k_thread_abort 0 m k'))" "bit (thread_state (threads (snd (k_thread_abort 0 m k')) m)) 3"
proof -
  define k1 where "k1 = upd_thread m (\<lambda>th. th\<lparr>sched_locked := sched_locked th + 1\<rparr>) k"
  have n1: "next_up_uniprocessor 0 k1 = m" using best_of_two [of k1 m "[a]"] m(2) k(1) by (simp add: k1_def)
  have smp: "\<not> CONFIG_SMP k1" using ok by (simp add: k1_def)
  have "cur0 k1 = m" using k(2) by (simp add: k1_def current_thread_def)
  then have "update_cache 0 False k1 = k1\<lparr>cache := m\<rparr>"
    using smp n1 by (simp add: update_cache_def Let_def)
  then have u: "k_sched_unlock 0 k = k1\<lparr>cache := m\<rparr>"
    using k(2) smp by (simp add: k_sched_unlock_def k1_def z_reschedule_unlocked_def z_reschedule_irqlock_def
      resched_uniprocessor need_swap_def z_swap_irqlock_def current_thread_def do_swap_def z_swap_next_thread_def)
  show c: "cur0 k' = m" using k(2) by (simp add: k'_def u k1_def current_thread_def)
  have ok': "sched_ok k'"
    unfolding k'_def by (intro sched_ok_nonessential kstep_sched_ok [OF kstep.sched_unlock ok])
  have f: "runq k' = [m, a]" "waitqs k' = (\<lambda>_. [])" "timeout_list k' = []" "cpu_mask (threads k' a) = - 1" "nested (cpus k' 0) = 0"
     "idle0 k' = idle0 k"
    using k a n am by (simp_all add: k'_def u k1_def current_thread_def)
  show "idle0 k' = idle0 k" by (rule f(6))
  have i: "m \<noteq> idle0 k'" and q: "z_is_thread_queued (threads k' m)"
    using sched_okD(1) [OF ok'] f(1) by (auto simp: kinv_but_def runq_ok_def)
  then show "sched_ok (snd (k_thread_abort 0 m k'))" using kstep_sched_ok [OF kstep.abort ok'] by simp
  have "z_is_thread_ready k' m" using kinv_queued [OF sched_okD(1) [OF ok']] i q by simp
  moreover note e = abort_last [OF ok' f(1) c f(2-5) am]
  moreover have "\<not> CONFIG_SMP (end_thread 0 m k')" using end_thread_uniprocessor(1) [OF ok' i] by simp
  ultimately have x: "snd (k_thread_abort 0 m k') = z_swap 0 (end_thread 0 m k')" "\<not> CONFIG_SMP (end_thread 0 m k')"
    using ok' by (simp_all add: k_thread_abort_def z_thread_abort_uniprocessor Let_def arch_is_in_isr_def state_bits)
  show "cur0 (snd (k_thread_abort 0 m k')) = a" "nested (cpus (snd (k_thread_abort 0 m k')) 0) = 0"
    "cache (snd (k_thread_abort 0 m k')) = a" using x e by (simp_all add: z_swap_def do_swap_fields)
  show "idle0 (snd (k_thread_abort 0 m k')) = idle0 k"
    using x f(6) e(4) by (simp add: z_swap_def do_swap_fields)
  have n': "\<not> CONFIG_SMP k" "waitqs k' (JoinQ m) = []" using ok f(2) by simp_all
  note z = keeps_end_thread [OF ok' _ n'(2)]
  show "keeps t k (snd (k_thread_abort 0 m k'))" if "t \<noteq> m"
  proof -
    have "keeps t k k'"
      using keeps_trans [OF keeps_k_sched_unlock(1) [OF n'(1)] keeps_upd_thread [OF that]] that k(2) by (simp add: k'_def)
    then show ?thesis using keeps_trans [OF keeps_trans [OF _ z(1) [OF that]] keeps_z_swap(1) [OF x(2)]] x(1) by simp
  qed
  have "same_cpu k k'"
    using same_cpu_trans [OF keeps_k_sched_unlock(2) [OF n'(1)] same_cpu_upd_thread] by (simp add: k'_def)
  then show "same_cpu k (snd (k_thread_abort 0 m k'))"
    using same_cpu_trans [OF same_cpu_trans [OF _ z(2) [OF am]] keeps_z_swap(2) [OF x(2)]] x(1) by simp
  show "bit (thread_state (threads (snd (k_thread_abort 0 m k')) m)) 3"
    using z(3) [OF am] keeps_z_swap(1) [OF x(2), of m] x(1) by (simp add: keeps_def)
qed

lemma settled_ready: "sched_ok k \<Longrightarrow> cur0 k = cache k \<Longrightarrow> z_is_thread_ready k (cur0 k)"
  using settled_best_runs [of k] sched_okD(3) [of k] by (auto simp: best_runs_def cur_ok_def z_is_thread_ready_def)

lemma boot_masks: "CONFIG_SCHED_CPU_MASK (z_cstart d m i (bss_kernel False b 1)) = b"
  by (simp add: z_cstart_def prepare_multithreading_def Let_def z_swap_def do_swap_fields
      z_sched_init_bss ready_thread_def z_dummy_thread_init_def init_idle_thread_def
      z_mark_thread_as_started_def z_ready_thread_def bss_kernel_def)

lemma K_MSEC_0: "K_MSEC 0 = K_NO_WAIT"
  by (simp add: K_MSEC_def k_ms_to_ticks_ceil64_def z_tmcvt_def)

lemma main_thread_boot:
  defines "k \<equiv> boot_with [\<lparr>init_thread = 3, init_prio = 7, init_options = 0, init_delay = 0\<rparr>]"
  shows "sched_ok k" "cur0 k = 3" "idle0 k = 2" "nested (cpus k 0) = 0" "cache k = 3" "\<not> irq_masked (cpus k 0)"
    "t \<notin> {1, 2, 3} \<Longrightarrow> unborn t k" "bit (thread_state (threads k 1)) 3" "is_preempt (threads k 2)"
    "cpu_mask (threads k 3) = - 1" "z_is_thread_ready k 3"
proof -
  define k0 where "k0 = z_cstart 0 1 (\<lambda>_. 2) (bss_kernel False True 1)"
  note b = boot_uniprocessor [of 0 1 2 True, folded k0_def, simplified] and c = boot_masks [of 0 1 "\<lambda>_. 2" True, folded k0_def]
    boot_interrupts [of 0 1 "\<lambda>_. 2" True, folded k0_def]
  define k01 where "k01 = k_sched_lock 0 (z_setup_new_thread 3 7 0 k0)"
  define k1 where "k1 = k_thread_start 0 3 k01"
  have r: "reusable 3 k0"
    using b by (simp add: reusable_def state_bits bit_DUMMY)
  have q: "runq k0 = [1]" "cur0 k0 = 1" "prio_of (threads k0 1) \<le> 7" "sched_locked (threads k0 1) = 0"
    "cpu_mask (threads k0 1) = - 1" using b by simp_all
  note l = lock_start [OF b(1) r q, folded k01_def k1_def]
  have s1: "cur0 (z_setup_new_thread 3 7 0 k0) = 1" using q(2) by (simp add: current_thread_def)
  have ok1: "sched_ok k01" unfolding k01_def
    by (rule kstep_sched_ok [OF kstep.sched_lock sched_ok_setup(1) [OF b(1) r]]) (use s1 q(4) in \<open>simp add: setup_threads\<close>)
  have u: "unborn t k1" if "t \<notin> {1, 2, 3}" for t
    using that unborn_boot [of t] ok1 unfolding k1_def k01_def k0_def
    by (intro unborn_start unborn_lock unborn_setup) simp_all
  then have u4: "unborn 4 k1" by simp
  have f: "waitqs k1 = (\<lambda>_. [])" "timeout_list k1 = []" using u4 by (simp_all add: unborn_def)
  define k2 where "k2 = upd_thread 1 (\<lambda>th. th\<lparr>user_options := user_options th AND NOT 1\<rparr>) (k_sched_unlock 0 k1)"
  have "sched_locked (threads k1 1) = - 1" "cpu_mask (threads k1 1) = - 1" "cpu_mask (threads k1 3) = - 1"
      "nested (cpus k1 0) = 0" "(3 :: tid) \<noteq> 1"
    using l q c by simp_all
  note e = unlock_end [OF l(1,2,3) f this, folded k2_def]
  have k: "k = snd (k_thread_abort 0 1 k2)"
    using e(1) by (simp add: k_def boot_with_def z_thread_entry_def bg_thread_main_def main_weak_def z_init_static_threads_def Let_def
      schedule_new_thread_def K_MSEC_0 z_current_get_def k0_def k1_def k01_def k2_def current_thread_def)
  have i: "idle0 k1 = 2" using l(6) b(5) by simp
  show "sched_ok k" "cur0 k = 3" "idle0 k = 2" "nested (cpus k 0) = 0" "cache k = 3" using e i by (simp_all add: k)
  then show "z_is_thread_ready k 3" using settled_ready [of k] by simp
  have smp: "\<not> CONFIG_SMP k1" using l(1) by simp
  have ok2: "sched_ok k2"
    unfolding k2_def by (intro sched_ok_nonessential kstep_sched_ok [OF kstep.sched_unlock l(1)])
  have i2: "idle0 k2 = 2" using e(2) i by simp
  have u2: "unborn t k2" if "t \<notin> {1, 2, 3}" for t
    unfolding k2_def by (rule unborn_frame [OF unborn_unlock [OF u [OF that] smp]]) simp_all
  show "unborn t k" if "t \<notin> {1, 2, 3}"
    unfolding k using ok2 i2 u2 [OF that] that by (intro unborn_abort) simp_all
  show "\<not> irq_masked (cpus k 0)" using e(9) l(6) c(3) by (simp add: k same_cpu_def)
  show "bit (thread_state (threads k 1)) 3" using e(10) by (simp add: k)
  have "keeps 2 k0 k1"
    using keeps_trans [OF keeps_trans [OF keeps_setup(1) keeps_k_sched_lock(1)] keeps_k_thread_start(1)] ok1 s1
    by (simp add: k1_def k01_def)
  then show "is_preempt (threads k 2)"
    using keeps_preempt [OF keeps_trans [OF _ e(8)]] b(12) k by simp
  show "cpu_mask (threads k 3) = - 1" using e(8) [of 3] l(7) c(1) by (simp add: k keeps_def)
qed

end
