(* ===== verification/Hello.thy ===== *)
theory Hello
  imports Main_Thread
begin

text \<open>
  The applications \<^verbatim>\<open>mpfs-applications/synchronization\<close> and
  \<^verbatim>\<open>mpfs-applications/synchronization_blinky\<close>: two threads that take turns greeting, each
  waiting for its own semaphore and giving the other's after a sleep. A thread is a program
  counter over the calls of \<^verbatim>\<open>helloLoop\<close>, run when the kernel's current thread is that one; the
  clock interrupt comes at any time. The first application prints a greeting, the second
  also sets the LEDs: what a greeting does to the devices is the parameter \<open>greet\<close>.
\<close>

section \<open>The threads\<close>

datatype who = ThreadA | ThreadB

fun other :: "who \<Rightarrow> who" where
  "other ThreadA = ThreadB"
| "other ThreadB = ThreadA"

fun tid_of :: "who \<Rightarrow> tid" where
  "tid_of ThreadA = 3"
| "tid_of ThreadB = 4"

datatype hello_pc =
    Create | MaskDisable | MaskEnable | Start
      \<comment> \<open>thread A before its loop\<close>
  | Take | Taking | Greet | Sleep | Sleeping | Give
      \<comment> \<open>\<open>Taking\<close> and \<open>Sleeping\<close>: inside \<^verbatim>\<open>k_sem_take\<close> and \<^verbatim>\<open>k_msleep\<close>, after the switch\<close>

record 'g hello =
  hk :: kernel
  sems :: "who \<Rightarrow> k_sem"
  pc :: "who \<Rightarrow> hello_pc"
  greeted :: "who list"
  devices :: 'g

abbreviation (input) PRIORITY :: int where "PRIORITY \<equiv> 7"

definition k_msleep :: "cpu_id \<Rightarrow> int \<Rightarrow> kernel \<Rightarrow> u32 option \<times> kernel" where
  "k_msleep c ms k = k_sleep c (K_MSEC ms) k"

definition goto :: "who \<Rightarrow> hello_pc \<Rightarrow> 'g hello \<Rightarrow> 'g hello" where
  "goto w l s = s\<lparr>pc := (pc s)(w := l)\<rparr>"

definition threadA_entry :: "'g hello \<Rightarrow> 'g hello" where
  "threadA_entry s =
     (case pc s ThreadA of
        Create \<Rightarrow> goto ThreadA MaskDisable (s\<lparr>hk := k_thread_create 0 (tid_of ThreadB) PRIORITY 0 K_FOREVER (hk s)\<rparr>)
      | MaskDisable \<Rightarrow>
          goto ThreadA MaskEnable
            (if CONFIG_SCHED_CPU_MASK (hk s) then s\<lparr>hk := snd (k_thread_cpu_mask_disable (tid_of ThreadB) 1 (hk s))\<rparr> else s)
      | MaskEnable \<Rightarrow>
          goto ThreadA Start
            (if CONFIG_SCHED_CPU_MASK (hk s) then s\<lparr>hk := snd (k_thread_cpu_mask_enable (tid_of ThreadB) 0 (hk s))\<rparr> else s)
      | Start \<Rightarrow> goto ThreadA Take (s\<lparr>hk := k_thread_start 0 (tid_of ThreadB) (hk s)\<rparr>)
      | _ \<Rightarrow> s)"

definition helloLoop :: "int \<Rightarrow> (who \<Rightarrow> 'g \<Rightarrow> 'g) \<Rightarrow> who \<Rightarrow> 'g hello \<Rightarrow> 'g hello" where
  "helloLoop SLEEPTIME greet w s =
     (case pc s w of
        Take \<Rightarrow>
          let (r, sem, k) = k_sem_take 0 K_FOREVER (sems s w, hk s);
              s = s\<lparr>hk := k, sems := (sems s)(w := sem)\<rparr>
          in goto w (if r = Blocked then Taking else Greet) s
      | Taking \<Rightarrow> goto w Greet s
      | Greet \<Rightarrow> goto w Sleep (s\<lparr>greeted := greeted s @ [w], devices := greet w (devices s)\<rparr>)
      | Sleep \<Rightarrow> goto w Sleeping (s\<lparr>hk := snd (k_msleep 0 SLEEPTIME (hk s))\<rparr>)
      | Sleeping \<Rightarrow> goto w Give s
      | Give \<Rightarrow>
          let (sem, k) = k_sem_give 0 (sems s (other w), hk s)
          in goto w Take (s\<lparr>hk := k, sems := (sems s)(other w := sem)\<rparr>)
      | _ \<Rightarrow> s)"

definition thread_step :: "int \<Rightarrow> (who \<Rightarrow> 'g \<Rightarrow> 'g) \<Rightarrow> who \<Rightarrow> 'g hello \<Rightarrow> 'g hello" where
  "thread_step SLEEPTIME greet w s =
     (if pc s w \<in> {Create, MaskDisable, MaskEnable, Start} then threadA_entry s
      else helloLoop SLEEPTIME greet w s)"

text \<open>The kernel boots, its main thread starts thread A and ends.\<close>

definition hello_init :: "'g \<Rightarrow> 'g hello" where
  "hello_init g =
     \<lparr>hk = boot_with [\<lparr>init_thread = tid_of ThreadA, init_prio = PRIORITY, init_options = 0, init_delay = 0\<rparr>],
      sems = (\<lambda>w. case w of ThreadA \<Rightarrow> \<lparr>sem_wait_q = 10, count = 1, limit = 1\<rparr>
                           | ThreadB \<Rightarrow> \<lparr>sem_wait_q = 11, count = 0, limit = 1\<rparr>),
      pc = (\<lambda>w. case w of ThreadA \<Rightarrow> Create | ThreadB \<Rightarrow> Take),
      greeted = [], devices = g\<rparr>"

text \<open>
  One step of the system: the running thread makes its next call, or the environment acts:
  the clock interrupt is entered, announces ticks and returns, time passes.
\<close>

inductive hello_step :: "int \<Rightarrow> (who \<Rightarrow> 'g \<Rightarrow> 'g) \<Rightarrow> 'g hello \<Rightarrow> 'g hello \<Rightarrow> bool" for SLEEPTIME greet where
  thread: "cur0 (hk s) = tid_of w \<Longrightarrow> running (hk s) \<Longrightarrow> nested (cpus (hk s) 0) = 0 \<Longrightarrow>
    hello_step SLEEPTIME greet s (thread_step SLEEPTIME greet w s)"
| tick: "nested (cpus (hk s) 0) \<noteq> 0 \<Longrightarrow> sys_clock_announce fuel 0 (\<lambda>n s. s) ticks (hk s, ()) = Some r \<Longrightarrow>
    hello_step SLEEPTIME greet s (s\<lparr>hk := fst r\<rparr>)"
| elapse: "0 \<le> e \<Longrightarrow> hello_step SLEEPTIME greet s (s\<lparr>hk := (hk s)\<lparr>clock_elapsed := e\<rparr>\<rparr>)"
| enter: "hello_step SLEEPTIME greet s (s\<lparr>hk := isr_enter (hk s)\<rparr>)"
| exit: "nested (cpus (hk s) 0) \<noteq> 0 \<Longrightarrow> hello_step SLEEPTIME greet s (s\<lparr>hk := isr_exit (hk s)\<rparr>)"

inductive hello_reachable :: "int \<Rightarrow> (who \<Rightarrow> 'g \<Rightarrow> 'g) \<Rightarrow> 'g \<Rightarrow> 'g hello \<Rightarrow> bool" for SLEEPTIME greet g where
  boot: "hello_reachable SLEEPTIME greet g (hello_init g)"
| step: "hello_reachable SLEEPTIME greet g s \<Longrightarrow> hello_step SLEEPTIME greet s s' \<Longrightarrow>
    hello_reachable SLEEPTIME greet g s'"

section \<open>Taking turns\<close>

definition turn :: "nat \<Rightarrow> who" where
  "turn n = (if even n then ThreadA else ThreadB)"

definition turns :: "nat \<Rightarrow> who list" where
  "turns n = map turn [0..<n]"

fun wqn :: "who \<Rightarrow> nat" where
  "wqn ThreadA = 10"
| "wqn ThreadB = 11"

fun before_loop :: "hello_pc \<Rightarrow> bool" where
  "before_loop Create = True"
| "before_loop MaskDisable = True"
| "before_loop MaskEnable = True"
| "before_loop Start = True"
| "before_loop _ = False"

lemma before_loopE:
  assumes "before_loop l"
  obtains "l = Create" | "l = MaskDisable" | "l = MaskEnable" | "l = Start"
  using assms by (cases l) auto

text \<open>The thread has greeted and not yet passed the token on.\<close>

fun after_greeting :: "hello_pc \<Rightarrow> bool" where
  "after_greeting Sleep = True"
| "after_greeting Sleeping = True"
| "after_greeting Give = True"
| "after_greeting _ = False"

text \<open>The thread's turn: from its semaphore taken to the other's given.\<close>

fun in_turn :: "hello_pc \<Rightarrow> bool" where
  "in_turn Greet = True"
| "in_turn l = after_greeting l"

definition waiters :: "'g hello \<Rightarrow> who \<Rightarrow> tid list" where
  "waiters s w = waitqs (hk s) (ObjQ (wqn w))"

text \<open>
  Thread \<open>h\<close> has the token: it is in its semaphore, or \<open>h\<close> has taken it, or was woken with
  it. The other thread has neither the token nor been woken.
\<close>

definition has_token :: "'g hello \<Rightarrow> who \<Rightarrow> bool" where
  "has_token s h \<longleftrightarrow>
     count (sems s h) = 1 \<and> (before_loop (pc s h) \<or> pc s h = Take) \<or>
     count (sems s h) = 0 \<and> (pc s h = Greet \<or> after_greeting (pc s h) \<or> pc s h = Taking \<and> waiters s h = [])"

definition waits_for_token :: "'g hello \<Rightarrow> who \<Rightarrow> bool" where
  "waits_for_token s w \<longleftrightarrow>
     count (sems s w) = 0 \<and> (before_loop (pc s w) \<or> pc s w = Take \<or> pc s w = Taking \<and> waiters s w = [tid_of w])"

definition turn_ok :: "'g hello \<Rightarrow> bool" where
  "turn_ok s \<longleftrightarrow> (\<exists>h n. has_token s h \<and> waits_for_token s (other h) \<and> greeted s = turns n \<and>
     (if after_greeting (pc s h) then 0 < n \<and> h = turn (n - 1) else h = turn n))"

definition hello_inv :: "'g hello \<Rightarrow> bool" where
  "hello_inv s \<longleftrightarrow>
     sched_ok (hk s) \<and> idle0 (hk s) = 2 \<and>
     (\<forall>w. sem_wait_q (sems s w) = wqn w \<and> limit (sems s w) = 1) \<and>
     (\<forall>w. waiters s w = [] \<or>
          waiters s w = [tid_of w] \<and> pc s w = Taking \<and> ThreadTo (tid_of w) \<notin> fst ` set (timeout_list (hk s))) \<and>
     \<not> before_loop (pc s ThreadB) \<and>
     (before_loop (pc s ThreadA) \<longrightarrow>
        pc s ThreadB = Take \<and> pended_on (threads (hk s) 4) = None \<and> ThreadTo 4 \<notin> fst ` set (timeout_list (hk s)) \<and>
        waitqs (hk s) (JoinQ 4) = [] \<and>
        (bit (thread_state (threads (hk s) 4)) 0 \<or> bit (thread_state (threads (hk s) 4)) 2)) \<and>
     turn_ok s"

lemma hello_invD:
  assumes "hello_inv s"
  shows "sched_ok (hk s)" "idle0 (hk s) = 2" "sem_wait_q (sems s w) = wqn w" "limit (sems s w) = 1"
    "waiters s w \<noteq> [] \<Longrightarrow> waiters s w = [tid_of w]" "waiters s w \<noteq> [] \<Longrightarrow> pc s w = Taking"
    "waiters s w \<noteq> [] \<Longrightarrow> ThreadTo (tid_of w) \<notin> fst ` set (timeout_list (hk s))"
    "\<not> before_loop (pc s ThreadB)" "turn_ok s"
  using assms unfolding hello_inv_def by blast+

lemma hello_invD_entry:
  assumes "hello_inv s" "before_loop (pc s ThreadA)"
  shows "pc s ThreadB = Take" "pended_on (threads (hk s) 4) = None" "ThreadTo 4 \<notin> fst ` set (timeout_list (hk s))"
    "waitqs (hk s) (JoinQ 4) = []"
    "bit (thread_state (threads (hk s) 4)) 0 \<or> bit (thread_state (threads (hk s) 4)) 2"
  using assms unfolding hello_inv_def by blast+

lemma turn_Suc [simp]: "turn (Suc n) = other (turn n)"
  by (simp add: turn_def)

lemma other_other [simp]: "other (other w) = w"
  by (cases w) simp_all

lemma other_neq [simp]: "other w \<noteq> w" "w \<noteq> other w"
  by (cases w; simp)+

lemma other_cases: "v = w \<or> v = other w"
  by (cases v; cases w; simp)

lemma all_who: "(\<forall>w. P w) \<longleftrightarrow> P ThreadA \<and> P ThreadB"
  by (metis who.exhaust)

lemma wqn_other [simp]: "wqn (other w) \<noteq> wqn w"
  by (cases w) simp_all

lemma tid_inj [simp]: "tid_of v = tid_of w \<longleftrightarrow> v = w"
  by (cases v; cases w; simp)

text \<open>The environment keeps the wait queues of the semaphores.\<close>

lemma waiters_environment:
  assumes i: "hello_inv s" and ok: "sched_ok k'"
    and u: "\<And>t. ThreadTo t \<notin> fst ` set (timeout_list (hk s)) \<Longrightarrow> undisturbed t (hk s) k'"
  shows "waitqs k' (ObjQ (wqn v)) = waiters s v \<and>
    (waiters s v \<noteq> [] \<longrightarrow> ThreadTo (tid_of v) \<notin> fst ` set (timeout_list k'))"
proof (cases "waiters s v = []")
  case True
  obtain t where "ThreadTo t \<notin> fst ` set (timeout_list (hk s))"
    using hello_invD(1) [OF i] by (metis cur_ok_def sched_okD(3) z_is_inactive_timeout_def z_is_thread_timeout_active_def)
  from u [OF this] have "set (waitqs k' (ObjQ (wqn v))) \<subseteq> set (waitqs (hk s) (ObjQ (wqn v)))"
    by (simp add: undisturbed_def)
  then show ?thesis using True by (simp add: waiters_def)
next
  case False
  then have v: "waiters s v = [tid_of v]" "ThreadTo (tid_of v) \<notin> fst ` set (timeout_list (hk s))"
    using i by (auto simp: hello_inv_def)
  note uv = u [OF v(2)]
  have "pended_on (threads (hk s) (tid_of v)) = Some (ObjQ (wqn v))"
    using waitq_member [OF sched_okD(1) [OF hello_invD(1) [OF i]], of "tid_of v" "ObjQ (wqn v)"] v(1) by (simp add: waiters_def)
  then have "tid_of v \<in> set (waitqs k' (ObjQ (wqn v)))"
    using waitq_member [OF sched_okD(1) [OF ok]] uv by (simp add: undisturbed_def keeps_def)
  moreover have "set (waitqs k' (ObjQ (wqn v))) \<subseteq> set (waitqs (hk s) (ObjQ (wqn v)))"
    using uv by (simp add: undisturbed_def)
  then have "set (waitqs k' (ObjQ (wqn v))) \<subseteq> {tid_of v}" using v(1) by (simp add: waiters_def)
  moreover have "distinct (waitqs k' (ObjQ (wqn v)))" using ok by (rule waiters_distinct)
  ultimately have "waitqs k' (ObjQ (wqn v)) = [tid_of v]"
    by (cases "waitqs k' (ObjQ (wqn v))") (auto simp: subset_singleton_iff)
  then show ?thesis using v(1) uv by (simp add: undisturbed_def)
qed

lemma hello_inv_environment:
  assumes i: "hello_inv s" and ok: "sched_ok k'" "idle0 k' = idle0 (hk s)"
    and u: "\<And>t. ThreadTo t \<notin> fst ` set (timeout_list (hk s)) \<Longrightarrow> undisturbed t (hk s) k'"
  shows "hello_inv (s\<lparr>hk := k'\<rparr>)"
proof -
  note w = waiters_environment [OF i ok(1) u]
  then have ww: "waiters (s\<lparr>hk := k'\<rparr>) v = waiters s v" for v by (simp add: waiters_def)
  have "turn_ok (s\<lparr>hk := k'\<rparr>)" using i unfolding hello_inv_def turn_ok_def has_token_def waits_for_token_def ww by simp
  moreover have "before_loop (pc s ThreadA) \<longrightarrow>
        pended_on (threads k' 4) = None \<and> ThreadTo 4 \<notin> fst ` set (timeout_list k') \<and>
        waitqs k' (JoinQ 4) = [] \<and> (bit (thread_state (threads k' 4)) 0 \<or> bit (thread_state (threads k' 4)) 2)"
  proof
    assume "before_loop (pc s ThreadA)"
    then have b: "pended_on (threads (hk s) 4) = None" "ThreadTo 4 \<notin> fst ` set (timeout_list (hk s))"
      "waitqs (hk s) (JoinQ 4) = []"
      "bit (thread_state (threads (hk s) 4)) 0 \<or> bit (thread_state (threads (hk s) 4)) 2"
      using i unfolding hello_inv_def by blast+
    have "set (waitqs k' (JoinQ 4)) \<subseteq> set (waitqs (hk s) (JoinQ 4))" using u [OF b(2)] by (simp add: undisturbed_def)
    then show "pended_on (threads k' 4) = None \<and> ThreadTo 4 \<notin> fst ` set (timeout_list k') \<and>
        waitqs k' (JoinQ 4) = [] \<and> (bit (thread_state (threads k' 4)) 0 \<or> bit (thread_state (threads k' 4)) 2)"
      using b u [OF b(2)] by (simp add: undisturbed_def keeps_def)
  qed
  moreover have "waiters s v = [] \<or> waiters s v = [tid_of v] \<and> pc s v = Taking \<and>
      ThreadTo (tid_of v) \<notin> fst ` set (timeout_list k')" for v
    using i w [of v] unfolding hello_inv_def by blast
  ultimately show ?thesis using i ok unfolding hello_inv_def ww by simp
qed

text \<open>The running thread waits for nothing and has no timeout; thread B runs only once it was started.\<close>

lemma running_thread:
  assumes "hello_inv s" "cur0 (hk s) = tid_of w" "running (hk s)"
  shows "waiters s w = []" "ThreadTo (tid_of w) \<notin> fst ` set (timeout_list (hk s))"
    "before_loop (pc s w) \<Longrightarrow> w = ThreadA" "before_loop (pc s ThreadA) \<Longrightarrow> w = ThreadA"
proof -
  note ok = hello_invD(1) [OF assms(1)]
  have "tid_of w \<notin> set (waiters s w)"
    using running_not_pended [OF ok assms(3)] waitq_member [OF sched_okD(1) [OF ok], of "tid_of w"] assms(2)
    by (simp add: waiters_def)
  then show "waiters s w = []" using hello_invD(5) [OF assms(1), of w] by fastforce
  show "ThreadTo (tid_of w) \<notin> fst ` set (timeout_list (hk s))"
    using sched_okD(3) [OF ok] assms(2)
    by (simp add: cur_ok_def z_is_thread_timeout_active_def z_is_inactive_timeout_def)
  show "before_loop (pc s w) \<Longrightarrow> w = ThreadA" using hello_invD(8) [OF assms(1)] by (cases w) simp_all
  show "w = ThreadA" if "before_loop (pc s ThreadA)"
    using hello_invD_entry(5) [OF assms(1) that] assms(2,3) by (cases w) (auto simp: running_def state_bits)
qed

lemma hello_inv_entry:
  assumes i: "hello_inv s" and p: "before_loop (pc s ThreadA)" "before_loop l \<or> l = Take"
    and k: "sched_ok k" "idle0 k = idle0 (hk s)" "waitqs k = waitqs (hk s)" "timeout_list k = timeout_list (hk s)"
    and b: "before_loop l \<Longrightarrow> pended_on (threads k 4) = None \<and>
      (bit (thread_state (threads k 4)) 0 \<or> bit (thread_state (threads k 4)) 2)"
  shows "hello_inv (goto ThreadA l (s\<lparr>hk := k\<rparr>))"
proof -
  let ?s = "goto ThreadA l (s\<lparr>hk := k\<rparr>)"
  have f: "waiters ?s v = waiters s v" "sems ?s = sems s" "greeted ?s = greeted s" "hk ?s = k"
    "pc ?s = (pc s)(ThreadA := l)" for v
    using k(3) by (simp_all add: waiters_def goto_def)
  have l: "\<not> after_greeting l" "l \<noteq> Taking" "l \<noteq> Greet" "\<not> after_greeting (pc s ThreadA)" "pc s ThreadA \<noteq> Taking" "pc s ThreadA \<noteq> Greet"
    using p by (auto elim: before_loopE)
  have t: "has_token ?s h = has_token s h" "waits_for_token ?s h = waits_for_token s h"
     "after_greeting (pc ?s h) = after_greeting (pc s h)" for h
    using p l by (cases h; simp add: has_token_def waits_for_token_def f; metis)+
  have "turn_ok ?s" using hello_invD(9) [OF i] unfolding turn_ok_def t f(3) .
  moreover have "waiters s ThreadA = []" using hello_invD(6) [OF i, of ThreadA] l by auto
  moreover have "waiters s ThreadB = []"
    using hello_invD(6) [OF i, of ThreadB] hello_invD_entry(1) [OF i p(1)] by auto
  moreover note hello_invD_entry [OF i p(1)]
  ultimately show ?thesis using hello_invD [OF i] k b unfolding hello_inv_def f
    by (simp add: all_who)
qed

lemma hello_inv_create:
  assumes i: "hello_inv s" and c: "cur0 (hk s) = tid_of ThreadA" "running (hk s)" and p: "before_loop (pc s ThreadA)"
  shows "hello_inv (threadA_entry s)"
proof -
  note r = running_thread [OF i c]
  have ok: "sched_ok (hk s)" "\<not> CONFIG_SMP (hk s)" "idle0 (hk s) = 2" using hello_invD [OF i] by simp_all
  have b: "pended_on (threads (hk s) 4) = None" "ThreadTo 4 \<notin> fst ` set (timeout_list (hk s))" "waitqs (hk s) (JoinQ 4) = []"
    "bit (thread_state (threads (hk s) 4)) 0 \<or> bit (thread_state (threads (hk s) 4)) 2"
    using hello_invD_entry [OF i p] by simp_all
  note e = hello_inv_entry [OF i p]
  from p show ?thesis
  proof (cases rule: before_loopE)
    case 1
    have "\<not> z_is_thread_ready (hk s) 4" using b(4) by (auto simp: state_bits)
    then have "\<not> z_is_thread_queued (threads (hk s) 4)"
      using kinv_queued [OF sched_okD(1) [OF ok(1)], of 4] ok(3) by simp
    then have "reusable 4 (hk s)"
      using b c(1) ok(3) by (simp add: reusable_def z_is_thread_timeout_active_def z_is_inactive_timeout_def)
    note st = sched_ok_setup(1) [OF ok(1) this, of PRIORITY 0]
    have "waitqs (z_setup_new_thread 4 PRIORITY 0 (hk s)) = waitqs (hk s)" using b(3) by (simp add: fun_upd_idem)
    from e [OF _ st _ this, of MaskDisable]
    show ?thesis using 1 by (simp add: threadA_entry_def k_thread_create_def setup_threads bit_PRESTART)
  next
    case 2
    have "sched_ok (snd (cpu_mask_mod 4 0 m (hk s)))" for m using ok(1) by (rule sched_ok_cpu_mask_mod)
    then show ?thesis
      using 2 b ok e [of MaskEnable "hk s"]
        e [of MaskEnable "snd (cpu_mask_mod 4 0 (push_bit 1 1) (hk s))"]
      by (simp add: threadA_entry_def k_thread_cpu_mask_disable_def cpu_mask_mod_def)
  next
    case 3
    have "sched_ok (snd (cpu_mask_mod 4 m 0 (hk s)))" for m using ok(1) by (rule sched_ok_cpu_mask_mod)
    then show ?thesis
      using 3 b ok e [of Start "hk s"]
        e [of Start "snd (cpu_mask_mod 4 (push_bit 0 1) 0 (hk s))"]
      by (simp add: threadA_entry_def k_thread_cpu_mask_enable_def cpu_mask_mod_def)
  next
    case 4
    have "kstep (hk s) (k_thread_start 0 4 (hk s))" by (rule kstep.start)
    then have "sched_ok (k_thread_start 0 4 (hk s))" using ok(1) by (rule kstep_sched_ok)
    then show ?thesis
      using 4 ok e [of Take "k_thread_start 0 4 (hk s)"]
      by (simp add: threadA_entry_def k_thread_start_def timeouts_start)
  qed
qed

text \<open>A step of a thread in its loop.\<close>

lemma hello_inv_next:
  assumes i: "hello_inv s" and c: "cur0 (hk s) = tid_of w" "running (hk s)" and p: "\<not> before_loop (pc s w)"
    and k: "sched_ok (hk s')" "idle0 (hk s') = idle0 (hk s)"
    and pc: "pc s' = (pc s)(w := l)" "\<not> before_loop l"
    and sems: "\<And>v. sem_wait_q (sems s' v) = sem_wait_q (sems s v) \<and> limit (sems s' v) = limit (sems s v)"
    and w: "waiters s' w = [] \<or> waiters s' w = [tid_of w] \<and> l = Taking"
      "waiters s' (other w) = waiters s (other w) \<or> waiters s' (other w) = []"
    and to: "fst ` set (timeout_list (hk s')) \<subseteq> insert (ThreadTo (tid_of w)) (fst ` set (timeout_list (hk s)))"
      "l = Taking \<Longrightarrow> ThreadTo (tid_of w) \<notin> fst ` set (timeout_list (hk s'))"
    and t: "turn_ok s'"
  shows "hello_inv s'"
proof -
  have b: "\<not> before_loop (pc s v)" for v
    using p running_thread(4) [OF i c] hello_invD(8) [OF i] by (cases v) auto
  have "waiters s' v = [] \<or>
      waiters s' v = [tid_of v] \<and> pc s' v = Taking \<and> ThreadTo (tid_of v) \<notin> fst ` set (timeout_list (hk s'))" for v
  proof (cases "v = w")
    case True
    then show ?thesis using w(1) to(2) pc(1) by auto
  next
    case False
    then have v: "v = other w" using other_cases by blast
    show ?thesis
    proof (cases "waiters s' v = []")
      case False
      then have n: "waiters s v \<noteq> []" "waiters s' v = waiters s v" using w(2) v by auto
      have "ThreadTo (tid_of v) \<notin> insert (ThreadTo (tid_of w)) (fst ` set (timeout_list (hk s)))"
        using hello_invD(7) [OF i n(1)] \<open>v \<noteq> w\<close> by simp
      then show ?thesis
        using to(1) hello_invD(5,6) [OF i n(1)] n(2) pc(1) \<open>v \<noteq> w\<close> by (metis fun_upd_other subsetD)
    qed simp
  qed
  moreover have "\<not> before_loop (pc s' v)" for v using b pc by simp
  moreover have "sem_wait_q (sems s' v) = wqn v \<and> limit (sems s' v) = 1" for v
    using sems hello_invD(3,4) [OF i] by simp
  ultimately show ?thesis using hello_invD(2) [OF i] k t unfolding hello_inv_def by simp
qed

lemma turnE:
  assumes "hello_inv s" "cur0 (hk s) = tid_of w" "running (hk s)" "\<not> before_loop (pc s w)"
  obtains (token) n where "has_token s w" "waits_for_token s (other w)" "greeted s = turns n"
      "if after_greeting (pc s w) then 0 < n \<and> w = turn (n - 1) else w = turn n"
  | (none) n where "has_token s (other w)" "count (sems s w) = 0" "pc s w = Take" "greeted s = turns n"
      "if after_greeting (pc s (other w)) then 0 < n \<and> other w = turn (n - 1) else other w = turn n"
proof -
  obtain h n where h: "has_token s h" "waits_for_token s (other h)" "greeted s = turns n"
     "if after_greeting (pc s h) then 0 < n \<and> h = turn (n - 1) else h = turn n"
    using hello_invD(9) [OF assms(1)] unfolding turn_ok_def by blast
  show ?thesis
  proof (cases "h = w")
    case True
    then show ?thesis using h token by blast
  next
    case False
    then have e: "h = other w" using other_cases by blast
    have "waiters s w = []" using running_thread(1) [OF assms(1-3)] .
    then have "count (sems s w) = 0" "pc s w = Take" using h(2) assms(4) by (simp_all add: e waits_for_token_def)
    then show ?thesis using none h(1,3,4) unfolding e by blast
  qed
qed

lemma waiters_fields [simp]: "waiters (goto w l s) = waiters s" "waiters (s\<lparr>sems := f\<rparr>) = waiters s"
  "waiters (s\<lparr>greeted := gs\<rparr>) = waiters s" "waiters (s\<lparr>devices := d\<rparr>) = waiters s"
  by (simp_all add: fun_eq_iff waiters_def goto_def)

lemma goto_fields [simp]: "hk (goto w l s) = hk s" "sems (goto w l s) = sems s" "greeted (goto w l s) = greeted s"
  "pc (goto w l s) = (pc s)(w := l)"
  by (simp_all add: goto_def)

lemma turn_okI:
  assumes "has_token s h" "waits_for_token s (other h)" "greeted s = turns n"
    "if after_greeting (pc s h) then 0 < n \<and> h = turn (n - 1) else h = turn n"
  shows "turn_ok s"
  using assms unfolding turn_ok_def by blast

lemma hello_inv_take:
  assumes i: "hello_inv s" and c: "cur0 (hk s) = tid_of w" "running (hk s)" and p: "pc s w = Take"
  shows "hello_inv (helloLoop SLEEPTIME greet w s)"
proof -
  have b: "\<not> before_loop (pc s w)" by (simp add: p)
  note nx = hello_inv_next [OF i c b] and r = running_thread(1,2) [OF i c] and ok = hello_invD(1) [OF i]
  from i c b show ?thesis
  proof (cases rule: turnE)
    case (token n)
    let ?s = "goto w Greet (s\<lparr>sems := (sems s)(w := (sems s w)\<lparr>count := 0\<rparr>)\<rparr>)"
    have ct: "count (sems s w) = 1" using token(1) p by (simp add: has_token_def)
    have "turn_ok ?s"
      using token p by (intro turn_okI [of _ w n]) (simp_all add: has_token_def waits_for_token_def)
    then have "hello_inv ?s"
      using ok r by (intro nx) (auto simp: )
    then show ?thesis using p ct by (simp add: helloLoop_def k_sem_take_def)
  next
    case (none n)
    let ?k = "z_pend_curr 0 (Some (ObjQ (wqn w))) K_FOREVER (hk s)"
    let ?s = "goto w Taking (s\<lparr>hk := ?k\<rparr>)"
    have q: "waiters ?s w = [tid_of w]" "waiters ?s (other w) = waiters s (other w)"
      using r(1) c(1) ok by (simp_all add: waiters_def waitqs_z_pend_curr)
    have "turn_ok ?s"
      using none p q by (intro turn_okI [of _ "other w" n]) (simp_all add: has_token_def waits_for_token_def)
    then have "hello_inv ?s"
      using ok r q take_blocks [OF ok] sched_ok_block [OF ok c(2)] by (intro nx) (auto simp: )
    then show ?thesis using p none(2) hello_invD(3) [OF i] by (simp add: helloLoop_def k_sem_take_def)
  qed
qed

lemma hello_inv_greet:
  assumes i: "hello_inv s" and c: "cur0 (hk s) = tid_of w" "running (hk s)"
    and p: "pc s w = Taking \<or> pc s w = Greet \<or> pc s w = Sleeping"
  shows "hello_inv (helloLoop SLEEPTIME greet w s)"
proof -
  have b: "\<not> before_loop (pc s w)" using p by auto
  note nx = hello_inv_next [OF i c b] and r = running_thread(1,2) [OF i c] and ok = hello_invD(1) [OF i]
  obtain n where t: "has_token s w" "waits_for_token s (other w)" "greeted s = turns n"
      "if after_greeting (pc s w) then 0 < n \<and> w = turn (n - 1) else w = turn n"
    using i c b p by (cases rule: turnE) auto
  have n: "hello_inv (goto w l s')" if "hk s' = hk s" "sems s' = sems s" "pc s' = pc s" "\<not> before_loop l" "l \<noteq> Taking"
      "turn_ok (goto w l s')" for l s'
  proof -
    have "waiters s' = waiters s" using that(1) by (simp add: fun_eq_iff waiters_def)
    then show ?thesis using that ok r by (intro nx [where l = l]) auto
  qed
  from p consider "pc s w = Taking" | "pc s w = Greet" | "pc s w = Sleeping" by blast
  then show ?thesis
  proof cases
    case 1
    then have "turn_ok (goto w Greet s)"
      using t by (intro turn_okI [of _ w n]) (simp_all add: has_token_def waits_for_token_def)
    then show ?thesis using n [of s Greet] 1 by (simp add: helloLoop_def)
  next
    case 2
    let ?s = "s\<lparr>greeted := greeted s @ [w], devices := greet w (devices s)\<rparr>"
    have "turns n @ [w] = turns (Suc n)" using t(4) 2 by (simp add: turns_def)
    then have "turn_ok (goto w Sleep ?s)"
      using t 2 by (intro turn_okI [of _ w "Suc n"]) (simp_all add: has_token_def waits_for_token_def)
    then show ?thesis using n [of ?s Sleep] 2 by (simp add: helloLoop_def)
  next
    case 3
    then have "turn_ok (goto w Give s)"
      using t by (intro turn_okI [of _ w n]) (simp_all add: has_token_def waits_for_token_def)
    then show ?thesis using n [of s Give] 3 by (simp add: helloLoop_def)
  qed
qed

lemma hello_inv_sleep:
  assumes i: "hello_inv s" and c: "cur0 (hk s) = tid_of w" "running (hk s)" and p: "pc s w = Sleep"
  shows "hello_inv (helloLoop SLEEPTIME greet w s)"
proof -
  have b: "\<not> before_loop (pc s w)" using p by auto
  note nx = hello_inv_next [OF i c b] and r = running_thread(1,2) [OF i c] and ok = hello_invD(1) [OF i]
  obtain n where t: "has_token s w" "waits_for_token s (other w)" "greeted s = turns n"
      "if after_greeting (pc s w) then 0 < n \<and> w = turn (n - 1) else w = turn n"
    using i c b p by (cases rule: turnE) auto
  let ?k = "snd (k_sleep 0 (K_MSEC SLEEPTIME) (hk s))"
  let ?s = "goto w Sleeping (s\<lparr>hk := ?k\<rparr>)"
  have k: "sched_ok ?k" using kstep_sched_ok [OF kstep.sleep [OF c(2)] ok] .
  have w: "waiters ?s v = waiters s v" for v
    using ok by (simp add: waiters_def)
  have "turn_ok ?s"
    using t p w by (intro turn_okI [of _ w n]) (simp_all add: has_token_def waits_for_token_def)
  moreover have "idle0 ?k = idle0 (hk s)" using ok by simp
  ultimately have "hello_inv ?s"
    using k r w sleep_timeouts [OF ok, of "K_MSEC SLEEPTIME"] c(1) by (intro nx [where l = Sleeping]) auto
  then show ?thesis using p by (simp add: helloLoop_def k_msleep_def)
qed

lemma hello_inv_give:
  assumes i: "hello_inv s" and c: "cur0 (hk s) = tid_of w" "running (hk s)" and p: "pc s w = Give"
  shows "hello_inv (helloLoop SLEEPTIME greet w s)"
proof -
  have b: "\<not> before_loop (pc s w)" using p by auto
  note nx = hello_inv_next [OF i c b] and r = running_thread(1,2) [OF i c] and ok = hello_invD(1) [OF i]
  obtain n where t: "has_token s w" "waits_for_token s (other w)" "greeted s = turns (Suc n)" "w = turn n"
    using i c b p by (cases rule: turnE) (auto simp: gr0_conv_Suc)
  let ?sem = "sems s (other w)"
  obtain sem k where g: "k_sem_give 0 (?sem, hk s) = (sem, k)" by fastforce
  let ?s = "goto w Take (s\<lparr>hk := k, sems := (sems s)(other w := sem)\<rparr>)"
  have nb: "\<not> before_loop (pc s (other w))"
    using b running_thread(4) [OF i c] hello_invD(8) [OF i] by (cases w) auto
  have q: "sem_wait_q ?sem = wqn (other w)" "limit ?sem = 1" using hello_invD(3,4) [OF i] by simp_all
  have tw: "count (sems s w) = 0" "count ?sem = 0" using t p by (simp_all add: has_token_def waits_for_token_def)
  have e: "sched_ok k" "idle0 k = idle0 (hk s)" "sem_wait_q sem = wqn (other w)" "limit sem = 1"
     "waitqs k (ObjQ (wqn w)) = waiters s w" "waitqs k (ObjQ (wqn (other w))) = []"
     "count sem = (if waiters s (other w) = [] then 1 else 0)"
  proof -
    have "sched_ok k \<and> idle0 k = idle0 (hk s) \<and> sem_wait_q sem = wqn (other w) \<and> limit sem = 1 \<and>
       waitqs k (ObjQ (wqn w)) = waiters s w \<and> waitqs k (ObjQ (wqn (other w))) = [] \<and>
       count sem = (if waiters s (other w) = [] then 1 else 0)"
    proof (cases "waiters s (other w)")
      case Nil
      then have "waitqs (hk s) (ObjQ (sem_wait_q ?sem)) = []" by (simp add: q waiters_def)
      from k_sem_give_store [OF ok this] show ?thesis
        using g q tw Nil ok sched_ok_reschedule [OF ok] by (auto simp: waiters_def)
    next
      case (Cons v vs)
      then have "waitqs (hk s) (ObjQ (sem_wait_q ?sem)) = v # vs" "vs = []"
        using hello_invD(5) [OF i, of "other w"] by (simp_all add: q waiters_def)
      from k_sem_give_waiter [OF ok this(1)] this(2) show ?thesis
        using g q tw Cons wqn_other [of w, THEN not_sym] by (simp add: waiters_def)
    qed
    then show "sched_ok k" "idle0 k = idle0 (hk s)" "sem_wait_q sem = wqn (other w)" "limit sem = 1"
     "waitqs k (ObjQ (wqn w)) = waiters s w" "waitqs k (ObjQ (wqn (other w))) = []"
     "count sem = (if waiters s (other w) = [] then 1 else 0)" by blast+
  qed
  have w: "waiters ?s w = []" "waiters ?s (other w) = []" using e r by (simp_all add: waiters_def)
  have "turn_ok ?s"
    using t(2,3,4) nb tw e(7) w hello_invD(6) [OF i, of "other w"]
    by (intro turn_okI [of _ "other w" "Suc n"]) (auto simp: has_token_def waits_for_token_def)
  moreover have "fst ` set (timeout_list k) \<subseteq> fst ` set (timeout_list (hk s))"
    using give_timeouts [OF ok, of ?sem] by (simp add: g)
  ultimately have "hello_inv ?s"
    using e w q by (intro nx [where l = Take]) auto
  then show ?thesis using p g by (simp add: helloLoop_def)
qed

lemma hello_inv_thread:
  assumes "hello_inv s" "cur0 (hk s) = tid_of w" "running (hk s)"
  shows "hello_inv (thread_step SLEEPTIME greet w s)"
proof (cases "before_loop (pc s w)")
  case True
  moreover have "w = ThreadA" using running_thread(3) [OF assms True] .
  ultimately show ?thesis using assms hello_inv_create by (auto simp: thread_step_def elim: before_loopE)
next
  case False
  then have "thread_step SLEEPTIME greet w s = helloLoop SLEEPTIME greet w s" by (auto simp: thread_step_def)
  with False show ?thesis
    using hello_inv_take [OF assms] hello_inv_greet [OF assms] hello_inv_sleep [OF assms] hello_inv_give [OF assms]
    by (cases "pc s w") simp_all
qed

lemma hello_inv_step: "hello_step SLEEPTIME greet s s' \<Longrightarrow> hello_inv s \<Longrightarrow> hello_inv s'"
proof (induction rule: hello_step.induct)
  case (thread s w)
  then show ?case by (intro hello_inv_thread)
next
  case (tick s fuel ticks r)
  note ok = hello_invD(1) [OF tick.prems]
  have "idle0 (fst r) = idle0 (hk s)"
    using same_masks_announce [OF tick.hyps(2)] ok by (simp add: same_masks_def same_cpu_def)
  then show ?case using kstep_sched_ok [OF kstep.tick [OF tick.hyps(2)] ok] undisturbed_announce [OF tick.hyps(2)]
    by (intro hello_inv_environment [OF tick.prems])
next
  case (elapse e s)
  note ok = hello_invD(1) [OF elapse.prems]
  show ?case using kstep_sched_ok [OF kstep.elapse [OF elapse.hyps] ok] undisturbed_isr(3) [OF ok]
    by (intro hello_inv_environment [OF elapse.prems]) simp_all
next
  case (enter s)
  note ok = hello_invD(1) [OF enter.prems]
  show ?case using kstep_sched_ok [OF kstep.enter ok] undisturbed_isr(1) [OF ok] idle_isr(2)
    by (intro hello_inv_environment [OF enter.prems]) simp_all
next
  case (exit s)
  note ok = hello_invD(1) [OF exit.prems]
  show ?case using kstep_sched_ok [OF kstep.exit [OF exit.hyps] ok] undisturbed_isr(2) [OF ok] idle_isr(1) [OF ok]
    by (intro hello_inv_environment [OF exit.prems]) simp_all
qed



lemma hello_boot:
  fixes g :: 'g
  defines "k \<equiv> hk (hello_init g)"
  shows "sched_ok k" "cur0 k = 3" "idle0 k = 2" "nested (cpus k 0) = 0" "cache k = 3" "\<not> irq_masked (cpus k 0)"
    "t \<notin> {1, 2, 3} \<Longrightarrow> unborn t k" "bit (thread_state (threads k 1)) 3" "is_preempt (threads k 2)"
    "cpu_mask (threads k 3) = - 1" "z_is_thread_ready k 3" "running k"
  using main_thread_boot by (simp_all add: k_def hello_init_def running_def)

lemma hello_inv_boot: "hello_inv (hello_init g)"
proof -
  note b = hello_boot [where g = g]
  have w: "waiters (hello_init g) v = []" for v using b(7) [of 4] by (simp add: unborn_def waiters_def)
  have f: "sems (hello_init g) v = (case v of ThreadA \<Rightarrow> \<lparr>sem_wait_q = 10, count = 1, limit = 1\<rparr>
                           | ThreadB \<Rightarrow> \<lparr>sem_wait_q = 11, count = 0, limit = 1\<rparr>)"
     "pc (hello_init g) v = (case v of ThreadA \<Rightarrow> Create | ThreadB \<Rightarrow> Take)" "greeted (hello_init g) = []" for v
    by (simp_all add: hello_init_def)
  have "turn_ok (hello_init g)"
    by (rule turn_okI [of _ ThreadA 0]) (simp_all add: has_token_def waits_for_token_def f turn_def turns_def)
  then show ?thesis using b(1-3) b(7) [of 4] by (simp add: hello_inv_def w f all_who unborn_def bit_DUMMY)
qed

lemma hello_reachable_inv: "hello_reachable SLEEPTIME greet g s \<Longrightarrow> hello_inv s"
  by (induction rule: hello_reachable.induct) (auto intro: hello_inv_boot hello_inv_step)

lemma devices_thread_step:
  assumes "devices s = fold greet (greeted s) g"
  shows "devices (thread_step SLEEPTIME greet w s) = fold greet (greeted (thread_step SLEEPTIME greet w s)) g"
  using assms
  by (auto simp: thread_step_def threadA_entry_def helloLoop_def goto_def split: hello_pc.splits prod.splits)

lemma devices_reachable: "hello_reachable SLEEPTIME greet g s \<Longrightarrow> devices s = fold greet (greeted s) g"
proof (induction rule: hello_reachable.induct)
  case boot
  show ?case by (simp add: hello_init_def)
next
  case (step s s')
  from step.hyps(2) step.IH show ?case by cases (simp_all add: devices_thread_step)
qed

lemma one_turn:
  assumes "hello_inv s"
  shows "\<exists>n. greeted s = turns n" "\<not> (in_turn (pc s ThreadA) \<and> in_turn (pc s ThreadB))"
proof -
  obtain h n where h: "waits_for_token s (other h)" "greeted s = turns n"
    using hello_invD(9) [OF assms] unfolding turn_ok_def by blast
  show "\<exists>n. greeted s = turns n" using h(2) by blast
  have "\<not> in_turn (pc s (other h))" using h(1) by (auto simp: waits_for_token_def elim: before_loopE)
  then show "\<not> (in_turn (pc s ThreadA) \<and> in_turn (pc s ThreadB))" by (cases h) auto
qed

section \<open>Properties\<close>

text \<open>
  C40: The two threads take turns. In every state the application can reach, under any
  interleaving of clock interrupts, the greetings so far are by thread A, thread B, thread A
  and so on; at most one thread is between taking its semaphore and giving the other's; and
  the devices are as the greetings in this order leave them.
\<close>

theorem hello_takes_turns:
  assumes "hello_reachable SLEEPTIME greet g s"
  shows "(\<exists>n. greeted s = turns n) \<and> \<not> (in_turn (pc s ThreadA) \<and> in_turn (pc s ThreadB)) \<and>
    devices s = fold greet (greeted s) g"
  using one_turn [OF hello_reachable_inv [OF assms]] devices_reachable [OF assms] by blast

theorem hello_takes_turns_witness:
  "pc (thread_step 500 (\<lambda>w n. n + 1) ThreadA (hello_init (0 :: nat))) ThreadA = MaskDisable \<and>
   devices (thread_step 500 (\<lambda>w n. n + 1) ThreadA (hello_init (0 :: nat))) = 0"
proof -
  have "hello_reachable 500 (\<lambda>w n. n + 1) (0 :: nat) (thread_step 500 (\<lambda>w n. n + 1) ThreadA (hello_init (0 :: nat)))"
    using hello_boot [where g = "0 :: nat"] by (intro hello_reachable.step [OF hello_reachable.boot] hello_step.thread) simp_all
  from hello_takes_turns [OF this] show ?thesis
    by (simp add: thread_step_def threadA_entry_def hello_init_def goto_def)
qed

end
