(* ===== verification/Hello_Progress.thy ===== *)
theory Hello_Progress
  imports Hello
begin

text \<open>
  The greeting application makes progress: whatever has happened, the threads and the clock
  can bring about the next greeting. A thread that does not wait for the other is ready, or
  sleeps with a timeout that wakes it; the scheduler runs a ready thread; and every step of a
  thread brings the next greeting closer.
\<close>

section \<open>No thread is lost\<close>

definition idles :: "tid \<Rightarrow> kernel \<Rightarrow> bool" where
  "idles t k \<longleftrightarrow> (\<forall>n\<in>{0, 2, 3, 4}. \<not> bit (thread_state (threads k t)) n)"

definition up :: "'g hello \<Rightarrow> who \<Rightarrow> bool" where
  "up s w \<longleftrightarrow> z_is_thread_ready (hk s) (tid_of w) \<or>
     pc s w = Sleeping \<and> dozes (tid_of w) (hk s) \<or>
     pc s w = Taking \<and> waiters s w = [tid_of w] \<and> idles (tid_of w) (hk s)"

definition created :: "'g hello \<Rightarrow> bool" where
  "created s \<longleftrightarrow> (pc s ThreadA \<in> {MaskDisable, MaskEnable, Start} \<longrightarrow>
     thread_state (threads (hk s) 4) AND NOT THREAD_QUEUED = THREAD_PRESTART)"

definition live_inv :: "'g hello \<Rightarrow> bool" where
  "live_inv s \<longleftrightarrow>
     \<not> irq_masked (cpus (hk s) 0) \<and> (nested (cpus (hk s) 0) = 0 \<longrightarrow> cur0 (hk s) = cache (hk s)) \<and>
     (\<forall>t. t \<notin> {2, 3, 4} \<longrightarrow> z_is_thread_prevented_from_running (threads (hk s) t) \<and>
          ThreadTo t \<notin> fst ` set (timeout_list (hk s))) \<and>
     is_preempt (threads (hk s) 2) \<and>
     allowed (hk s) 3 \<and> (pc s ThreadA \<noteq> Create \<longrightarrow> allowed (hk s) 4) \<and>
     up s ThreadA \<and> (\<not> before_loop (pc s ThreadA) \<longrightarrow> up s ThreadB) \<and> created s"

lemma live_invD:
  assumes "live_inv s"
  shows "\<not> irq_masked (cpus (hk s) 0)" "nested (cpus (hk s) 0) = 0 \<Longrightarrow> cur0 (hk s) = cache (hk s)"
    "t \<notin> {2, 3, 4} \<Longrightarrow> z_is_thread_prevented_from_running (threads (hk s) t)"
    "t \<notin> {2, 3, 4} \<Longrightarrow> ThreadTo t \<notin> fst ` set (timeout_list (hk s))"
    "is_preempt (threads (hk s) 2)" "allowed (hk s) 3" "pc s ThreadA \<noteq> Create \<Longrightarrow> allowed (hk s) 4"
    "up s ThreadA" "\<not> before_loop (pc s ThreadA) \<Longrightarrow> up s ThreadB" "created s"
  using assms unfolding live_inv_def by blast+

lemma keeps_prestart:
  assumes "keeps t k k'"
  shows "thread_state (threads k' t) AND NOT THREAD_QUEUED = thread_state (threads k t) AND NOT THREAD_QUEUED"
proof (rule bit_word_eqI)
  fix n
  show "bit (thread_state (threads k' t) AND NOT THREAD_QUEUED) n = bit (thread_state (threads k t) AND NOT THREAD_QUEUED) n"
    using assms bit_QUEUED [of n] by (simp only: keeps_def bit_and_iff bit_not_iff) auto
qed

lemma idle_no_timeout:
  assumes "sched_ok k"
  shows "ThreadTo (idle0 k) \<notin> fst ` set (timeout_list k)"
  using sched_okD(1) [OF assms] by (simp add: kinv_but_def idle_ok_def state_bits)

lemma up_environment:
  assumes i: "hello_inv s" "hello_inv (s\<lparr>hk := k'\<rparr>)" and u: "up s w"
    and k: "\<And>t. ThreadTo t \<notin> fst ` set (timeout_list (hk s)) \<Longrightarrow> keeps t (hk s) k'"
    and d: "dozes (tid_of w) (hk s) \<Longrightarrow> z_is_thread_ready k' (tid_of w) \<or> dozes (tid_of w) k'"
  shows "up (s\<lparr>hk := k'\<rparr>) w"
proof -
  note ok = hello_invD(1) [OF i(1)] hello_invD(1) [OF i(2)]
  consider "z_is_thread_ready (hk s) (tid_of w)" | "pc s w = Sleeping" "dozes (tid_of w) (hk s)"
    | "pc s w = Taking" "waiters s w = [tid_of w]" "idles (tid_of w) (hk s)"
    using u unfolding up_def by blast
  then show ?thesis
  proof cases
    case 1
    then have "ThreadTo (tid_of w) \<notin> fst ` set (timeout_list (hk s))" by (simp add: state_bits)
    from keeps_ready [OF k [OF this]] 1 show ?thesis by (simp add: up_def)
  next
    case 2
    then show ?thesis using d by (auto simp: up_def)
  next
    case 3
    then have n: "ThreadTo (tid_of w) \<notin> fst ` set (timeout_list (hk s))"
      using hello_invD(7) [OF i(1), of w] by simp
    note kp = k [OF n]
    have "tid_of w \<in> set (waitqs (hk s) (ObjQ (wqn w)))" using 3(2) by (simp add: waiters_def)
    then have "tid_of w \<in> set (waitqs k' (ObjQ (wqn w)))"
      using waitq_member [OF sched_okD(1) [OF ok(1)]] waitq_member [OF sched_okD(1) [OF ok(2)]] kp
      by (simp add: keeps_def)
    then have "waiters (s\<lparr>hk := k'\<rparr>) w \<noteq> []" by (auto simp: waiters_def)
    then have "waiters (s\<lparr>hk := k'\<rparr>) w = [tid_of w]" using hello_invD(5) [OF i(2)] by blast
    moreover have "idles (tid_of w) k'" using 3(3) kp by (simp add: idles_def keeps_def)
    ultimately show ?thesis using 3(1) by (simp add: up_def)
  qed
qed

lemma live_environment:
  assumes i: "hello_inv s" "hello_inv (s\<lparr>hk := k'\<rparr>)" and l: "live_inv s"
    and k: "\<And>t. ThreadTo t \<notin> fst ` set (timeout_list (hk s)) \<Longrightarrow> undisturbed t (hk s) k'"
    and d: "\<And>t. dozes t (hk s) \<Longrightarrow> z_is_thread_ready k' t \<or> dozes t k'"
    and c: "\<not> irq_masked (cpus k' 0)" "nested (cpus k' 0) = 0 \<Longrightarrow> cur0 k' = cache k'"
    and m: "\<And>t. allowed k' t = allowed (hk s) t"
  shows "live_inv (s\<lparr>hk := k'\<rparr>)"
proof -
  note L = live_invD [OF l]
  have kp: "ThreadTo t \<notin> fst ` set (timeout_list (hk s)) \<Longrightarrow> keeps t (hk s) k'" for t
    using k by (simp add: undisturbed_def)
  have 2: "ThreadTo 2 \<notin> fst ` set (timeout_list (hk s))"
    using idle_no_timeout [OF hello_invD(1) [OF i(1)]] hello_invD(2) [OF i(1)] by simp
  have "up (s\<lparr>hk := k'\<rparr>) ThreadA" using up_environment [OF i L(8) kp d] by simp
  moreover have "\<not> before_loop (pc s ThreadA) \<Longrightarrow> up (s\<lparr>hk := k'\<rparr>) ThreadB"
    using up_environment [OF i L(9) kp d] by simp
  moreover have "created (s\<lparr>hk := k'\<rparr>)"
  proof (cases "pc s ThreadA \<in> {MaskDisable, MaskEnable, Start}")
    case True
    then have "before_loop (pc s ThreadA)" by auto
    from hello_invD_entry(3) [OF i(1) this] keeps_prestart [OF kp] L(10) show ?thesis by (simp add: created_def)
  next
    case False
    then show ?thesis by (simp add: created_def)
  qed
  moreover have "z_is_thread_prevented_from_running (threads k' t) \<and> ThreadTo t \<notin> fst ` set (timeout_list k')"
    if "t \<notin> {2, 3, 4}" for t
    using keeps_prevented [OF kp [OF L(4) [OF that]]] k [OF L(4) [OF that]] L(3) [OF that] by (simp add: undisturbed_def)
  moreover have "is_preempt (threads k' 2)" using keeps_preempt [OF kp [OF 2]] L(5) by simp
  ultimately show ?thesis using c m L(6,7) unfolding live_inv_def by simp
qed

section \<open>Steps of the threads\<close>

lemma live_next:
  assumes l: "live_inv s" and n: "nested (cpus (hk s) 0) = 0"
    and k: "\<And>t. t \<notin> {3, 4} \<Longrightarrow> keeps t (hk s) (hk s')" "same_cpu (hk s) (hk s')"
    and c: "cur0 (hk s') = cache (hk s')"
    and a: "allowed (hk s') 3" "pc s' ThreadA \<noteq> Create \<Longrightarrow> allowed (hk s') 4"
    and u: "up s' ThreadA" "\<not> before_loop (pc s' ThreadA) \<Longrightarrow> up s' ThreadB" "created s'"
  shows "live_inv s'"
proof -
  note L = live_invD [OF l]
  have "z_is_thread_prevented_from_running (threads (hk s') t) \<and> ThreadTo t \<notin> fst ` set (timeout_list (hk s'))"
    if "t \<notin> {2, 3, 4}" for t
    using that keeps_prevented [OF k(1), of t] k(1) [of t] L(3,4) [of t] by (simp add: keeps_def)
  moreover have "is_preempt (threads (hk s') 2)" using keeps_preempt [OF k(1), of 2] L(5) by simp
  ultimately show ?thesis using c a u L(1) k(2) unfolding live_inv_def by (simp add: same_cpu_def)
qed

lemma up_keeps:
  assumes "up s w" "keeps (tid_of w) (hk s) (hk s')" "pc s' w = pc s w" "waiters s' w = waiters s w"
  shows "up s' w"
  using assms keeps_ready [OF assms(2)] unfolding up_def dozes_def idles_def keeps_def by auto

lemma allowed_bit: "allowed k t \<longleftrightarrow> CONFIG_SCHED_CPU_MASK k \<longrightarrow> bit (cpu_mask (threads k t)) 0"
proof -
  have "x AND push_bit 0 1 \<noteq> 0 \<longleftrightarrow> bit x 0" for x :: u8 by (simp add: and_one_eq bit_0 mod2_eq_if)
  then show ?thesis by (simp only: allowed_def)
qed

lemma cpu_mask_mod_frame:
  assumes "allowed k t" "\<not> bit d 0"
  shows "allowed (snd (cpu_mask_mod t e d k)) t"
    "thread_state (threads (snd (cpu_mask_mod t e d k)) u) = thread_state (threads k u)"
    "cur0 (snd (cpu_mask_mod t e d k)) = cur0 k" "cache (snd (cpu_mask_mod t e d k)) = cache k"
  using assms by (simp_all add: allowed_bit cpu_mask_mod_def bit_simps current_thread_def)

lemma settled_swap: "\<not> CONFIG_SMP k \<Longrightarrow> cur0 (z_swap 0 k) = cache (z_swap 0 k)"
  by (simp add: z_swap_def do_swap_fields)

lemma settled_reschedule:
  "\<not> CONFIG_SMP k \<Longrightarrow> \<not> irq_masked (cpus k 0) \<Longrightarrow> nested (cpus k 0) = 0 \<Longrightarrow>
   cur0 (z_reschedule 0 k) = cache (z_reschedule 0 k)"
  by (simp add: z_reschedule_def resched_uniprocessor need_swap_def z_swap_def do_swap_fields arch_is_in_isr_def)

text \<open>Thread A before its loop.\<close>

lemma live_entry:
  assumes i: "hello_inv s" and l: "live_inv s" and c: "cur0 (hk s) = tid_of ThreadA" "running (hk s)"
    and n: "nested (cpus (hk s) 0) = 0" and p: "before_loop (pc s ThreadA)"
  shows "live_inv (threadA_entry s)"
proof -
  note L = live_invD [OF l] and ok = hello_invD(1) [OF i] and E = hello_invD_entry [OF i p]
  have smp: "\<not> CONFIG_SMP (hk s)" using ok by simp
  have settled: "cur0 (hk s) = cache (hk s)" using L(2) n by simp
  have wa: "waiters s ThreadA = []" "waiters s ThreadB = []"
    using hello_invD(6) [OF i] p E(1) by (metis before_loop.simps(6) hello_pc.distinct)+
  have r: "z_is_thread_ready (hk s) 3" using c by (simp add: running_def)
  have up: "up (goto ThreadA l (s\<lparr>hk := k\<rparr>)) ThreadA" if "keeps 3 (hk s) k" for l k
    using keeps_ready [OF that] r by (simp add: up_def)
  have mask: "live_inv (goto ThreadA l' (s\<lparr>hk := k'\<rparr>))"
    if k': "k' = hk s \<or> k' = snd (cpu_mask_mod 4 e d (hk s))" and d: "\<not> bit d 0"
      and q: "pc s ThreadA \<in> {MaskDisable, MaskEnable}" "l' \<in> {MaskEnable, Start}" for l' k' e d
  proof -
    have a: "allowed (hk s) 4" using L(7) q(1) by auto
    have k: "keeps t (hk s) k'" if "t \<noteq> 4" for t using k' keeps_cpu_mask_mod(1) [OF that] by auto
    have sc: "same_cpu (hk s) k'" using k' keeps_cpu_mask_mod(2) by auto
    have f: "allowed k' 4" "thread_state (threads k' 4) = thread_state (threads (hk s) 4)" "cur0 k' = cache k'"
      using k' cpu_mask_mod_frame [OF a d] a settled by auto
    have "allowed k' 3" using keeps_allowed [OF k sc, of 3] L(6) by simp
    moreover have "up (goto ThreadA l' (s\<lparr>hk := k'\<rparr>)) ThreadA" using up k by simp
    moreover have "created (goto ThreadA l' (s\<lparr>hk := k'\<rparr>))" using L(10) q f(2) by (auto simp: created_def)
    ultimately show ?thesis using k sc f q(2) by (intro live_next [OF l n]) auto
  qed
  from p show ?thesis
  proof (cases rule: before_loopE)
    case 1
    let ?k = "z_setup_new_thread 4 PRIORITY 0 (hk s)"
    have "thread_state (threads ?k 4) AND NOT THREAD_QUEUED = THREAD_PRESTART" by (simp add: setup_threads)
    moreover have "allowed ?k 4"
      by (simp add: allowed_def z_setup_new_thread_def z_init_thread_base_def Let_def)
    moreover have "keeps 3 (hk s) ?k" using keeps_setup(1) [of 3 4] by simp
    moreover have "allowed ?k 3" using keeps_allowed [OF _ keeps_setup(2)] keeps_setup(1) [of 3 4] L(6) by simp
    ultimately have "live_inv (goto ThreadA MaskDisable (s\<lparr>hk := ?k\<rparr>))"
      using settled up keeps_setup
      by (intro live_next [OF l n]) (simp_all add: current_thread_def created_def)
    then show ?thesis using 1 by (simp add: threadA_entry_def k_thread_create_def)
  next
    case 2
    then show ?thesis
      using mask [of "hk s" 0 2 MaskEnable] mask [of "snd (cpu_mask_mod 4 0 2 (hk s))" 0 2 MaskEnable]
      by (simp add: threadA_entry_def k_thread_cpu_mask_disable_def bit_simps)
  next
    case 3
    then show ?thesis
      using mask [of "hk s" 0 0 Start] mask [of "snd (cpu_mask_mod 4 1 0 (hk s))" 1 0 Start]
      by (simp add: threadA_entry_def k_thread_cpu_mask_enable_def)
  next
    case 4
    let ?k1 = "z_mark_thread_as_started 4 (hk s)"
    let ?k = "k_thread_start 0 4 (hk s)"
    have st: "thread_state (threads (hk s) 4) AND NOT THREAD_QUEUED = THREAD_PRESTART"
      using L(10) 4 by (simp add: created_def)
    have b: "bit (thread_state (threads (hk s) 4)) m = (m = 2)" if "m < 7" for m
      using arg_cong [OF st, of "\<lambda>x. bit x m"] that bit_QUEUED [of m] bit_PRESTART [of m]
      by (simp only: bit_and_iff bit_not_iff) auto
    have k: "?k = z_reschedule 0 (ready_thread 0 4 ?k1)"
      using b [of 2] by (simp add: k_thread_start_def z_sched_start_def state_bits)
    have smp1: "\<not> CONFIG_SMP (ready_thread 0 4 ?k1)" using smp by (simp add: z_mark_thread_as_started_def)
    have "z_is_thread_ready ?k1 4"
      using b E(3) by (simp add: state_bits z_mark_thread_as_started_def)
    moreover have k4: "keeps 4 ?k1 ?k"
      unfolding k by (rule keeps_trans [OF keeps_ready_thread(1) keeps_z_reschedule(1) [OF smp1]])
    ultimately have r4: "z_is_thread_ready ?k 4" using keeps_ready by blast
    have kp: "keeps t (hk s) ?k" if "t \<noteq> 4" for t using keeps_k_thread_start(1) [OF smp that] .
    have sc: "same_cpu (hk s) ?k" using keeps_k_thread_start(2) [OF smp] .
    have "cur0 ?k = cache ?k"
      unfolding k by (rule settled_reschedule [OF smp1])
        (use L(1) n smp in \<open>simp_all add: z_mark_thread_as_started_def\<close>)
    moreover have "allowed ?k 3" using keeps_allowed [OF kp sc, of 3] L(6) by simp
    moreover have "allowed ?k 4"
      using L(7) 4 k4 sc by (simp add: allowed_def keeps_def same_cpu_def z_mark_thread_as_started_def)
    ultimately have "live_inv (goto ThreadA Take (s\<lparr>hk := ?k\<rparr>))"
      using up [OF kp] kp sc r4 by (intro live_next [OF l n]) (auto simp: up_def created_def)
    then show ?thesis using 4 by (simp add: threadA_entry_def)
  qed
qed

text \<open>A thread in its loop.\<close>

lemma live_loop:
  assumes i: "hello_inv s" and l: "live_inv s" and c: "cur0 (hk s) = tid_of w" "running (hk s)"
    and n: "nested (cpus (hk s) 0) = 0" and p: "\<not> before_loop (pc s w)"
    and s': "pc s' = (pc s)(w := l')" "\<not> before_loop l'"
    and k: "\<And>t. t \<notin> {3, 4} \<Longrightarrow> keeps t (hk s) (hk s')" "same_cpu (hk s) (hk s')"
    and st: "cur0 (hk s') = cache (hk s')"
    and m: "\<And>v. cpu_mask (threads (hk s') (tid_of v)) = cpu_mask (threads (hk s) (tid_of v))"
    and u: "up s' w" "up s' (other w)"
  shows "live_inv s'"
proof -
  have b: "\<not> before_loop (pc s ThreadA)" using p running_thread(4) [OF i c] hello_invD(8) [OF i] by (cases w) auto
  then have b': "\<not> before_loop (pc s' ThreadA)" using s' by simp
  have "pc s ThreadA \<noteq> Create" using b by auto
  then have "allowed (hk s') 3" "allowed (hk s') 4"
    using live_invD(6,7) [OF l] k(2) m [of ThreadA] m [of ThreadB] by (simp_all add: allowed_def same_cpu_def)
  moreover have "up s' ThreadA" "up s' ThreadB" using u by (cases w; simp)+
  moreover have "created s'" using b' by (auto simp: created_def)
  ultimately show ?thesis using k st by (intro live_next [OF l n])
qed

lemma both_up:
  assumes "hello_inv s" "live_inv s" "cur0 (hk s) = tid_of w" "running (hk s)" "\<not> before_loop (pc s w)"
  shows "up s v"
proof -
  have "\<not> before_loop (pc s ThreadA)"
    using assms(5) running_thread(4) [OF assms(1,3,4)] hello_invD(8) [OF assms(1)] by (cases w) auto
  then show ?thesis using live_invD(8,9) [OF assms(2)] by (cases v) simp_all
qed

lemma live_local:
  assumes i: "hello_inv s" and l: "live_inv s" and c: "cur0 (hk s) = tid_of w" "running (hk s)"
    and n: "nested (cpus (hk s) 0) = 0" and p: "\<not> before_loop (pc s w)"
    and s': "hk s' = hk s" "pc s' = pc s" and l': "\<not> before_loop l'"
  shows "live_inv (goto w l' s')"
proof (rule live_loop [OF i l c n p, of _ l'])
  show "up (goto w l' s') w" using c s' by (simp add: up_def running_def)
  have "waiters s' = waiters s" using s'(1) by (simp add: waiters_def fun_eq_iff)
  then show "up (goto w l' s') (other w)"
    using s' by (intro up_keeps [OF both_up [OF i l c p]]) simp_all
  show "cur0 (hk (goto w l' s')) = cache (hk (goto w l' s'))" using live_invD(2) [OF l] n s' by simp
qed (use s' l' in simp_all)

lemma running_bits:
  "running k \<Longrightarrow> n \<in> {0, 1, 2, 3, 4} \<Longrightarrow> \<not> bit (thread_state (threads k (cur0 k))) n"
  by (auto simp: running_def state_bits)

lemma live_block:
  assumes i: "hello_inv s" and l: "live_inv s" and c: "cur0 (hk s) = tid_of w" "running (hk s)"
    and n: "nested (cpus (hk s) 0) = 0" and p: "pc s w = Take"
  shows "live_inv (goto w Taking (s\<lparr>hk := z_pend_curr 0 (Some (ObjQ (wqn w))) K_FOREVER (hk s)\<rparr>))"
proof -
  let ?k = "z_pend_curr 0 (Some (ObjQ (wqn w))) K_FOREVER (hk s)"
  let ?s = "goto w Taking (s\<lparr>hk := ?k\<rparr>)"
  have b: "\<not> before_loop (pc s w)" by (simp add: p)
  note ok = hello_invD(1) [OF i] and r = running_thread(1) [OF i c]
  have smp: "\<not> CONFIG_SMP (hk s)" using ok by simp
  have q: "waiters ?s w = [tid_of w]" "waiters ?s (other w) = waiters s (other w)"
    using r c(1) ok by (simp_all add: waiters_def waitqs_z_pend_curr)
  have kp: "keeps t (hk s) ?k" if "t \<noteq> tid_of w" for t using keeps_z_pend_curr(1) [OF smp] that c(1) by simp
  have d: "z_pend_curr 0 (Some (ObjQ (wqn w))) K_FOREVER (hk s) = z_swap 0 (pend 0 (tid_of w) (Some (ObjQ (wqn w))) K_FOREVER (hk s))"
    using c(1) by (simp add: z_pend_curr_def)
  have smp': "\<not> CONFIG_SMP (pend 0 (tid_of w) (Some (ObjQ (wqn w))) K_FOREVER (hk s))" using smp by (simp add: pend_def)
  have "idles (tid_of w) ?k"
    using running_bits [OF c(2)] keeps_z_swap(1) [OF smp', of "tid_of w"] c(1)
    by (simp add: idles_def d keeps_def pend_def add_thread_timeout_def add_to_waitq_locked_def
        z_mark_thread_as_pending_def unready_thread_def Let_def)
  then have "up ?s w" using q by (simp add: up_def)
  moreover have "up ?s (other w)"
    by (rule up_keeps [OF both_up [OF i l c b]]) (use q kp in simp_all)
  moreover have "cpu_mask (threads ?k (tid_of v)) = cpu_mask (threads (hk s) (tid_of v))" for v
  proof (cases "v = w")
    case True
    then show ?thesis
      using keeps_z_swap(1) [OF smp', of "tid_of w"]
      by (simp add: d keeps_def pend_def add_thread_timeout_def add_to_waitq_locked_def
          z_mark_thread_as_pending_def unready_thread_def Let_def)
  next
    case False
    then show ?thesis using kp [of "tid_of v"] by (simp add: keeps_def)
  qed
  moreover have "cur0 ?k = cache ?k" unfolding d by (rule settled_swap [OF smp'])
  ultimately show ?thesis
    using kp keeps_z_pend_curr(2) [OF smp] by (intro live_loop [OF i l c n b, of _ Taking]) (cases w; auto)+
qed

lemma mask_sleep:
  assumes "\<not> CONFIG_SMP k" "d \<noteq> K_FOREVER"
  shows "cpu_mask (threads (snd (k_sleep 0 d k)) t) = cpu_mask (threads k t)"
    "cur0 (snd (k_sleep 0 d k)) = cache (snd (k_sleep 0 d k))"
proof -
  let ?k = "if d = 0 then yielding k else sleeping d k"
  have m: "\<not> CONFIG_SMP ?k" using assms(1) by (simp add: yielding_def sleeping_def z_mark_thread_as_suspended_def)
  have "cpu_mask (threads ?k t) = cpu_mask (threads k t)"
    by (simp add: yielding_def sleeping_def z_mark_thread_as_suspended_def unready_thread_def Let_def z_add_thread_timeout_def)
  then show "cpu_mask (threads (snd (k_sleep 0 d k)) t) = cpu_mask (threads k t)"
    using keeps_z_swap(1) [OF m, of t] by (simp add: k_sleep_eq [OF assms] keeps_def)
  show "cur0 (snd (k_sleep 0 d k)) = cache (snd (k_sleep 0 d k))"
    unfolding k_sleep_eq [OF assms] by (rule settled_swap [OF m])
qed

lemma live_sleep:
  assumes i: "hello_inv s" and l: "live_inv s" and c: "cur0 (hk s) = tid_of w" "running (hk s)"
    and n: "nested (cpus (hk s) 0) = 0" and p: "pc s w = Sleep" and d: "d \<noteq> K_FOREVER"
  shows "live_inv (goto w Sleeping (s\<lparr>hk := snd (k_sleep 0 d (hk s))\<rparr>))"
proof -
  let ?k = "snd (k_sleep 0 d (hk s))"
  let ?s = "goto w Sleeping (s\<lparr>hk := ?k\<rparr>)"
  have b: "\<not> before_loop (pc s w)" by (simp add: p)
  note ok = hello_invD(1) [OF i]
  have smp: "\<not> CONFIG_SMP (hk s)" using ok by simp
  have q: "waiters ?s v = waiters s v" for v using ok by (simp add: waiters_def)
  have kp: "keeps t (hk s) ?k" if "t \<noteq> tid_of w" for t using keeps_k_sleep(1) [OF ok d] that c(1) by simp
  have "up ?s w" using sleep_dozes [OF ok c(2) d] c(1) by (auto simp: up_def)
  moreover have "up ?s (other w)"
    by (rule up_keeps [OF both_up [OF i l c b]]) (use q kp in simp_all)
  ultimately show ?thesis
    using kp keeps_k_sleep(2) [OF ok d] mask_sleep [OF smp d]
    by (intro live_loop [OF i l c n b, of _ Sleeping]) (cases w; auto)+
qed

lemma mask_give:
  assumes "sched_ok k" "\<not> irq_masked (cpus k 0)" "nested (cpus k 0) = 0"
  shows "cpu_mask (threads (snd (k_sem_give 0 (sem, k))) t) = cpu_mask (threads k t)"
    "cur0 (snd (k_sem_give 0 (sem, k))) = cache (snd (k_sem_give 0 (sem, k)))"
proof -
  define k1 where "k1 = (case waitqs k (ObjQ (sem_wait_q sem)) of [] \<Rightarrow> k | u # us \<Rightarrow> ready_thread 0 u (wake u k))"
  have e: "snd (k_sem_give 0 (sem, k)) = z_reschedule 0 k1" by (simp add: k_sem_give_eq [OF assms(1)] k1_def)
  have w: "cpu_mask (threads (wake u k) t) = cpu_mask (threads k t)" for u by (simp add: wake_def)
  have s: "same_cpu k k1"
    using same_cpu_trans [OF keeps_wake(2) keeps_ready_thread(2)] keeps_wake(3) assms(1)
    by (simp add: k1_def split: list.splits)
  then have m: "\<not> CONFIG_SMP k1" using assms(1) by (simp add: same_cpu_def)
  have "cpu_mask (threads k1 t) = cpu_mask (threads k t)"
    using keeps_ready_thread(1) [of t "wake u k" 0 u for u] w by (auto simp: k1_def keeps_def split: list.splits)
  then show "cpu_mask (threads (snd (k_sem_give 0 (sem, k))) t) = cpu_mask (threads k t)"
    using keeps_z_reschedule(1) [OF m, of t] by (simp add: e keeps_def)
  show "cur0 (snd (k_sem_give 0 (sem, k))) = cache (snd (k_sem_give 0 (sem, k)))"
    unfolding e using s assms(2,3) by (intro settled_reschedule [OF m]) (simp_all add: same_cpu_def)
qed

lemma live_give:
  assumes i: "hello_inv s" "hello_inv s'" and l: "live_inv s" and c: "cur0 (hk s) = tid_of w" "running (hk s)"
    and n: "nested (cpus (hk s) 0) = 0" and p: "pc s w = Give"
    and s': "hk s' = snd (k_sem_give 0 (sems s (other w), hk s))" "pc s' = (pc s)(w := Take)"
  shows "live_inv s'"
proof -
  let ?sem = "sems s (other w)" and ?k = "hk s'"
  have b: "\<not> before_loop (pc s w)" by (simp add: p)
  note ok = hello_invD(1) [OF i(1)]
  have q: "sem_wait_q ?sem = wqn (other w)" using hello_invD(3) [OF i(1)] .
  have wq: "waitqs (hk s) (ObjQ (sem_wait_q ?sem)) = waiters s (other w)" by (simp add: q waiters_def)
  have kp: "keeps t (hk s) ?k" if "t \<noteq> tid_of (other w)" for t
    unfolding s'(1) using that hello_invD(5) [OF i(1), of "other w"] wq by (intro keeps_k_sem_give [OF ok]) fastforce
  have "up s' w" using keeps_ready [OF kp, of "tid_of w"] c by (simp add: up_def running_def)
  moreover have "up s' (other w)"
  proof (cases "waiters s (other w) = []")
    case True
    then have "keeps (tid_of (other w)) (hk s) ?k" unfolding s'(1) by (intro keeps_k_sem_give [OF ok]) (simp add: wq)
    moreover have "waiters s' (other w) = []"
      using True ok wq by (simp add: waiters_def s'(1) k_sem_give_eq)
    ultimately show ?thesis using True by (intro up_keeps [OF both_up [OF i(1) l c b]]) (simp_all add: s'(2))
  next
    case False
    then have w1: "waiters s (other w) = [tid_of (other w)]" "pc s (other w) = Taking"
      using hello_invD(5,6) [OF i(1)] by simp_all
    have "idles (tid_of (other w)) (hk s)"
      using both_up [OF i(1) l c b, of "other w"] w1(2) by (auto simp: up_def idles_def state_bits)
    then have "z_is_thread_ready ?k (tid_of (other w))"
      unfolding s'(1) using w1(1) by (intro give_wakes [OF ok]) (auto simp: wq idles_def)
    then show ?thesis by (simp add: up_def)
  qed
  ultimately show ?thesis
    using kp same_cpu_k_sem_give [OF ok] mask_give [OF ok live_invD(1) [OF l] n] s'
    by (intro live_loop [OF i(1) l c n b, of _ Take]) (cases w; auto)+
qed

lemma live_thread:
  assumes i: "hello_inv s" and l: "live_inv s" and c: "cur0 (hk s) = tid_of w" "running (hk s)"
    and n: "nested (cpus (hk s) 0) = 0" and d: "K_MSEC SLEEPTIME \<noteq> K_FOREVER"
  shows "live_inv (thread_step SLEEPTIME greet w s)"
proof (cases "before_loop (pc s w)")
  case True
  then have "w = ThreadA" using running_thread(3) [OF i c] by simp
  then show ?thesis using True live_entry [OF i l _ c(2) n] c(1) by (auto simp: thread_step_def elim: before_loopE)
next
  case False
  then have t: "thread_step SLEEPTIME greet w s = helloLoop SLEEPTIME greet w s" by (auto simp: thread_step_def)
  note loc = live_local [OF i l c n False]
  show ?thesis
  proof (cases "pc s w")
    case Take
    then show ?thesis
    proof (cases "0 < count (sems s w)")
      case True
      then show ?thesis using Take loc [of "s\<lparr>sems := (sems s)(w := (sems s w)\<lparr>count := count (sems s w) - 1\<rparr>)\<rparr>" Greet]
        by (simp add: t helloLoop_def k_sem_take_def)
    next
      case False
      then show ?thesis using Take live_block [OF i l c n Take] hello_invD(3) [OF i, of w]
        by (simp add: t helloLoop_def k_sem_take_def)
    qed
  next
    case Taking
    then show ?thesis using loc [of s Greet] by (simp add: t helloLoop_def)
  next
    case Greet
    then show ?thesis using loc [of "s\<lparr>greeted := greeted s @ [w], devices := greet w (devices s)\<rparr>" Sleep]
      by (simp add: t helloLoop_def)
  next
    case Sleep
    then show ?thesis using live_sleep [OF i l c n Sleep d] by (simp add: t helloLoop_def k_msleep_def)
  next
    case Sleeping
    then show ?thesis using loc [of s Give] by (simp add: t helloLoop_def)
  next
    case Give
    then show ?thesis using live_give [OF i hello_inv_give [OF i c Give] l c n Give, of SLEEPTIME greet]
      by (simp add: t helloLoop_def split: prod.splits)
  qed (use False in simp_all)
qed

lemma isr_exit_cpu:
  assumes "\<not> CONFIG_SMP k"
  shows "nested (cpus (isr_exit k) 0) = nested (cpus k 0) - 1"
    "nested (cpus (isr_exit k) 0) = 0 \<Longrightarrow> cur0 (isr_exit k) = cache (isr_exit k)"
    "irq_masked (cpus (isr_exit k) 0) = irq_masked (cpus k 0)" "allowed (isr_exit k) t = allowed k t"
    "dozes t (isr_exit k) = dozes t k"
  using assms by (auto simp: isr_exit_def Let_def z_get_next_switch_handle_def set_current_def current_thread_def
      allowed_def dozes_def)

lemma live_step:
  assumes "hello_step SLEEPTIME greet s s'" "hello_inv s" "live_inv s" "K_MSEC SLEEPTIME \<noteq> K_FOREVER"
  shows "live_inv s'"
  using assms
proof (induction rule: hello_step.induct)
  case (thread s w)
  then show ?case using live_thread by blast
next
  case (tick s fuel ticks r)
  have i': "hello_inv (s\<lparr>hk := fst r\<rparr>)" using hello_inv_step [OF hello_step.tick [OF tick.hyps] tick.prems(1)] .
  note ok = hello_invD(1) [OF tick.prems(1)]
  have m: "same_masks (hk s) (fst r)" using same_masks_announce [OF tick.hyps(2)] ok by simp
  show ?case
    using undisturbed_announce [OF tick.hyps(2)] announce_dozes [OF ok tick.hyps(2)] m tick.hyps(1) live_invD(1) [OF tick.prems(2)]
    by (intro live_environment [OF tick.prems(1) i' tick.prems(2)]) (auto simp: same_masks_def same_cpu_def allowed_def)
next
  case (elapse e s)
  have i': "hello_inv (s\<lparr>hk := (hk s)\<lparr>clock_elapsed := e\<rparr>\<rparr>)" using hello_inv_step [OF hello_step.elapse [OF elapse.hyps] elapse.prems(1)] .
  note ok = hello_invD(1) [OF elapse.prems(1)] and L = live_invD [OF elapse.prems(2)]
  show ?case
    using undisturbed_isr(3) [OF ok] L(1,2)
    by (intro live_environment [OF elapse.prems(1) i' elapse.prems(2)]) (simp_all add: allowed_def dozes_def current_thread_def)
next
  case (enter s)
  have i': "hello_inv (s\<lparr>hk := isr_enter (hk s)\<rparr>)" using hello_inv_step [OF hello_step.enter enter.prems(1)] .
  note ok = hello_invD(1) [OF enter.prems(1)] and L = live_invD [OF enter.prems(2)]
  show ?case
    using undisturbed_isr(1) [OF ok] L(1,2)
    by (intro live_environment [OF enter.prems(1) i' enter.prems(2)]) (simp_all add: allowed_def dozes_def isr_enter_def)
next
  case (exit s)
  have i': "hello_inv (s\<lparr>hk := isr_exit (hk s)\<rparr>)" using hello_inv_step [OF hello_step.exit [OF exit.hyps] exit.prems(1)] .
  note ok = hello_invD(1) [OF exit.prems(1)] and L = live_invD [OF exit.prems(2)]
  show ?case
    using undisturbed_isr(2) [OF ok] L(1) ok
    by (intro live_environment [OF exit.prems(1) i' exit.prems(2)]) (simp_all add: isr_exit_cpu)
qed

lemma live_boot: "live_inv (hello_init g)"
proof -
  note b = hello_boot [where g = g]
  have "z_is_thread_prevented_from_running (threads (hk (hello_init g)) t)" if "t \<notin> {2, 3, 4}" for t
    using b(7) [of t] b(8) that by (cases "t = 1") (simp_all add: unborn_def prevented_bits bit_DUMMY)
  moreover have "timeout_list (hk (hello_init g)) = []" using b(7) [of 4] by (simp add: unborn_def)
  moreover have "pc (hello_init g) ThreadA = Create" by (simp add: hello_init_def)
  ultimately show ?thesis using b by (simp add: live_inv_def up_def created_def allowed_def)
qed

lemma live_reachable:
  "hello_reachable SLEEPTIME greet g s \<Longrightarrow> K_MSEC SLEEPTIME \<noteq> K_FOREVER \<Longrightarrow> live_inv s"
  by (induction rule: hello_reachable.induct) (auto intro: live_boot live_step dest: hello_reachable_inv)

section \<open>The distance to the next greeting\<close>

text \<open>
  The steps the thread that has the token takes before the next greeting, if it does not give
  the token away first; from the \<open>Give\<close> on they are the other's.
\<close>

fun todo :: "hello_pc \<Rightarrow> nat" where
  "todo Create = 6"
| "todo MaskDisable = 5"
| "todo MaskEnable = 4"
| "todo Start = 3"
| "todo Take = 2"
| "todo Taking = 2"
| "todo Greet = 1"
| "todo Sleep = 5"
| "todo Sleeping = 4"
| "todo Give = 3"

text \<open>The steps of the other thread until it waits.\<close>

fun slack :: "hello_pc \<Rightarrow> nat" where
  "slack Take = 1"
| "slack l = (if before_loop l then todo l else 0)"

definition distance :: "'g hello \<Rightarrow> who \<Rightarrow> nat" where
  "distance s h = 2 * todo (pc s h) + slack (pc s (other h))"

definition closer :: "'g hello \<Rightarrow> nat \<Rightarrow> 'g hello \<Rightarrow> bool" where
  "closer s m s' \<longleftrightarrow> length (greeted s') = Suc (length (greeted s)) \<or>
     greeted s' = greeted s \<and> (\<exists>h. has_token s' h \<and> distance s' h < m)"

lemma token_unique: "has_token s h \<Longrightarrow> waits_for_token s (other h) \<Longrightarrow> has_token s v \<Longrightarrow> v = h"
  using other_cases [of v h] by (auto simp: has_token_def waits_for_token_def elim: before_loopE)

lemma closer_entry:
  assumes i: "hello_inv s" and p: "before_loop (pc s ThreadA)" and h: "has_token s h"
  shows "closer s (distance s h) (threadA_entry s)"
proof -
  have b: "pc s ThreadB = Take" using hello_invD_entry(1) [OF i p] .
  let ?s = "threadA_entry s"
  have f: "sems ?s = sems s" "greeted ?s = greeted s" "pc ?s ThreadB = Take"
     "todo (pc ?s ThreadA) < todo (pc s ThreadA)" "slack (pc ?s ThreadA) < slack (pc s ThreadA)" "before_loop (pc ?s ThreadA) \<or> pc ?s ThreadA = Take"
    using p b by (auto simp: threadA_entry_def elim: before_loopE)
  have "has_token ?s h"
    using h p b f(1,3,6) by (cases h) (auto simp: has_token_def elim: before_loopE)
  moreover have "distance ?s h < distance s h"
    using b f(3,4,5) by (cases h) (simp_all add: distance_def)
  ultimately show ?thesis using f(2) unfolding closer_def by blast
qed

lemma token_exists: "hello_inv s \<Longrightarrow> \<exists>h. has_token s h \<and> waits_for_token s (other h)"
  using hello_invD(9) [of s] unfolding turn_ok_def by blast

lemma closerI: "greeted s' = greeted s \<Longrightarrow> has_token s' h \<Longrightarrow> distance s' h < m \<Longrightarrow> closer s m s'"
  unfolding closer_def by blast

lemma closer_loop:
  assumes i: "hello_inv s" and c: "cur0 (hk s) = tid_of w" "running (hk s)" and p: "\<not> before_loop (pc s w)"
    and h: "has_token s h"
  shows "closer s (distance s h) (helloLoop SLEEPTIME greet w s)"
  using i c p
proof (cases rule: turnE)
  case (token n)
  then have hw: "h = w" using token_unique h by blast
  have nb: "\<not> before_loop (pc s (other w))"
    using p running_thread(4) [OF i c] hello_invD(8) [OF i] by (cases w) auto
  show ?thesis
  proof (cases "pc s w")
    case Take
    then have "count (sems s w) = 1" using token(1) by (simp add: has_token_def)
    then show ?thesis using Take
      by (intro closerI [of _ _ w]) (simp_all add: hw helloLoop_def k_sem_take_def has_token_def distance_def)
  next
    case Taking
    then show ?thesis using token(1)
      by (intro closerI [of _ _ w]) (simp_all add: hw helloLoop_def has_token_def distance_def)
  next
    case Greet
    then show ?thesis by (simp add: closer_def helloLoop_def)
  next
    case Sleep
    then show ?thesis using token(1)
      by (intro closerI [of _ _ w]) (simp_all add: hw helloLoop_def has_token_def distance_def)
  next
    case Sleeping
    then show ?thesis using token(1)
      by (intro closerI [of _ _ w]) (simp_all add: hw helloLoop_def has_token_def distance_def)
  next
    case Give
    let ?s = "helloLoop SLEEPTIME greet w s"
    have f: "pc ?s = (pc s)(w := Take)" "sems ?s w = sems s w" "greeted ?s = greeted s"
      using Give by (simp_all add: helloLoop_def split: prod.splits)
    obtain h' where h': "has_token ?s h'" using token_exists [OF hello_inv_give [OF i c Give]] by blast
    moreover have "h' \<noteq> w" using h' token(1) Give f by (auto simp: has_token_def)
    then have e: "h' = other w" using other_cases by blast
    moreover have "todo (pc s (other w)) = 2" using token(2) nb by (auto simp: waits_for_token_def)
    ultimately show ?thesis using f Give by (intro closerI [of _ _ "other w"]) (simp_all add: hw distance_def)
  qed (use p in simp_all)
next
  case (none n)
  let ?s = "helloLoop SLEEPTIME greet w s"
  have "\<not> has_token s w" using none(2,3) by (simp add: has_token_def)
  then have hw: "h = other w" using h other_cases by metis
  have s: "?s = goto w Taking (s\<lparr>hk := z_pend_curr 0 (Some (ObjQ (wqn w))) K_FOREVER (hk s)\<rparr>)"
    using none(2,3) hello_invD(3) [OF i, of w] by (simp add: helloLoop_def k_sem_take_def)
  have "waiters ?s (other w) = waiters s (other w)"
    unfolding s using hello_invD(1) [OF i] by (simp add: waiters_def waitqs_z_pend_curr)
  then have "has_token ?s (other w)" using h hw by (simp add: s has_token_def)
  then show ?thesis using none(3) by (intro closerI [of _ _ "other w"]) (simp_all add: s hw distance_def)
qed

lemma closer_thread:
  assumes "hello_inv s" "cur0 (hk s) = tid_of w" "running (hk s)" "has_token s h"
  shows "closer s (distance s h) (thread_step SLEEPTIME greet w s)"
proof (cases "before_loop (pc s w)")
  case True
  then have "w = ThreadA" using running_thread(3) [OF assms(1-3)] by simp
  then show ?thesis using True closer_entry [OF assms(1) _ assms(4)] by (auto simp: thread_step_def elim: before_loopE)
next
  case False
  then have "thread_step SLEEPTIME greet w s = helloLoop SLEEPTIME greet w s" by (auto simp: thread_step_def)
  then show ?thesis using closer_loop [OF assms(1-3) False assms(4)] by simp
qed

section \<open>The clock brings a thread back\<close>

definition waits :: "int \<Rightarrow> (who \<Rightarrow> 'g \<Rightarrow> 'g) \<Rightarrow> 'g hello \<Rightarrow> 'g hello \<Rightarrow> bool" where
  "waits SLEEPTIME greet s s' \<longleftrightarrow>
     (hello_step SLEEPTIME greet)\<^sup>*\<^sup>* s s' \<and> hello_inv s' \<and> live_inv s' \<and> greeted s' = greeted s \<and> pc s' = pc s \<and>
     (\<forall>h. has_token s' h = has_token s h)"

lemma waits_refl: "hello_inv s \<Longrightarrow> live_inv s \<Longrightarrow> waits SLEEPTIME greet s s"
  by (simp add: waits_def)

lemma waits_step:
  assumes "waits SLEEPTIME greet s s'" "hello_step SLEEPTIME greet s' (s'\<lparr>hk := k'\<rparr>)" "K_MSEC SLEEPTIME \<noteq> K_FOREVER"
    and u: "\<And>t. ThreadTo t \<notin> fst ` set (timeout_list (hk s')) \<Longrightarrow> undisturbed t (hk s') k'"
  shows "waits SLEEPTIME greet s (s'\<lparr>hk := k'\<rparr>)"
proof -
  have i: "hello_inv s'" "live_inv s'" and st: "(hello_step SLEEPTIME greet)\<^sup>*\<^sup>* s s'" using assms(1) by (simp_all add: waits_def)
  have i': "hello_inv (s'\<lparr>hk := k'\<rparr>)" using hello_inv_step [OF assms(2) i(1)] .
  moreover have "live_inv (s'\<lparr>hk := k'\<rparr>)" using live_step [OF assms(2) i assms(3)] .
  moreover have "sched_ok k'" using hello_invD(1) [OF i'] by simp
  then have "waiters (s'\<lparr>hk := k'\<rparr>) v = waiters s' v" for v
    using waiters_environment [OF i(1) _ u] by (simp add: waiters_def)
  then have "has_token (s'\<lparr>hk := k'\<rparr>) h = has_token s' h" for h by (simp add: has_token_def)
  ultimately show ?thesis using assms(1) rtranclp.rtrancl_into_rtrancl [OF st assms(2)] by (simp add: waits_def)
qed

text \<open>Interrupts return.\<close>

lemma interrupts_return:
  assumes "waits SLEEPTIME greet s0 s" "K_MSEC SLEEPTIME \<noteq> K_FOREVER"
  shows "\<exists>s'. waits SLEEPTIME greet s0 s' \<and> nested (cpus (hk s') 0) = 0 \<and>
    (\<forall>t. z_is_thread_ready (hk s') t = z_is_thread_ready (hk s) t)"
  using assms(1)
proof (induction "nested (cpus (hk s) 0)" arbitrary: s)
  case 0
  then show ?case by auto
next
  case (Suc n)
  have ok: "sched_ok (hk s)" using Suc.prems by (auto simp: waits_def dest: hello_invD(1))
  have e: "hello_step SLEEPTIME greet s (s\<lparr>hk := isr_exit (hk s)\<rparr>)" using Suc.hyps(2) by (intro hello_step.exit) simp
  have w: "waits SLEEPTIME greet s0 (s\<lparr>hk := isr_exit (hk s)\<rparr>)"
    using waits_step [OF Suc.prems e assms(2)] undisturbed_isr(2) [OF ok] by blast
  have "nested (cpus (isr_exit (hk s)) 0) = n" using isr_exit_cpu(1) [of "hk s"] ok Suc.hyps(2) by simp
  moreover have "z_is_thread_ready (isr_exit (hk s)) t = z_is_thread_ready (hk s) t" for t
    using ok by (simp add: isr_exit_def Let_def z_get_next_switch_handle_def set_current_def state_bits)
  ultimately show ?case using Suc.hyps(1) [OF _ w] by simp
qed

lemma isr_enter_timeouts: "timeout_list (isr_enter k) = timeout_list k"
  by (simp add: isr_enter_def)

lemma dozer_wakes:
  assumes w: "waits SLEEPTIME greet s0 s" and K: "K_MSEC SLEEPTIME \<noteq> K_FOREVER" and d: "dozes t (hk s)"
  shows "\<exists>s'. waits SLEEPTIME greet s0 s' \<and> z_is_thread_ready (hk s') t"
proof -
  let ?k = "isr_enter (hk s)"
  let ?s = "s\<lparr>hk := ?k\<rparr>"
  have i: "hello_inv s" using w by (simp add: waits_def)
  note ok = hello_invD(1) [OF i]
  have w1: "waits SLEEPTIME greet s0 ?s"
    using waits_step [OF w hello_step.enter K] undisturbed_isr(1) [OF ok] by blast
  have ok1: "sched_ok ?k" using sched_ok_isr_enter [OF ok] .
  obtain d where d1: "(ThreadTo t, d) \<in> set (deadlines 0 (timeout_list ?k))"
    using d fst_deadlines [of 0 "timeout_list ?k"] by (metis (no_types) dozes_def imageE isr_enter_timeouts prod.collapse)
  have b: "\<not> bit (thread_state (threads ?k t)) 0" "\<not> bit (thread_state (threads ?k t)) 3"
    using d by (simp_all add: dozes_def isr_enter_def)
  obtain r where r: "sys_clock_announce (Suc (length (timeout_list ?k))) 0 (\<lambda>n s. s) d (?k, ()) = Some r"
    and q: "t \<in> set (runq (fst r))"
    using announce_wakes_thread [OF _ quiet_id, of "(?k, ())" "Suc (length (timeout_list ?k))" t d d] ok1 d1 b
    by auto
  have st: "hello_step SLEEPTIME greet ?s (?s\<lparr>hk := fst r\<rparr>)"
    using r by (intro hello_step.tick) (simp_all add: isr_enter_def)
  have u: "undisturbed t (hk ?s) (fst r)" if "ThreadTo t \<notin> fst ` set (timeout_list (hk ?s))" for t
    using undisturbed_announce [OF r] that by simp
  have w2: "waits SLEEPTIME greet s0 (?s\<lparr>hk := fst r\<rparr>)" using waits_step [OF w1 st K u] by simp
  have "sched_ok (fst r)" using kstep_sched_ok [OF kstep.tick [OF r] ok1] .
  then have "z_is_thread_ready (fst r) t"
    using q kinv_queued [OF sched_okD(1), of "fst r" t] by (auto simp: sched_ok_def kinv_but_def runq_ok_def)
  then show ?thesis using w2 by (intro exI [of _ "?s\<lparr>hk := fst r\<rparr>"]) simp
qed

text \<open>A ready thread lets one of the two run.\<close>

lemma one_runs:
  assumes i: "hello_inv s" and l: "live_inv s" and n: "nested (cpus (hk s) 0) = 0"
    and v: "z_is_thread_ready (hk s) (tid_of v)" "allowed (hk s) (tid_of v)"
  obtains w where "cur0 (hk s) = tid_of w" "running (hk s)"
proof -
  note ok = hello_invD(1) [OF i] and L = live_invD [OF l]
  have c: "cur0 (hk s) = cache (hk s)" using L(2) n by simp
  have i2: "idle0 (hk s) = 2" using hello_invD(2) [OF i] .
  have r: "z_is_thread_ready (hk s) (cur0 (hk s))" using settled_ready [OF ok c] .
  then have "cur0 (hk s) \<in> {2, 3, 4}" using L(3) [of "cur0 (hk s)"] by (auto simp: z_is_thread_ready_def)
  moreover have "cur0 (hk s) \<noteq> 2"
  proof
    assume e: "cur0 (hk s) = 2"
    then have "next_up_uniprocessor 0 (hk s) = 2" using sched_okD(2) [OF ok] c L(5) by (auto simp: cache_ok_def)
    moreover have "tid_of v \<noteq> idle0 (hk s)" using i2 by (cases v) simp_all
    ultimately show False using next_up_best [OF ok _ v] i2 by simp
  qed
  ultimately have "cur0 (hk s) = tid_of ThreadA \<or> cur0 (hk s) = tid_of ThreadB" "running (hk s)"
    using r i2 by (auto simp: running_def)
  then show thesis using that by blast
qed

lemma a_thread_gets_the_cpu:
  assumes i: "hello_inv s" and l: "live_inv s" and K: "K_MSEC SLEEPTIME \<noteq> K_FOREVER"
  obtains s' w where "waits SLEEPTIME greet s s'" "nested (cpus (hk s') 0) = 0" "cur0 (hk s') = tid_of w" "running (hk s')"
proof -
  note ret = interrupts_return [OF _ K] and result = that
  have ready: thesis if w: "waits SLEEPTIME greet s s1" and r: "z_is_thread_ready (hk s1) (tid_of v)"
    and a: "v = ThreadB \<Longrightarrow> pc s1 ThreadA \<noteq> Create" for s1 v
  proof -
    obtain s2 where s2: "waits SLEEPTIME greet s s2" "nested (cpus (hk s2) 0) = 0" "z_is_thread_ready (hk s2) (tid_of v)"
      using ret [OF w] r by blast
    have i2: "hello_inv s2" "live_inv s2" "pc s2 = pc s1" using s2(1) w by (simp_all add: waits_def)
    have "allowed (hk s2) (tid_of v)" using live_invD(6,7) [OF i2(2)] a i2(3) by (cases v) simp_all
    then obtain w' where "cur0 (hk s2) = tid_of w'" "running (hk s2)" by (rule one_runs [OF i2(1,2) s2(2,3)])
    then show thesis by (rule result [OF s2(1,2)])
  qed
  note w0 = waits_refl [OF i l, of SLEEPTIME greet] and L = live_invD [OF l]
  show thesis
  proof (cases "z_is_thread_ready (hk s) (tid_of ThreadA)")
    case True
    then show thesis by (rule ready [OF w0]) simp
  next
    case False
    then have pa: "pc s ThreadA = Sleeping \<or> pc s ThreadA = Taking" using L(8) by (auto simp: up_def)
    then have nc: "pc s ThreadA \<noteq> Create" and upB: "up s ThreadB" using L(9) by auto
    obtain h where h: "has_token s h" using token_exists [OF i] by blast
    have "up s h" using upB L(8) by (cases h) simp_all
    then have "z_is_thread_ready (hk s) (tid_of h) \<or> dozes (tid_of h) (hk s)"
      using h by (auto simp: up_def has_token_def)
    then obtain s1 where s1: "waits SLEEPTIME greet s s1" "z_is_thread_ready (hk s1) (tid_of h)"
      using w0 dozer_wakes [OF w0 K] by blast
    have "pc s1 ThreadA \<noteq> Create" using s1(1) nc by (simp add: waits_def)
    then show thesis by (rule ready [OF s1])
  qed
qed

lemma next_round:
  assumes i: "hello_inv s" and l: "live_inv s" and K: "K_MSEC SLEEPTIME \<noteq> K_FOREVER" and h: "has_token s h"
  shows "\<exists>s'. (hello_step SLEEPTIME greet)\<^sup>*\<^sup>* s s' \<and> hello_inv s' \<and> live_inv s' \<and> closer s (distance s h) s'"
proof -
  obtain s1 w where w: "waits SLEEPTIME greet s s1" "nested (cpus (hk s1) 0) = 0" "cur0 (hk s1) = tid_of w" "running (hk s1)"
    by (rule a_thread_gets_the_cpu [OF i l K])
  then have s1: "(hello_step SLEEPTIME greet)\<^sup>*\<^sup>* s s1" "hello_inv s1" "live_inv s1" "greeted s1 = greeted s" "pc s1 = pc s"
    "has_token s1 h" using h by (simp_all add: waits_def)
  let ?s = "thread_step SLEEPTIME greet w s1"
  have st: "hello_step SLEEPTIME greet s1 ?s" using w by (intro hello_step.thread)
  have "closer s1 (distance s1 h) ?s" using closer_thread [OF s1(2) w(3,4) s1(6)] .
  then have "closer s (distance s h) ?s" using s1(4,5) by (simp add: closer_def distance_def)
  then show ?thesis
    using rtranclp.rtrancl_into_rtrancl [OF s1(1) st] hello_inv_step [OF st s1(2)] live_step [OF st s1(2,3) K] by blast
qed

lemma next_greeting:
  assumes "hello_inv s" "live_inv s" "K_MSEC SLEEPTIME \<noteq> K_FOREVER" "has_token s h"
  shows "\<exists>s'. (hello_step SLEEPTIME greet)\<^sup>*\<^sup>* s s' \<and> length (greeted s') = Suc (length (greeted s))"
  using assms(1,2,4)
proof (induction "distance s h" arbitrary: s h rule: less_induct)
  case less
  obtain s1 where s1: "(hello_step SLEEPTIME greet)\<^sup>*\<^sup>* s s1" "hello_inv s1" "live_inv s1" "closer s (distance s h) s1"
    using next_round [OF less.prems(1,2) assms(3) less.prems(3)] by blast
  show ?case
  proof (cases "length (greeted s1) = Suc (length (greeted s))")
    case True
    then show ?thesis using s1(1) by blast
  next
    case False
    then obtain h' where h': "greeted s1 = greeted s" "has_token s1 h'" "distance s1 h' < distance s h"
      using s1(4) by (auto simp: closer_def)
    from less.hyps [OF h'(3) s1(2,3) h'(2)] obtain s2 where
      "(hello_step SLEEPTIME greet)\<^sup>*\<^sup>* s1 s2" "length (greeted s2) = Suc (length (greeted s1))" by blast
    then show ?thesis using s1(1) h'(1) by (metis rtranclp_trans)
  qed
qed

lemma K_MSEC_ms: "0 \<le> ms \<Longrightarrow> ms < 2 ^ 31 \<Longrightarrow> K_MSEC ms = ms"
proof -
  assume a: "0 \<le> ms" "ms < 2 ^ 31"
  have "k_ms_to_ticks_ceil64 t = t" for t
    by (simp add: k_ms_to_ticks_ceil64_def z_tmcvt_def)
  then have "K_MSEC ms = sint (word_of_int ms :: u64)" using a by (simp add: K_MSEC_def)
  also have "\<dots> = ms"
    using a by (simp add: sint_sbintrunc' signed_take_bit_int_eq_self)
  finally show ?thesis .
qed

section \<open>Properties\<close>

text \<open>
  C41: The application never stops greeting. From every state it can reach, with any sleep
  time that the 32-bit argument of \<^verbatim>\<open>k_msleep\<close> can hold, further steps of the threads
  and of the clock interrupt lead to a state with one more greeting.
\<close>

theorem hello_makes_progress:
  assumes "hello_reachable SLEEPTIME greet g s" "0 \<le> SLEEPTIME" "SLEEPTIME < 2 ^ 31"
  shows "\<exists>s'. (hello_step SLEEPTIME greet)\<^sup>*\<^sup>* s s' \<and> length (greeted s') = Suc (length (greeted s))"
proof -
  have K: "K_MSEC SLEEPTIME \<noteq> K_FOREVER" using K_MSEC_ms [OF assms(2,3)] assms(2) by simp
  note i = hello_reachable_inv [OF assms(1)]
  obtain h where "has_token s h" using token_exists [OF i] by blast
  then show ?thesis using next_greeting [OF i live_reachable [OF assms(1) K] K] by blast
qed

theorem hello_makes_progress_witness:
  "\<exists>s'. (hello_step 500 (\<lambda>w n. n + 1))\<^sup>*\<^sup>* (hello_init (0 :: nat)) s' \<and> length (greeted s') = 1"
  using hello_makes_progress [OF hello_reachable.boot, of 500 "\<lambda>w n. n + 1" "0 :: nat"]
  by (simp add: hello_init_def)

end
