(* ===== verification/Mutex.thy ===== *)
theory Mutex
  imports Sample_State
begin

text \<open>
  Mutexes with priority inheritance, \<^verbatim>\<open>kernel/mutex.c\<close>. Reading a field through a null
  owner pointer is \<open>None\<close>. The lemmas show the invariant of a mutex and that it is kept,
  that ownership passes to the first waiter, that a blocked locker raises the owner to its
  own priority, and that the code run after a timeout reads through the owner pointer of a
  mutex that may have been released meanwhile.
\<close>

section \<open>Definitions\<close>

record k_mutex =
  mutex_wait_q :: nat
  mutex_owner :: "tid option"
  lock_count :: u32
  owner_orig_prio :: int

definition k_mutex_init :: "k_mutex \<times> kernel \<Rightarrow> int \<times> (k_mutex \<times> kernel)" where
  "k_mutex_init s =
     (0, ((fst s)\<lparr>mutex_owner := None, lock_count := 0\<rparr>,
          (snd s)\<lparr>waitqs := (waitqs (snd s))(ObjQ (mutex_wait_q (fst s)) := [])\<rparr>))"

definition new_prio_for_inheritance :: "int \<Rightarrow> int \<Rightarrow> int" where
  "new_prio_for_inheritance target lim =
     (let new_prio = (if z_is_prio_higher target lim then target else lim)
      in z_get_new_prio_with_ceiling new_prio)"

definition adjust_owner_prio :: "cpu_id \<Rightarrow> k_mutex \<Rightarrow> int \<Rightarrow> kernel \<Rightarrow> (bool \<times> kernel) option" where
  "adjust_owner_prio c mutex new_prio k =
     (case mutex_owner mutex of
        None \<Rightarrow> None
      | Some t \<Rightarrow>
          Some (if prio_of (threads k t) \<noteq> new_prio then z_set_prio c t new_prio k else (False, k)))"

text \<open>The caller of \<open>k_mutex_lock\<close> that blocks keeps the local \<^verbatim>\<open>resched\<close> on its stack.\<close>

datatype lock_outcome = Lock_returned int | Lock_blocked bool

definition k_mutex_lock ::
  "cpu_id \<Rightarrow> k_timeout_t \<Rightarrow> k_mutex \<times> kernel \<Rightarrow> (lock_outcome \<times> (k_mutex \<times> kernel)) option" where
  "k_mutex_lock c timeout s =
     (let (mutex, k) = s; cur = current_thread c k
      in if lock_count mutex = 0 \<or> mutex_owner mutex = Some cur then
           let mutex = mutex\<lparr>owner_orig_prio :=
                 (if lock_count mutex = 0 then prio_of (threads k cur) else owner_orig_prio mutex)\<rparr>;
               mutex = mutex\<lparr>lock_count := lock_count mutex + 1\<rparr>;
               mutex = mutex\<lparr>mutex_owner := Some cur\<rparr>
           in Some (Lock_returned 0, (mutex, k))
         else if timeout = K_NO_WAIT then Some (Lock_returned (- EBUSY), (mutex, k))
         else
           case mutex_owner mutex of
             None \<Rightarrow> None
           | Some t \<Rightarrow>
               let new_prio = new_prio_for_inheritance (prio_of (threads k cur)) (prio_of (threads k t))
               in case (if z_is_prio_higher new_prio (prio_of (threads k t))
                        then adjust_owner_prio c mutex new_prio k else Some (False, k)) of
                    None \<Rightarrow> None
                  | Some (need_resched, k) \<Rightarrow>
                      Some (Lock_blocked need_resched,
                            (mutex, z_pend_curr c (Some (ObjQ (mutex_wait_q mutex))) timeout k)))"

text \<open>The rest of \<open>k_mutex_lock\<close> when the caller runs again.\<close>

definition k_mutex_lock_resume :: "cpu_id \<Rightarrow> bool \<Rightarrow> k_mutex \<times> kernel \<Rightarrow> (int \<times> kernel) option" where
  "k_mutex_lock_resume c need_resched s =
     (let (mutex, k) = s; got_mutex = swap_retval (threads k (current_thread c k))
      in if got_mutex = 0 then Some (0, k)
         else
           let new_prio = (case z_waitq_head (ObjQ (mutex_wait_q mutex)) k of
                             Some waiter \<Rightarrow>
                               new_prio_for_inheritance (prio_of (threads k waiter)) (owner_orig_prio mutex)
                           | None \<Rightarrow> owner_orig_prio mutex)
           in case adjust_owner_prio c mutex new_prio k of
                None \<Rightarrow> None
              | Some (r, k) \<Rightarrow> Some (- EAGAIN, if r \<or> need_resched then z_reschedule c k else k))"

text \<open>
  \<open>k_mutex_unlock\<close> ends with \<open>k_sched_unlock\<close>, which the caller runs later if the
  rescheduling point before it switches away.
\<close>

definition k_mutex_unlock ::
  "cpu_id \<Rightarrow> k_mutex \<times> kernel \<Rightarrow> int outcome \<times> (k_mutex \<times> kernel)" where
  "k_mutex_unlock c s =
     (let (mutex, k) = s; cur = current_thread c k
      in case mutex_owner mutex of
           None \<Rightarrow> (Returned (- EINVAL), (mutex, k))
         | Some t \<Rightarrow>
             if t \<noteq> cur then (Returned (- EPERM), (mutex, k))
             else
               let k = z_sched_lock c k
               in if lock_count mutex > 1 then
                    (Returned 0, (mutex\<lparr>lock_count := lock_count mutex - 1\<rparr>, k_sched_unlock c k))
                  else
                    let k = (if prio_of (threads k t) \<noteq> owner_orig_prio mutex
                             then snd (z_set_prio c t (owner_orig_prio mutex) k) else k);
                        (new_owner, k) = z_unpend_first_thread (ObjQ (mutex_wait_q mutex)) k;
                        mutex = mutex\<lparr>mutex_owner := new_owner\<rparr>
                    in case new_owner of
                         Some t \<Rightarrow>
                           let mutex = mutex\<lparr>owner_orig_prio := prio_of (threads k t)\<rparr>;
                               k = z_ready_thread c t (arch_thread_return_value_set t 0 k);
                               k = z_reschedule c k
                           in if current_thread c k = cur then (Returned 0, (mutex, k_sched_unlock c k))
                              else (Blocked, (mutex, k))
                       | None \<Rightarrow> (Returned 0, (mutex\<lparr>lock_count := 0\<rparr>, k_sched_unlock c k)))"

definition k_mutex_unlock_resume :: "cpu_id \<Rightarrow> kernel \<Rightarrow> int \<times> kernel" where
  "k_mutex_unlock_resume c k = (0, k_sched_unlock c k)"

section \<open>The invariant\<close>

text \<open>
  A mutex has an owner exactly while it is locked; a free mutex has no waiters; the owner
  does not wait for its own mutex.
\<close>

definition mutex_ok :: "k_mutex \<Rightarrow> tid \<Rightarrow> tid list \<Rightarrow> bool" where
  "mutex_ok mutex idle ws \<longleftrightarrow>
     (mutex_owner mutex = None \<longleftrightarrow> lock_count mutex = 0) \<and> (lock_count mutex = 0 \<longrightarrow> ws = []) \<and>
     (\<forall>t. mutex_owner mutex = Some t \<longrightarrow> t \<notin> set ws \<and> t \<noteq> idle)"

lemma waitqs_set_prio [simp]: "waitqs (snd (z_set_prio c t p k)) = waitqs k"
  by (simp add: z_set_prio_def Let_def)

lemma set_prio_fields [simp]:
  "current_thread c (snd (z_set_prio c' t p k)) = current_thread c k"
  "idle_thread (cpus (snd (z_set_prio c' t p k)) i) = idle_thread (cpus k i)"
  "CONFIG_SMP (snd (z_set_prio c' t p k)) = CONFIG_SMP k"
  by (simp_all add: z_set_prio_def Let_def current_thread_def)

lemma ready_set_prio [simp]: "z_is_thread_ready (snd (z_set_prio c t p k)) u = z_is_thread_ready k u"
  by (auto simp: z_set_prio_def Let_def state_bits z_is_thread_timeout_active_def z_is_inactive_timeout_def
      bit_thread_state)

lemma adjust_owner_prio_ok:
  assumes "sched_ok k" "mutex_ok mutex (idle0 k) ws" "adjust_owner_prio 0 mutex p k = Some (r, k')"
  shows "sched_ok k'" "waitqs k' = waitqs k" "idle0 k' = idle0 k" "cur0 k' = cur0 k" "running k' = running k"
proof -
  obtain t where t: "mutex_owner mutex = Some t"
    using assms(3) by (auto simp: adjust_owner_prio_def split: option.splits)
  then have "t \<noteq> idle0 k" using assms(2) by (simp add: mutex_ok_def)
  moreover have "k' = (if prio_of (threads k t) \<noteq> p then snd (z_set_prio 0 t p k) else k)"
    using assms(3) t by (auto simp: adjust_owner_prio_def prod_eq_iff split: if_splits)
  ultimately show "sched_ok k'" "waitqs k' = waitqs k" "idle0 k' = idle0 k" "cur0 k' = cur0 k"
    "running k' = running k"
    using assms(1) sched_ok_z_set_prio by (simp_all add: running_def)
qed

section \<open>Locking\<close>

lemma lock_count_not_zero: "lock_count mutex \<noteq> - 1 \<Longrightarrow> lock_count mutex + 1 \<noteq> 0" for mutex :: k_mutex
  by (metis add_eq_0_iff2)

lemma k_mutex_lock_free:
  "lock_count mutex = 0 \<or> mutex_owner mutex = Some (current_thread c k) \<Longrightarrow>
   k_mutex_lock c d (mutex, k) =
     Some (Lock_returned 0,
       (mutex\<lparr>owner_orig_prio :=
            (if lock_count mutex = 0 then prio_of (threads k (current_thread c k)) else owner_orig_prio mutex),
          lock_count := lock_count mutex + 1, mutex_owner := Some (current_thread c k)\<rparr>, k))"
  by (simp add: k_mutex_lock_def Let_def)

text \<open>Locking a mutex of another thread: inherit, then wait.\<close>

definition raised :: "cpu_id \<Rightarrow> tid \<Rightarrow> kernel \<Rightarrow> bool \<times> kernel" where
  "raised c t k =
     (let new_prio = new_prio_for_inheritance (prio_of (threads k (current_thread c k))) (prio_of (threads k t))
      in if new_prio < prio_of (threads k t) then z_set_prio c t new_prio k else (False, k))"

lemma k_mutex_lock_contended:
  assumes "mutex_owner mutex = Some t" "t \<noteq> current_thread c k" "lock_count mutex \<noteq> 0" "d \<noteq> K_NO_WAIT"
  shows "k_mutex_lock c d (mutex, k) =
    Some (Lock_blocked (fst (raised c t k)),
      (mutex, z_pend_curr c (Some (ObjQ (mutex_wait_q mutex))) d (snd (raised c t k))))"
  using assms
  by (auto simp: k_mutex_lock_def adjust_owner_prio_def raised_def z_is_prio_higher_def Let_def split: prod.split)

lemma k_mutex_lock_busy:
  "mutex_owner mutex \<noteq> Some (current_thread c k) \<Longrightarrow> lock_count mutex \<noteq> 0 \<Longrightarrow>
   k_mutex_lock c K_NO_WAIT (mutex, k) = Some (Lock_returned (- EBUSY), (mutex, k))"
  by (simp add: k_mutex_lock_def)

lemma k_mutex_lock_cases:
  assumes "mutex_ok mutex i ws"
  obtains (free) "lock_count mutex = 0 \<or> mutex_owner mutex = Some (current_thread c k)"
  | (busy) "d = K_NO_WAIT" "mutex_owner mutex \<noteq> Some (current_thread c k)" "lock_count mutex \<noteq> 0"
  | (blocked) t where "mutex_owner mutex = Some t" "t \<noteq> current_thread c k" "lock_count mutex \<noteq> 0" "d \<noteq> K_NO_WAIT"
  using assms by (cases "mutex_owner mutex") (auto simp: mutex_ok_def)

text \<open>With the invariant, locking never reads through a null owner.\<close>

lemma k_mutex_lock_total:
  assumes "mutex_ok mutex i ws"
  shows "\<exists>r s'. k_mutex_lock c d (mutex, k) = Some (r, s')"
  using assms
  by (rule k_mutex_lock_cases [where c = c and k = k and d = d])
    (auto simp: k_mutex_lock_free k_mutex_lock_busy k_mutex_lock_contended)

lemma raised_ok:
  assumes "sched_ok k" "t \<noteq> idle0 k"
  shows "sched_ok (snd (raised 0 t k))" "waitqs (snd (raised 0 t k)) = waitqs k"
    "idle0 (snd (raised 0 t k)) = idle0 k" "cur0 (snd (raised 0 t k)) = cur0 k"
    "running (snd (raised 0 t k)) = running k"
  using assms sched_ok_z_set_prio by (simp_all add: raised_def Let_def running_def)

lemma k_mutex_lock_effect:
  assumes "sched_ok k" "running k" "mutex_ok mutex (idle0 k) (waitqs k (ObjQ (mutex_wait_q mutex)))"
    and "lock_count mutex \<noteq> - 1" "k_mutex_lock 0 d (mutex, k) = Some (r, (mutex', k'))"
  shows "sched_ok k' \<and> idle0 k' = idle0 k \<and> mutex_wait_q mutex' = mutex_wait_q mutex \<and>
    mutex_ok mutex' (idle0 k) (waitqs k' (ObjQ (mutex_wait_q mutex))) \<and>
    (n \<noteq> mutex_wait_q mutex \<longrightarrow> waitqs k' (ObjQ n) = waitqs k (ObjQ n))"
  using assms(3)
proof (rule k_mutex_lock_cases [where c = 0 and k = k and d = d])
  assume f: "lock_count mutex = 0 \<or> mutex_owner mutex = Some (cur0 k)"
  have "cur0 k \<notin> set (waitqs k (ObjQ (mutex_wait_q mutex)))"
    using f assms(3) by (auto simp: mutex_ok_def)
  then show ?thesis
    using assms f lock_count_not_zero k_mutex_lock_free [OF f] by (auto simp: mutex_ok_def running_def)
next
  assume "d = K_NO_WAIT" "mutex_owner mutex \<noteq> Some (cur0 k)" "lock_count mutex \<noteq> 0"
  then show ?thesis using assms k_mutex_lock_busy by auto
next
  fix t
  assume b: "mutex_owner mutex = Some t" "t \<noteq> cur0 k" "lock_count mutex \<noteq> 0" "d \<noteq> K_NO_WAIT"
  have i: "t \<noteq> idle0 k" using assms(3) b by (simp add: mutex_ok_def)
  note ra = raised_ok [OF assms(1) i]
  show ?thesis
    using k_mutex_lock_contended [OF b] assms ra sched_ok_block [OF ra(1)] b
    by (auto simp: mutex_ok_def waitqs_z_pend_curr)
qed

section \<open>Unlocking\<close>

text \<open>Before the hand-over the caller locks the scheduler and gives up its inherited priority.\<close>

definition restored :: "cpu_id \<Rightarrow> k_mutex \<Rightarrow> tid \<Rightarrow> kernel \<Rightarrow> kernel" where
  "restored c mutex t k =
     (let k = z_sched_lock c k
      in if prio_of (threads k t) \<noteq> owner_orig_prio mutex
         then snd (z_set_prio c t (owner_orig_prio mutex) k) else k)"

lemma restored_ok:
  assumes "sched_ok k" "sched_locked (threads k (cur0 k)) \<noteq> 1" "t \<noteq> idle0 k"
  shows "sched_ok (restored 0 mutex t k)" "waitqs (restored 0 mutex t k) = waitqs k"
    "idle0 (restored 0 mutex t k) = idle0 k" "cur0 (restored 0 mutex t k) = cur0 k"
proof -
  let ?k = "z_sched_lock 0 k"
  have k: "sched_ok ?k" using sched_ok_k_sched_lock [OF assms(1,2)] by (simp add: k_sched_lock_def)
  have f: "waitqs ?k = waitqs k" "idle0 ?k = idle0 k" "cur0 ?k = cur0 k"
    by (simp_all add: z_sched_lock_def current_thread_def)
  show "sched_ok (restored 0 mutex t k)" "waitqs (restored 0 mutex t k) = waitqs k"
    "idle0 (restored 0 mutex t k) = idle0 k" "cur0 (restored 0 mutex t k) = cur0 k"
    using k f sched_ok_z_set_prio [OF k] assms(3) by (simp_all add: restored_def Let_def)
qed

lemma k_mutex_unlock_errors:
  "mutex_owner mutex = None \<Longrightarrow> k_mutex_unlock c (mutex, k) = (Returned (- EINVAL), (mutex, k))"
  "mutex_owner mutex = Some t \<Longrightarrow> t \<noteq> current_thread c k \<Longrightarrow>
   k_mutex_unlock c (mutex, k) = (Returned (- EPERM), (mutex, k))"
  by (simp_all add: k_mutex_unlock_def)

lemma k_mutex_unlock_recursive:
  "mutex_owner mutex = Some (current_thread c k) \<Longrightarrow> 1 < lock_count mutex \<Longrightarrow>
   k_mutex_unlock c (mutex, k) =
     (Returned 0, (mutex\<lparr>lock_count := lock_count mutex - 1\<rparr>, k_sched_unlock c (z_sched_lock c k)))"
  by (simp add: k_mutex_unlock_def Let_def)

lemma k_mutex_unlock_free:
  assumes "mutex_owner mutex = Some (current_thread c k)" "\<not> 1 < lock_count mutex"
    and "waitqs (restored c mutex (current_thread c k) k) (ObjQ (mutex_wait_q mutex)) = []"
  shows "k_mutex_unlock c (mutex, k) =
    (Returned 0, (mutex\<lparr>mutex_owner := None, lock_count := 0\<rparr>,
       k_sched_unlock c (restored c mutex (current_thread c k) k)))"
  using assms by (simp add: k_mutex_unlock_def restored_def Let_def z_unpend_first_thread_cases)

lemma k_mutex_unlock_pass:
  assumes "mutex_owner mutex = Some (current_thread c k)" "\<not> 1 < lock_count mutex"
    and "waitqs (restored c mutex (current_thread c k) k) (ObjQ (mutex_wait_q mutex)) = t # ts"
    and "k1 = snd (z_unpend_first_thread (ObjQ (mutex_wait_q mutex)) (restored c mutex (current_thread c k) k))"
    and "k2 = z_reschedule c (z_ready_thread c t (arch_thread_return_value_set t 0 k1))"
  shows "k_mutex_unlock c (mutex, k) =
    ((if current_thread c k2 = current_thread c k then Returned 0 else Blocked),
     (mutex\<lparr>mutex_owner := Some t, owner_orig_prio := prio_of (threads k1 t)\<rparr>,
      if current_thread c k2 = current_thread c k then k_sched_unlock c k2 else k2))"
  using assms by (simp add: k_mutex_unlock_def restored_def Let_def z_unpend_first_thread_cases)

lemma k_mutex_unlock_effect:
  assumes "sched_ok k" "sched_locked (threads k (cur0 k)) \<noteq> 1"
    "mutex_ok mutex (idle0 k) (waitqs k (ObjQ (mutex_wait_q mutex)))" "k_mutex_unlock 0 (mutex, k) = (r, (mutex', k'))"
  shows "sched_ok k' \<and> idle0 k' = idle0 k \<and> mutex_wait_q mutex' = mutex_wait_q mutex \<and>
    mutex_ok mutex' (idle0 k) (waitqs k' (ObjQ (mutex_wait_q mutex))) \<and>
    (n \<noteq> mutex_wait_q mutex \<longrightarrow> waitqs k' (ObjQ n) = waitqs k (ObjQ n))"
proof (cases "mutex_owner mutex = Some (cur0 k)")
  case False
  then show ?thesis using assms k_mutex_unlock_errors by (cases "mutex_owner mutex") auto
next
  case own: True
  let ?q = "ObjQ (mutex_wait_q mutex)"
  have i: "cur0 k \<noteq> idle0 k" using own assms(3) by (simp add: mutex_ok_def)
  note re = restored_ok [OF assms(1,2) i, of mutex]
  show ?thesis
  proof (cases "1 < lock_count mutex")
    case True
    have "sched_ok (z_sched_lock 0 k)"
      using sched_ok_k_sched_lock [OF assms(1,2)] by (simp add: k_sched_lock_def)
    then show ?thesis
      using k_mutex_unlock_recursive [OF own True] assms own sched_ok_k_sched_unlock True
      by (auto simp: mutex_ok_def z_sched_lock_def current_thread_def)
  next
    case False
    show ?thesis
    proof (cases "waitqs (restored 0 mutex (cur0 k) k) ?q")
      case Nil
      then show ?thesis
        using k_mutex_unlock_free [OF own False Nil] assms re sched_ok_k_sched_unlock [OF re(1)]
        by (auto simp: mutex_ok_def)
    next
      case (Cons t ts)
      define k1 where "k1 = snd (z_unpend_first_thread ?q (restored 0 mutex (cur0 k) k))"
      define k2 where "k2 = z_reschedule 0 (z_ready_thread 0 t (arch_thread_return_value_set t 0 k1))"
      note w = wake_first(1,2,5) [OF re(1) Cons k1_def, where v = 0]
      have k2: "sched_ok k2" "waitqs k2 = (waitqs k)(?q := ts)" "idle0 k2 = idle0 k"
        using sched_ok_reschedule [OF w(1)] w re sched_ok_smp [OF w(1)] by (simp_all add: k2_def)
      have "distinct (waitqs k ?q)" "t \<noteq> idle0 k"
        using waiters_distinct [OF assms(1), of ?q] waiter_not_idle [OF assms(1), of t ?q] Cons re(2) by auto
      then show ?thesis
        using k_mutex_unlock_pass [OF own False Cons k1_def k2_def] assms k2 Cons re(2)
          sched_ok_k_sched_unlock [OF k2(1)]
        by (auto simp: mutex_ok_def)
    qed
  qed
qed

section \<open>The contract\<close>

lemma k_mutex_lock_resume_effect:
  assumes "sched_ok k" "mutex_ok mutex (idle0 k) ws" "k_mutex_lock_resume 0 b (mutex, k) = Some (r, k')"
  shows "sched_ok k' \<and> idle0 k' = idle0 k \<and> waitqs k' = waitqs k"
proof -
  have "sched_ok k1 \<and> idle0 k1 = idle0 k \<and> waitqs k1 = waitqs k"
    if "adjust_owner_prio 0 mutex p k = Some (a, k1)" for p a k1
    using adjust_owner_prio_ok [OF assms(1,2) that] by simp
  moreover have "sched_ok (z_reschedule 0 k1) \<and> idle0 (z_reschedule 0 k1) = idle0 k1 \<and>
      waitqs (z_reschedule 0 k1) = waitqs k1" if "sched_ok k1" for k1
    using that sched_ok_reschedule by simp
  ultimately show ?thesis
    using assms by (fastforce simp: k_mutex_lock_resume_def Let_def split: if_splits option.splits)
qed

inductive mutex_step :: "k_mutex \<times> kernel \<Rightarrow> k_mutex \<times> kernel \<Rightarrow> bool" where
  lock: "running k \<Longrightarrow> lock_count mutex \<noteq> - 1 \<Longrightarrow> k_mutex_lock 0 d (mutex, k) = Some (r, s') \<Longrightarrow>
    mutex_step (mutex, k) s'"
| lock_resume: "k_mutex_lock_resume 0 b (mutex, k) = Some (r, k') \<Longrightarrow> mutex_step (mutex, k) (mutex, k')"
| unlock: "sched_locked (threads k (cur0 k)) \<noteq> 1 \<Longrightarrow> k_mutex_unlock 0 (mutex, k) = (r, s') \<Longrightarrow>
    mutex_step (mutex, k) s'"
| unlock_resume: "k_mutex_unlock_resume 0 k = (r, k') \<Longrightarrow> mutex_step (mutex, k) (mutex, k')"

lemma mutex_step_effect:
  assumes "mutex_step (mutex, k) (mutex', k')" "sched_ok k"
    "mutex_ok mutex (idle0 k) (waitqs k (ObjQ (mutex_wait_q mutex)))"
  shows "sched_ok k' \<and> idle0 k' = idle0 k \<and> mutex_wait_q mutex' = mutex_wait_q mutex \<and>
    mutex_ok mutex' (idle0 k) (waitqs k' (ObjQ (mutex_wait_q mutex))) \<and>
    (n \<noteq> mutex_wait_q mutex \<longrightarrow> waitqs k' (ObjQ n) = waitqs k (ObjQ n))"
  using assms(1)
proof cases
  case (lock d r)
  then show ?thesis using k_mutex_lock_effect assms(2,3) by blast
next
  case (lock_resume b r)
  then show ?thesis using k_mutex_lock_resume_effect [OF assms(2,3)] assms(3) by auto
next
  case (unlock r)
  then show ?thesis using k_mutex_unlock_effect assms(2,3) by blast
next
  case (unlock_resume r)
  then show ?thesis
    using assms(2,3) sched_ok_k_sched_unlock [OF assms(2)] by (auto simp: k_mutex_unlock_resume_def)
qed

interpretation mutex: kernel_object mutex_step mutex_wait_q mutex_ok
proof unfold_locales
  show "mutex_ok ob i ws \<Longrightarrow> set ws' \<subseteq> set ws \<Longrightarrow> mutex_ok ob i ws'" for ob i ws ws'
    by (auto simp: mutex_ok_def)
qed (auto dest: mutex_step_effect)

section \<open>Priority inheritance\<close>

lemma prio_do_swap [simp]: "\<not> CONFIG_SMP k \<Longrightarrow> prio (threads (do_swap c k) u) = prio (threads k u)"
  by (simp add: do_swap_fields)

lemma prio_z_pend_curr: "sched_ok k \<Longrightarrow> prio (threads (z_pend_curr 0 (Some w) d k) u) = prio (threads k u)"
  by (simp add: z_pend_curr_def z_swap_def pend_def threads_add_to_waitq unready_thread_threads)

lemma sint_word_of_int_8: "- 128 \<le> p \<Longrightarrow> p < 128 \<Longrightarrow> sint (word_of_int p :: u8) = p"
  by (simp add: signed_of_int signed_take_bit_int_eq_self)

lemma prio_set_prio:
  assumes "- 128 \<le> p" "p < 128"
  shows "prio_of (threads (snd (z_set_prio c t p k)) u) = (if u = t then p else prio_of (threads k u))"
  using assms by (simp add: z_set_prio_def Let_def sint_word_of_int_8)

lemma prio_range: "- 128 \<le> prio_of th \<and> prio_of th < 128"
  using sint_ge [of "prio th"] sint_lt [of "prio th"] by simp

lemma new_prio_bounds:
  assumes "- 128 \<le> a" "a < 128" "- 128 \<le> b" "b < 128"
  shows "- 128 \<le> new_prio_for_inheritance a b \<and> new_prio_for_inheritance a b < 128"
    and "new_prio_for_inheritance a b \<le> max a CONFIG_PRIORITY_CEILING"
  using assms by (auto simp: new_prio_for_inheritance_def z_is_prio_higher_def z_get_new_prio_with_ceiling_def
      z_is_under_prio_ceiling_def Let_def)

text \<open>While a thread waits for the mutex, the owner runs at least at the thread's priority.\<close>

lemma k_mutex_lock_inherits:
  assumes "sched_ok k" "mutex_ok mutex (idle0 k) (waitqs k (ObjQ (mutex_wait_q mutex)))"
    and "k_mutex_lock 0 d (mutex, k) = Some (Lock_blocked b, (mutex', k'))" "mutex_owner mutex = Some t"
  shows "prio_of (threads k' t) \<le> max (prio_of (threads k (cur0 k))) CONFIG_PRIORITY_CEILING"
    and "prio_of (threads k' t) \<le> prio_of (threads k t)"
proof -
  let ?p = "new_prio_for_inheritance (prio_of (threads k (cur0 k))) (prio_of (threads k t))"
  have lc: "lock_count mutex \<noteq> 0" "t \<noteq> idle0 k" using assms(2,4) by (auto simp: mutex_ok_def)
  have 1: "t \<noteq> cur0 k" using assms(3,4) lc k_mutex_lock_free [of mutex 0 k d] by auto
  have ne: "t \<noteq> cur0 k" "d \<noteq> K_NO_WAIT"
    using 1 assms(3,4) lc k_mutex_lock_busy [of mutex 0 k] by auto
  have k': "k' = z_pend_curr 0 (Some (ObjQ (mutex_wait_q mutex))) d (snd (raised 0 t k))"
    using k_mutex_lock_contended [OF assms(4) ne(1) lc(1) ne(2)] assms(3) by simp
  have "prio_of (threads k' t) = prio_of (threads (snd (raised 0 t k)) t)"
    unfolding k' using prio_z_pend_curr raised_ok(1) [OF assms(1) lc(2)] by simp
  moreover have "prio_of (threads (snd (raised 0 t k)) t) = (if ?p < prio_of (threads k t) then ?p else prio_of (threads k t))"
    using prio_set_prio new_prio_bounds(1) prio_range by (simp add: raised_def Let_def)
  moreover have "?p \<le> max (prio_of (threads k (cur0 k))) CONFIG_PRIORITY_CEILING" "?p \<le> prio_of (threads k t) \<or> ?p > prio_of (threads k t)"
    using new_prio_bounds(2) prio_range by auto
  ultimately show "prio_of (threads k' t) \<le> max (prio_of (threads k (cur0 k))) CONFIG_PRIORITY_CEILING"
    "prio_of (threads k' t) \<le> prio_of (threads k t)"
    by (auto simp: max_def)
qed

lemma prio_sched_unlock: "\<not> CONFIG_SMP k \<Longrightarrow> prio (threads (k_sched_unlock 0 k) u) = prio (threads k u)"
  by (simp add: k_sched_unlock_def Let_def z_reschedule_unlocked_def z_reschedule_irqlock_def
      resched_uniprocessor z_swap_irqlock_def)

lemma prio_reschedule: "\<not> CONFIG_SMP k \<Longrightarrow> prio (threads (z_reschedule 0 k) u) = prio (threads k u)"
  by (simp add: z_reschedule_def resched_uniprocessor z_swap_def)

lemma prio_wake:
  assumes "sched_ok k" "waitqs k w = t # ts" "k1 = snd (z_unpend_first_thread w k)"
  shows "prio (threads k1 u) = prio (threads k u)"
    and "prio (threads (z_ready_thread 0 t (arch_thread_return_value_set t v k1)) u) = prio (threads k u)"
proof -
  have k1: "k1 = snd (z_abort_thread_timeout t (unpend_thread_no_timeout t k))"
    using assms(2,3) by (simp add: z_unpend_first_thread_cases)
  then have p: "prio (threads k1 v) = prio (threads k v)" for v by simp
  then show "prio (threads k1 u) = prio (threads k u)" .
  have "\<not> CONFIG_SMP (arch_thread_return_value_set t v k1)"
    using assms(1) by (simp add: k1 arch_thread_return_value_set_def)
  then show "prio (threads (z_ready_thread 0 t (arch_thread_return_value_set t v k1)) u) = prio (threads k u)"
    using p by (simp add: z_ready_thread_uniprocessor ready_thread_threads arch_thread_return_value_set_def)
qed

lemma prio_restored:
  assumes "- 128 \<le> owner_orig_prio mutex" "owner_orig_prio mutex < 128"
  shows "prio_of (threads (restored c mutex t k) u) =
    (if u = t then owner_orig_prio mutex else prio_of (threads k u))"
proof -
  have "prio_of (threads (z_sched_lock c k) v) = prio_of (threads k v)" for v
    by (simp add: z_sched_lock_def)
  then show ?thesis using prio_set_prio [OF assms] by (auto simp: restored_def Let_def)
qed

text \<open>
  The last unlock gives back the inherited priority, passes the mutex to the first waiter
  and makes it ready with return value 0; without waiters the mutex is free.
\<close>

lemma k_mutex_unlock_hands_over:
  assumes "sched_ok k" "sched_locked (threads k (cur0 k)) \<noteq> 1"
    and "mutex_ok mutex (idle0 k) (waitqs k (ObjQ (mutex_wait_q mutex)))"
    and "mutex_owner mutex = Some (cur0 k)" "lock_count mutex = 1"
    and "- 128 \<le> owner_orig_prio mutex" "owner_orig_prio mutex < 128"
    and "k_mutex_unlock 0 (mutex, k) = (r, (mutex', k'))"
  shows "prio_of (threads k' (cur0 k)) = owner_orig_prio mutex"
    and "mutex_owner mutex' =
      (case waitqs k (ObjQ (mutex_wait_q mutex)) of [] \<Rightarrow> None | t # _ \<Rightarrow> Some t)"
    and "lock_count mutex' = (if waitqs k (ObjQ (mutex_wait_q mutex)) = [] then 0 else 1)"
proof -
  let ?q = "ObjQ (mutex_wait_q mutex)" and ?re = "restored 0 mutex (cur0 k) k"
  have i: "cur0 k \<noteq> idle0 k" using assms(3,4) by (simp add: mutex_ok_def)
  note re = restored_ok [OF assms(1,2) i, of mutex]
  have lc: "\<not> 1 < lock_count mutex" using assms(5) by simp
  note p = prio_restored [OF assms(6,7), of 0 "cur0 k" k "cur0 k"]
  have "prio_of (threads k' (cur0 k)) = owner_orig_prio mutex \<and>
    mutex_owner mutex' = (case waitqs k ?q of [] \<Rightarrow> None | t # _ \<Rightarrow> Some t) \<and>
    lock_count mutex' = (if waitqs k ?q = [] then 0 else 1)"
  proof (cases "waitqs ?re ?q")
    case Nil
    then show ?thesis
      using k_mutex_unlock_free [OF assms(4) lc Nil] assms(8) re p prio_sched_unlock [OF sched_ok_smp [OF re(1)]]
      by auto
  next
    case (Cons t ts)
    define k1 where "k1 = snd (z_unpend_first_thread ?q ?re)"
    define k2 where "k2 = z_reschedule 0 (z_ready_thread 0 t (arch_thread_return_value_set t 0 k1))"
    note w = wake_first(1) [OF re(1) Cons k1_def, where v = 0]
    have "prio (threads k2 u) = prio (threads ?re u)" for u
      using prio_wake(2) [OF re(1) Cons k1_def] prio_reschedule [OF sched_ok_smp [OF w]] by (simp add: k2_def)
    moreover have "\<not> CONFIG_SMP k2" using sched_ok_smp [OF sched_ok_reschedule [OF w]] by (simp add: k2_def)
    ultimately show ?thesis
      using k_mutex_unlock_pass [OF assms(4) lc Cons k1_def k2_def] assms(5,8) re(2) p Cons prio_sched_unlock
      by (auto split: if_splits)
  qed
  then show "prio_of (threads k' (cur0 k)) = owner_orig_prio mutex"
    "mutex_owner mutex' = (case waitqs k ?q of [] \<Rightarrow> None | t # _ \<Rightarrow> Some t)"
    "lock_count mutex' = (if waitqs k ?q = [] then 0 else 1)" by blast+
qed

section \<open>A timed-out lock of a mutex released meanwhile\<close>

text \<open>
  The owner releases the mutex between the expiry of the only waiter's timeout and the
  waiter's next turn. The waiter then reads the priority of a null owner.
\<close>

lemma timed_out_lock_faults:
  assumes "sched_ok k" "sched_locked (threads k (cur0 k)) \<noteq> 1"
    and "mutex_ok mutex (idle0 k) (waitqs k (ObjQ (mutex_wait_q mutex)))"
    and "mutex_owner mutex = Some (cur0 k)" "lock_count mutex = 1"
    and "- 128 \<le> owner_orig_prio mutex" "owner_orig_prio mutex < 128"
    and "waitqs k (ObjQ (mutex_wait_q mutex)) = []" "k_mutex_unlock 0 (mutex, k) = (r, (mutex', k'))"
    and "swap_retval (threads k'' (current_thread c k'')) = - EAGAIN"
  shows "k_mutex_lock_resume c b (mutex', k'') = None"
proof -
  have "mutex_owner mutex' = None" using k_mutex_unlock_hands_over(2) [OF assms(1-7,9)] assms(8) by simp
  then show ?thesis using assms(10) by (simp add: k_mutex_lock_resume_def adjust_owner_prio_def)
qed

section \<open>Properties\<close>

text \<open>
  C15: Locking never reads through a null owner, and a thread that blocks on a mutex leaves
  the owner with a priority at least as urgent as its own, up to the priority ceiling, and
  no less urgent than before.
\<close>

theorem mutex_priority_inheritance:
  assumes "sched_ok k" "mutex_ok mutex (idle0 k) (waitqs k (ObjQ (mutex_wait_q mutex)))"
  shows "\<exists>res mutex' k'. k_mutex_lock 0 d (mutex, k) = Some (res, (mutex', k')) \<and>
    (\<forall>b t. res = Lock_blocked b \<longrightarrow> mutex_owner mutex = Some t \<longrightarrow>
      prio_of (threads k' t) \<le> max (prio_of (threads k (cur0 k))) CONFIG_PRIORITY_CEILING \<and>
      prio_of (threads k' t) \<le> prio_of (threads k t))"
proof -
  obtain res mutex' k' where l: "k_mutex_lock 0 d (mutex, k) = Some (res, (mutex', k'))"
    using k_mutex_lock_total [OF assms(2), of 0 d k] by (metis prod.exhaust)
  then show ?thesis using k_mutex_lock_inherits [OF assms, of d _ mutex' k'] by auto
qed

definition sample_mutex :: k_mutex where
  "sample_mutex = \<lparr>mutex_wait_q = 8, mutex_owner = Some 4, lock_count = 1, owner_orig_prio = 7\<rparr>"

theorem mutex_priority_inheritance_witness:
  "\<exists>res mutex' k'. k_mutex_lock 0 (- 1) (sample_mutex, sample_kernel 8) = Some (res, (mutex', k'))"
  using mutex_priority_inheritance [OF sample_kernel_ok, of sample_mutex 8 "- 1"]
  by (auto simp: mutex_ok_def sample_mutex_def)

text \<open>
  C16: Unlocking a mutex for the last time gives the owner its original priority back, makes
  the first waiter the owner without ever freeing the mutex, and frees it when nobody waits.
\<close>

theorem mutex_unlock_hands_over:
  assumes "sched_ok k" "sched_locked (threads k (cur0 k)) \<noteq> 1"
    and "mutex_ok mutex (idle0 k) (waitqs k (ObjQ (mutex_wait_q mutex)))"
    and "mutex_owner mutex = Some (cur0 k)" "lock_count mutex = 1"
    and "- 128 \<le> owner_orig_prio mutex" "owner_orig_prio mutex < 128"
    and "k_mutex_unlock 0 (mutex, k) = (r, (mutex', k'))"
  shows "prio_of (threads k' (cur0 k)) = owner_orig_prio mutex \<and>
    mutex_owner mutex' = (case waitqs k (ObjQ (mutex_wait_q mutex)) of [] \<Rightarrow> None | t # _ \<Rightarrow> Some t) \<and>
    lock_count mutex' = (if waitqs k (ObjQ (mutex_wait_q mutex)) = [] then 0 else 1)"
  using k_mutex_unlock_hands_over [OF assms] by blast

lemma sample_sched_unlocked: "sched_locked (threads (sample_kernel w) 7) = 0"
  by (simp add: sample_kernel_def no_thread_def)

theorem mutex_unlock_hands_over_witness:
  "mutex_owner (fst (snd (k_mutex_unlock 0 (sample_mutex\<lparr>mutex_owner := Some 7\<rparr>, sample_kernel 8)))) = Some 2"
proof -
  let ?m = "sample_mutex\<lparr>mutex_owner := Some 7\<rparr>"
  obtain r mutex' k' where u: "k_mutex_unlock 0 (?m, sample_kernel 8) = (r, (mutex', k'))" by (metis prod.exhaust)
  have "mutex_owner mutex' = Some 2"
    using mutex_unlock_hands_over [OF sample_kernel_ok _ _ _ _ _ _ u] sample_sched_unlocked
    by (simp add: mutex_ok_def sample_mutex_def)
  then show ?thesis by (simp add: u)
qed

text \<open>
  C17: Errors of unlocking: a mutex that nobody owns gives -EINVAL and one that another
  thread owns -EPERM, in both cases without any change; an owner that holds it more than
  once keeps it.
\<close>

theorem mutex_unlock_errors:
  "(mutex_owner mutex = None \<longrightarrow> k_mutex_unlock 0 (mutex, k) = (Returned (- EINVAL), (mutex, k))) \<and>
   (mutex_owner mutex \<noteq> None \<and> mutex_owner mutex \<noteq> Some (cur0 k) \<longrightarrow>
      k_mutex_unlock 0 (mutex, k) = (Returned (- EPERM), (mutex, k))) \<and>
   (mutex_owner mutex = Some (cur0 k) \<and> 1 < lock_count mutex \<longrightarrow>
      fst (snd (k_mutex_unlock 0 (mutex, k))) = mutex\<lparr>lock_count := lock_count mutex - 1\<rparr>)"
  using k_mutex_unlock_errors(1) [of mutex 0 k] k_mutex_unlock_errors(2) [of mutex _ 0 k]
    k_mutex_unlock_recursive [of mutex 0 k] by auto

theorem mutex_unlock_errors_witness:
  "fst (k_mutex_unlock 0 (sample_mutex, sample_kernel 8)) = Returned (- EPERM)"
  using mutex_unlock_errors [of sample_mutex "sample_kernel 8"] by (simp add: sample_mutex_def)

text \<open>
  C18: When a thread's wait for a mutex times out and the owner then releases the mutex
  before that thread runs again, the thread reads the priority of the owner through a null
  pointer.
\<close>

theorem mutex_timed_out_lock_faults:
  assumes "sched_ok k" "sched_locked (threads k (cur0 k)) \<noteq> 1"
    and "mutex_ok mutex (idle0 k) (waitqs k (ObjQ (mutex_wait_q mutex)))"
    and "mutex_owner mutex = Some (cur0 k)" "lock_count mutex = 1"
    and "- 128 \<le> owner_orig_prio mutex" "owner_orig_prio mutex < 128"
    and "waitqs k (ObjQ (mutex_wait_q mutex)) = []" "k_mutex_unlock 0 (mutex, k) = (r, (mutex', k'))"
    and "swap_retval (threads k'' (current_thread c k'')) = - EAGAIN"
  shows "k_mutex_lock_resume c b (mutex', k'') = None"
  using assms by (rule timed_out_lock_faults)

theorem mutex_timed_out_lock_faults_witness:
  "k_mutex_lock_resume 0 False
     (fst (snd (k_mutex_unlock 0 (sample_mutex\<lparr>mutex_owner := Some 7\<rparr>, sample_kernel 9))),
      upd_thread 7 (\<lambda>th. th\<lparr>swap_retval := - EAGAIN\<rparr>) (sample_kernel 9)) = None"
proof -
  let ?m = "sample_mutex\<lparr>mutex_owner := Some 7\<rparr>"
  obtain r mutex' k' where u: "k_mutex_unlock 0 (?m, sample_kernel 9) = (r, (mutex', k'))" by (metis prod.exhaust)
  have "k_mutex_lock_resume 0 False (mutex', upd_thread 7 (\<lambda>th. th\<lparr>swap_retval := - EAGAIN\<rparr>) (sample_kernel 9)) = None"
    using mutex_timed_out_lock_faults [OF sample_kernel_ok _ _ _ _ _ _ _ u] sample_sched_unlocked
    by (simp add: mutex_ok_def sample_mutex_def current_thread_def upd_thread_def sample_kernel_def bss_kernel_def)
  then show ?thesis by (simp add: u)
qed

end
