(* ===== verification/Condvar.thy ===== *)
theory Condvar
  imports Mutex
begin

text \<open>
  Condition variables, \<^verbatim>\<open>kernel/condvar.c\<close>. \<open>k_condvar_wait\<close> releases the mutex and
  queues the caller in one critical section: interrupts stay masked, so the release cannot
  switch to another thread before the caller waits.
\<close>

section \<open>Definitions\<close>

record k_condvar =
  condvar_wait_q :: nat

definition k_condvar_init :: "k_condvar \<times> kernel \<Rightarrow> int \<times> (k_condvar \<times> kernel)" where
  "k_condvar_init s =
     (0, (fst s, (snd s)\<lparr>waitqs := (waitqs (snd s))(ObjQ (condvar_wait_q (fst s)) := [])\<rparr>))"

definition k_condvar_signal :: "cpu_id \<Rightarrow> k_condvar \<times> kernel \<Rightarrow> int \<times> (k_condvar \<times> kernel)" where
  "k_condvar_signal c s =
     (let (thread, k) = z_unpend_first_thread (ObjQ (condvar_wait_q (fst s))) (snd s)
      in (0, (fst s,
              case thread of
                Some t \<Rightarrow> z_reschedule c (z_ready_thread c t (arch_thread_return_value_set t 0 k))
              | None \<Rightarrow> k)))"

definition k_condvar_broadcast :: "cpu_id \<Rightarrow> k_condvar \<times> kernel \<Rightarrow> int \<times> (k_condvar \<times> kernel)" where
  "k_condvar_broadcast c s =
     (let w = condvar_wait_q (fst s);
          (woken, k) = wake_loop (length (waitqs (snd s) (ObjQ w))) c w 0 (snd s)
      in (int woken, (fst s, z_reschedule c k)))"

text \<open>
  The caller of \<open>k_condvar_wait\<close> holds the spin lock, with interrupts masked, while it
  unlocks the mutex; \<open>z_pend_curr\<close> releases the lock with the caller's own mask.
\<close>

definition k_condvar_wait ::
  "cpu_id \<Rightarrow> k_timeout_t \<Rightarrow> k_condvar \<Rightarrow> k_mutex \<times> kernel \<Rightarrow> k_mutex \<times> kernel" where
  "k_condvar_wait c timeout condvar s =
     (let (mutex, k) = s;
          key = irq_masked (cpus k c);
          k = upd_cpu c (\<lambda>cp. cp\<lparr>irq_masked := True\<rparr>) k;
          (mutex, k) = snd (k_mutex_unlock c (mutex, k));
          k = upd_cpu c (\<lambda>cp. cp\<lparr>irq_masked := key\<rparr>) k
      in (mutex, z_pend_curr c (Some (ObjQ (condvar_wait_q condvar))) timeout k))"

definition k_condvar_wait_resume ::
  "cpu_id \<Rightarrow> k_mutex \<times> kernel \<Rightarrow> (int \<times> (lock_outcome \<times> (k_mutex \<times> kernel))) option" where
  "k_condvar_wait_resume c s =
     (let ret = swap_retval (threads (snd s) (current_thread c (snd s)))
      in map_option (\<lambda>r. (ret, r)) (k_mutex_lock c K_FOREVER s))"

section \<open>Signalling\<close>

definition condvar_ok :: "k_condvar \<Rightarrow> tid \<Rightarrow> tid list \<Rightarrow> bool" where
  "condvar_ok condvar idle ws \<longleftrightarrow> idle \<notin> set ws"

inductive condvar_step :: "k_condvar \<times> kernel \<Rightarrow> k_condvar \<times> kernel \<Rightarrow> bool" where
  signal: "condvar_step s (snd (k_condvar_signal 0 s))"
| broadcast: "condvar_step s (snd (k_condvar_broadcast 0 s))"

lemma k_condvar_signal_effect:
  assumes "sched_ok k"
  shows "sched_ok (snd (snd (k_condvar_signal 0 (cv, k))))"
    "idle0 (snd (snd (k_condvar_signal 0 (cv, k)))) = idle0 k"
    "waitqs (snd (snd (k_condvar_signal 0 (cv, k)))) =
      (waitqs k)(ObjQ (condvar_wait_q cv) := tl (waitqs k (ObjQ (condvar_wait_q cv))))"
proof -
  let ?q = "ObjQ (condvar_wait_q cv)" and ?r = "snd (snd (k_condvar_signal 0 (cv, k)))"
  have "sched_ok ?r \<and> idle0 ?r = idle0 k \<and> waitqs ?r = (waitqs k)(?q := tl (waitqs k ?q))"
  proof (cases "waitqs k ?q")
    case Nil
    then show ?thesis using assms by (auto simp: k_condvar_signal_def z_unpend_first_thread_cases)
  next
    case (Cons t ts)
    define k1 where "k1 = snd (z_unpend_first_thread ?q k)"
    have r: "?r = z_reschedule 0 (z_ready_thread 0 t (arch_thread_return_value_set t 0 k1))"
      using Cons by (simp add: k_condvar_signal_def z_unpend_first_thread_cases k1_def)
    note w = wake_first(1,2,5) [OF assms Cons k1_def, where v = 0]
    show ?thesis unfolding r using w sched_ok_reschedule [OF w(1)] sched_ok_smp [OF w(1)] Cons by simp
  qed
  then show "sched_ok ?r" "idle0 ?r = idle0 k" "waitqs ?r = (waitqs k)(?q := tl (waitqs k ?q))" by blast+
qed

lemma k_condvar_broadcast_effect:
  assumes "sched_ok k"
  shows "fst (k_condvar_broadcast 0 (cv, k)) = int (length (waitqs k (ObjQ (condvar_wait_q cv))))"
    "sched_ok (snd (snd (k_condvar_broadcast 0 (cv, k))))"
    "idle0 (snd (snd (k_condvar_broadcast 0 (cv, k)))) = idle0 k"
    "waitqs (snd (snd (k_condvar_broadcast 0 (cv, k)))) = (waitqs k)(ObjQ (condvar_wait_q cv) := [])"
  using wake_loop_ok [OF assms order_refl, of "condvar_wait_q cv" 0]
  by (simp_all add: k_condvar_broadcast_def Let_def split_beta sched_ok_reschedule)

lemma condvar_step_effect:
  assumes "condvar_step (cv, k) (cv', k')" "sched_ok k"
  shows "sched_ok k' \<and> idle0 k' = idle0 k \<and> cv' = cv \<and>
    set (waitqs k' (ObjQ (condvar_wait_q cv))) \<subseteq> set (waitqs k (ObjQ (condvar_wait_q cv))) \<and>
    (n \<noteq> condvar_wait_q cv \<longrightarrow> waitqs k' (ObjQ n) = waitqs k (ObjQ n))"
  using assms(1)
proof cases
  case signal
  have "set (tl xs) \<subseteq> set xs" for xs :: "tid list" by (cases xs) auto
  moreover have "cv' = cv" using signal by (auto simp: k_condvar_signal_def split_beta)
  moreover have "k' = snd (snd (k_condvar_signal 0 (cv, k)))" using signal by (metis snd_conv)
  ultimately show ?thesis using k_condvar_signal_effect [OF assms(2), of cv] by simp
next
  case broadcast
  have "cv' = cv" using broadcast by (auto simp: k_condvar_broadcast_def split_beta Let_def)
  moreover have "k' = snd (snd (k_condvar_broadcast 0 (cv, k)))" using broadcast by (metis snd_conv)
  ultimately show ?thesis using k_condvar_broadcast_effect [OF assms(2), of cv] by simp
qed

interpretation condvar: kernel_object condvar_step condvar_wait_q condvar_ok
proof unfold_locales
  show "condvar_ok ob i ws \<Longrightarrow> set ws' \<subseteq> set ws \<Longrightarrow> condvar_ok ob i ws'" for ob i ws ws'
    by (auto simp: condvar_ok_def)
qed (auto simp: condvar_ok_def dest: condvar_step_effect)

section \<open>Waiting\<close>

text \<open>With interrupts masked, unlocking the mutex does not switch to another thread.\<close>

lemma masked_no_switch:
  "irq_masked (cpus k c) \<Longrightarrow> \<not> CONFIG_SMP k \<Longrightarrow> z_reschedule c k = k"
  "irq_masked (cpus k c) \<Longrightarrow> \<not> CONFIG_SMP k \<Longrightarrow> z_reschedule_unlocked c k = k"
  by (simp_all add: z_reschedule_def z_reschedule_unlocked_def z_reschedule_irqlock_def resched_uniprocessor)

lemma masked_sched_unlock:
  assumes "irq_masked (cpus k 0)" "\<not> CONFIG_SMP k"
  shows "cur0 (k_sched_unlock 0 k) = cur0 k" "irq_masked (cpus (k_sched_unlock 0 k) 0)"
    "pended_on (threads (k_sched_unlock 0 k) u) = pended_on (threads k u)"
  using assms by (simp_all add: k_sched_unlock_def Let_def masked_no_switch current_thread_def)

lemma restored_frame:
  "irq_masked (cpus (restored c mutex t k) i) = irq_masked (cpus k i)"
  "pended_on (threads (restored c mutex t k) u) = pended_on (threads k u)"
  "CONFIG_SMP (restored c mutex t k) = CONFIG_SMP k"
  "current_thread c (restored c mutex t k) = current_thread c k"
  by (auto simp: restored_def z_sched_lock_def z_set_prio_def Let_def current_thread_def)

lemma wake_frame:
  assumes "\<not> CONFIG_SMP k" "waitqs k w = t # ts" "k1 = snd (z_unpend_first_thread w k)"
  shows "irq_masked (cpus (z_ready_thread 0 t (arch_thread_return_value_set t v k1)) i) = irq_masked (cpus k i)"
    "CONFIG_SMP (z_ready_thread 0 t (arch_thread_return_value_set t v k1)) = CONFIG_SMP k"
    "cur0 (z_ready_thread 0 t (arch_thread_return_value_set t v k1)) = cur0 k"
    "pended_on (threads (z_ready_thread 0 t (arch_thread_return_value_set t v k1)) u) =
      (if u = t then None else pended_on (threads k u))"
  using assms
  by (simp_all add: z_unpend_first_thread_cases arch_thread_return_value_set_def z_ready_thread_uniprocessor
      ready_thread_threads current_thread_def)

lemma masked_mutex_unlock:
  assumes "sched_ok k" "irq_masked (cpus k 0)" "k_mutex_unlock 0 (mutex, k) = (r, (mutex', k'))"
  shows "cur0 k' = cur0 k" "r \<noteq> Blocked"
    "pended_on (threads k u) = None \<Longrightarrow> pended_on (threads k' u) = None"
proof -
  let ?q = "ObjQ (mutex_wait_q mutex)" and ?re = "restored 0 mutex (cur0 k) k"
  have smp: "\<not> CONFIG_SMP k" using assms(1) by simp
  have "cur0 k' = cur0 k \<and> r \<noteq> Blocked \<and>
    (pended_on (threads k u) = None \<longrightarrow> pended_on (threads k' u) = None)"
  proof (cases "mutex_owner mutex = Some (cur0 k)")
    case False
    then show ?thesis using assms(3) k_mutex_unlock_errors by (cases "mutex_owner mutex") auto
  next
    case own: True
    show ?thesis
    proof (cases "1 < lock_count mutex")
      case True
      then show ?thesis
        using k_mutex_unlock_recursive [OF own True] assms(3) masked_sched_unlock [of "z_sched_lock 0 k"] smp assms(2)
        by (auto simp: z_sched_lock_def current_thread_def)
    next
      case False
      note f = restored_frame [of 0 mutex "cur0 k" k]
      show ?thesis
      proof (cases "waitqs ?re ?q")
        case Nil
        then show ?thesis
          using k_mutex_unlock_free [OF own False Nil] assms(2,3) f smp masked_sched_unlock [of ?re] by auto
      next
        case (Cons t ts)
        define k1 where "k1 = snd (z_unpend_first_thread ?q ?re)"
        define k2 where "k2 = z_ready_thread 0 t (arch_thread_return_value_set t 0 k1)"
        have smp': "\<not> CONFIG_SMP ?re" using f smp by simp
        note w = wake_frame [OF smp' Cons k1_def, where v = 0, folded k2_def]
        have r: "z_reschedule 0 k2 = k2" using masked_no_switch(1) [of k2 0] w f assms(2) smp by simp
        show ?thesis
          using k_mutex_unlock_pass [OF own False Cons k1_def refl] assms(2,3) w f smp r
            masked_sched_unlock [of k2] by (simp add: k2_def [symmetric])
      qed
    qed
  qed
  then show "cur0 k' = cur0 k" "r \<noteq> Blocked"
    "pended_on (threads k u) = None \<Longrightarrow> pended_on (threads k' u) = None" by blast+
qed

lemma k_condvar_wait_effect:
  assumes "sched_ok k" "running k" "sched_locked (threads k (cur0 k)) \<noteq> 1"
    and "mutex_ok mutex (idle0 k) (waitqs k (ObjQ (mutex_wait_q mutex)))"
    and "condvar_wait_q cv \<noteq> mutex_wait_q mutex" "k_condvar_wait 0 d cv (mutex, k) = (mutex', k')"
  shows "sched_ok k'" "idle0 k' = idle0 k" "mutex_wait_q mutex' = mutex_wait_q mutex"
    and "mutex_ok mutex' (idle0 k) (waitqs k' (ObjQ (mutex_wait_q mutex)))"
    and "set (waitqs k' (ObjQ (condvar_wait_q cv))) = insert (cur0 k) (set (waitqs k (ObjQ (condvar_wait_q cv))))"
    and "cur0 k' \<noteq> cur0 k"
    and "\<exists>r k1. k_mutex_unlock 0 (mutex, irq_mask True k) = (r, (mutex', k1))"
    and "n \<noteq> mutex_wait_q mutex \<Longrightarrow> n \<noteq> condvar_wait_q cv \<Longrightarrow> waitqs k' (ObjQ n) = waitqs k (ObjQ n)"
proof -
  let ?k = "irq_mask True k"
  obtain r k1 where u: "k_mutex_unlock 0 (mutex, ?k) = (r, (mutex', k1))"
    and k': "k' = z_pend_curr 0 (Some (ObjQ (condvar_wait_q cv))) d (irq_mask (irq_masked (cpus k 0)) k1)"
    using assms(6) by (auto simp: k_condvar_wait_def irq_mask_def Let_def split_beta prod_eq_iff)
  have ok: "sched_ok ?k" using assms(1) by (rule sched_ok_irq_mask)
  have f: "cur0 ?k = cur0 k" "idle0 ?k = idle0 k" "waitqs ?k = waitqs k" "threads ?k = threads k"
    by (simp_all add: irq_mask_def current_thread_def)
  have e: "sched_ok k1 \<and> idle0 k1 = idle0 k \<and> mutex_wait_q mutex' = mutex_wait_q mutex \<and>
    mutex_ok mutex' (idle0 k) (waitqs k1 (ObjQ (mutex_wait_q mutex))) \<and>
    (n \<noteq> mutex_wait_q mutex \<longrightarrow> waitqs k1 (ObjQ n) = waitqs k (ObjQ n))" for n
    using k_mutex_unlock_effect [OF ok _ _ u] assms(3,4) f by simp
  have m: "cur0 k1 = cur0 k" "pended_on (threads k1 (cur0 k)) = None"
    using masked_mutex_unlock [OF ok _ u] running_not_pended [OF assms(1,2)] f by (simp_all add: irq_mask_def)
  define k2 where "k2 = irq_mask (irq_masked (cpus k 0)) k1"
  have k2: "sched_ok k2" "cur0 k2 = cur0 k" "idle0 k2 = idle0 k" "waitqs k2 = waitqs k1" "threads k2 = threads k1"
    using e sched_ok_irq_mask m by (simp_all add: k2_def irq_mask_def current_thread_def)
  have "cur0 k2 \<noteq> idle0 k2" "pended_on (threads k2 (cur0 k2)) = None"
    using k2 m(2) assms(2) by (simp_all add: running_def)
  note p = sched_ok_z_pend_curr [OF k2(1) this, of "ObjQ (condvar_wait_q cv)" d]
  show "sched_ok k'" "cur0 k' \<noteq> cur0 k" using p k2 by (simp_all add: k' k2_def [symmetric])
  show "idle0 k' = idle0 k" using k2 by (simp add: k' k2_def [symmetric])
  show "mutex_wait_q mutex' = mutex_wait_q mutex" using e by simp
  show "mutex_ok mutex' (idle0 k) (waitqs k' (ObjQ (mutex_wait_q mutex)))"
    "set (waitqs k' (ObjQ (condvar_wait_q cv))) = insert (cur0 k) (set (waitqs k (ObjQ (condvar_wait_q cv))))"
    using e [of "condvar_wait_q cv"] assms(5) k2 waitqs_z_pend_curr [OF k2(1)]
    by (simp_all add: k' k2_def [symmetric])
  show "\<exists>r k1. k_mutex_unlock 0 (mutex, irq_mask True k) = (r, (mutex', k1))" using u by blast
  show "waitqs k' (ObjQ n) = waitqs k (ObjQ n)" if "n \<noteq> mutex_wait_q mutex" "n \<noteq> condvar_wait_q cv"
    using that e [of n] k2 waitqs_z_pend_curr [OF k2(1)] by (simp add: k' k2_def [symmetric])
qed

section \<open>Properties\<close>

text \<open>
  C19: Waiting on a condition variable releases the mutex and queues the caller as one step:
  no other thread runs in between, afterwards the caller waits for the condition variable
  and another thread runs, and the invariants of mutex and scheduler hold.
\<close>

theorem condvar_wait_atomic:
  assumes "sched_ok k" "running k" "sched_locked (threads k (cur0 k)) \<noteq> 1"
    and "mutex_ok mutex (idle0 k) (waitqs k (ObjQ (mutex_wait_q mutex)))"
    and "condvar_wait_q cv \<noteq> mutex_wait_q mutex" "k_condvar_wait 0 d cv (mutex, k) = (mutex', k')"
  shows "sched_ok k' \<and> mutex_ok mutex' (idle0 k') (waitqs k' (ObjQ (mutex_wait_q mutex'))) \<and>
    set (waitqs k' (ObjQ (condvar_wait_q cv))) = insert (cur0 k) (set (waitqs k (ObjQ (condvar_wait_q cv)))) \<and>
    cur0 k' \<noteq> cur0 k \<and>
    (\<exists>ret k1. k_mutex_unlock 0 (mutex, irq_mask True k) = (ret, (mutex', k1)) \<and> ret \<noteq> Blocked \<and> cur0 k1 = cur0 k)"
proof -
  note w = k_condvar_wait_effect [OF assms]
  obtain ret k1 where u: "k_mutex_unlock 0 (mutex, irq_mask True k) = (ret, (mutex', k1))" using w(7) by blast
  have "sched_ok (irq_mask True k)" "irq_masked (cpus (irq_mask True k) 0)" "cur0 (irq_mask True k) = cur0 k"
    using assms(1) sched_ok_irq_mask by (auto simp: irq_mask_def upd_cpu_def current_thread_def)
  then have "ret \<noteq> Blocked \<and> cur0 k1 = cur0 k" using masked_mutex_unlock(1,2) [OF _ _ u] by simp
  then show ?thesis using w u by auto
qed

definition sample_held_mutex :: k_mutex where
  "sample_held_mutex = \<lparr>mutex_wait_q = 9, mutex_owner = Some 7, lock_count = 1, owner_orig_prio = 5\<rparr>"

theorem condvar_wait_atomic_witness:
  "set (waitqs (snd (k_condvar_wait 0 (- 1) \<lparr>condvar_wait_q = 8\<rparr> (sample_held_mutex, sample_kernel 8))) (ObjQ 8)) =
     {7, 2, 3}"
proof -
  obtain mutex' k' where w: "k_condvar_wait 0 (- 1) \<lparr>condvar_wait_q = 8\<rparr> (sample_held_mutex, sample_kernel 8) = (mutex', k')"
    by fastforce
  have "set (waitqs k' (ObjQ 8)) = {7, 2, 3}"
    using condvar_wait_atomic [OF sample_kernel_ok sample_kernel_running _ _ _ w] sample_sched_unlocked
    by (simp add: sample_held_mutex_def mutex_ok_def)
  then show ?thesis by (simp add: w)
qed



end
