(* ===== verification/Stack.thy ===== *)
theory Stack
  imports Sample_State
begin

text \<open>
  LIFO stacks of machine words, \<^verbatim>\<open>kernel/stack.c\<close>. The buffer is part of a word memory
  indexed by element, \<open>base\<close>, \<open>next\<close> and \<open>top\<close> are element addresses. The stack refines a
  list: pushing prepends, popping takes the head.
\<close>

section \<open>Definitions\<close>

record k_stack =
  stack_wait_q :: nat
  stack_base :: nat
  stack_next :: nat
  stack_top :: nat
  stack_flags :: u8
  stack_mem :: "nat \<Rightarrow> ptr"
    \<comment> \<open>the memory the three pointers point into\<close>

abbreviation (input) K_STACK_FLAG_ALLOC :: u8 where "K_STACK_FLAG_ALLOC \<equiv> 1"

definition k_stack_init :: "nat \<Rightarrow> u32 \<Rightarrow> k_stack \<times> kernel \<Rightarrow> k_stack \<times> kernel" where
  "k_stack_init buffer num_entries s =
     ((fst s)\<lparr>stack_next := buffer, stack_base := buffer, stack_top := buffer + unat num_entries\<rparr>,
      (snd s)\<lparr>waitqs := (waitqs (snd s))(ObjQ (stack_wait_q (fst s)) := [])\<rparr>)"

text \<open>\<open>buffer\<close> is what \<^verbatim>\<open>z_thread_malloc\<close> returned.\<close>

definition k_stack_alloc_init :: "nat option \<Rightarrow> u32 \<Rightarrow> k_stack \<times> kernel \<Rightarrow> int \<times> (k_stack \<times> kernel)" where
  "k_stack_alloc_init buffer num_entries s =
     (case buffer of
        Some b \<Rightarrow>
          (0, apfst (\<lambda>st. st\<lparr>stack_flags := K_STACK_FLAG_ALLOC\<rparr>) (k_stack_init b num_entries s))
      | None \<Rightarrow> (- ENOMEM, s))"

text \<open>The second component of the result is the buffer handed to \<^verbatim>\<open>k_free\<close>.\<close>

definition k_stack_cleanup :: "k_stack \<times> kernel \<Rightarrow> int \<times> nat option \<times> k_stack" where
  "k_stack_cleanup s =
     (let (stack, k) = s
      in if z_waitq_head (ObjQ (stack_wait_q stack)) k \<noteq> None then (- EAGAIN, None, stack)
         else if stack_flags stack AND K_STACK_FLAG_ALLOC \<noteq> 0 then
           (0, Some (stack_base stack),
            stack\<lparr>stack_base := 0, stack_flags := stack_flags stack AND NOT K_STACK_FLAG_ALLOC\<rparr>)
         else (0, None, stack))"

definition k_stack_push :: "cpu_id \<Rightarrow> ptr \<Rightarrow> k_stack \<times> kernel \<Rightarrow> int \<times> (k_stack \<times> kernel)" where
  "k_stack_push c data s =
     (let (stack, k) = s
      in if stack_next stack = stack_top stack then (- ENOMEM, (stack, k))
         else
           let (first_pending_thread, k) = z_unpend_first_thread (ObjQ (stack_wait_q stack)) k
           in case first_pending_thread of
                Some t \<Rightarrow>
                  (0, (stack, z_reschedule c (z_ready_thread c t (z_thread_return_value_set_with_data t 0 data k))))
              | None \<Rightarrow>
                  (0, (stack\<lparr>stack_mem := (stack_mem stack)(stack_next stack := data),
                             stack_next := stack_next stack + 1\<rparr>, k)))"

definition k_stack_pop ::
  "cpu_id \<Rightarrow> k_timeout_t \<Rightarrow> k_stack \<times> kernel \<Rightarrow> (int \<times> ptr option) outcome \<times> (k_stack \<times> kernel)" where
  "k_stack_pop c timeout s =
     (let (stack, k) = s
      in if stack_next stack > stack_base stack then
           let stack = stack\<lparr>stack_next := stack_next stack - 1\<rparr>
           in (Returned (0, Some (stack_mem stack (stack_next stack))), (stack, k))
         else if timeout = K_NO_WAIT then (Returned (- EBUSY, None), (stack, k))
         else (Blocked, (stack, z_pend_curr c (Some (ObjQ (stack_wait_q stack))) timeout k)))"

definition k_stack_pop_resume :: "cpu_id \<Rightarrow> kernel \<Rightarrow> int \<times> ptr option" where
  "k_stack_pop_resume c k =
     (let th = threads k (current_thread c k)
      in if swap_retval th = - EAGAIN then (- EAGAIN, None) else (0, Some (swap_data th)))"

section \<open>The stack as a list\<close>

definition stack_list :: "k_stack \<Rightarrow> ptr list" where
  "stack_list st = map (stack_mem st) (rev [stack_base st..<stack_next st])"

definition stack_ok :: "k_stack \<Rightarrow> tid \<Rightarrow> tid list \<Rightarrow> bool" where
  "stack_ok st idle ws \<longleftrightarrow>
     stack_base st \<le> stack_next st \<and> stack_next st \<le> stack_top st \<and>
     (stack_base st < stack_next st \<longrightarrow> ws = [])"

lemma length_stack_list [simp]: "length (stack_list st) = stack_next st - stack_base st"
  by (simp add: stack_list_def)

lemma stack_list_push:
  "stack_base st \<le> stack_next st \<Longrightarrow>
   stack_list (st\<lparr>stack_mem := (stack_mem st)(stack_next st := d), stack_next := stack_next st + 1\<rparr>) =
     d # stack_list st"
  by (simp add: stack_list_def)

lemma stack_list_pop:
  "stack_base st < stack_next st \<Longrightarrow>
   stack_list st = stack_mem st (stack_next st - 1) # stack_list (st\<lparr>stack_next := stack_next st - 1\<rparr>)"
  by (cases "stack_next st") (simp_all add: stack_list_def)

lemma stack_list_full: "stack_ok st i ws \<Longrightarrow>
  stack_next st = stack_top st \<longleftrightarrow> length (stack_list st) = stack_top st - stack_base st"
  by (auto simp: stack_ok_def)

lemma k_stack_push_effect:
  assumes "sched_ok k" "stack_ok st (idle0 k) (waitqs k (ObjQ (stack_wait_q st)))"
    and "k_stack_push 0 d (st, k) = (r, (st', k'))"
  shows "sched_ok k' \<and> idle0 k' = idle0 k \<and> stack_wait_q st' = stack_wait_q st \<and>
      stack_ok st' (idle0 k) (waitqs k' (ObjQ (stack_wait_q st))) \<and>
      (n \<noteq> stack_wait_q st \<longrightarrow> waitqs k' (ObjQ n) = waitqs k (ObjQ n))"
    and "length (stack_list st) = stack_top st - stack_base st \<Longrightarrow>
      r = - ENOMEM \<and> st' = st \<and> k' = k"
    and "length (stack_list st) < stack_top st - stack_base st \<Longrightarrow> waitqs k (ObjQ (stack_wait_q st)) = [] \<Longrightarrow>
      r = 0 \<and> stack_list st' = d # stack_list st \<and> k' = k"
    and "length (stack_list st) < stack_top st - stack_base st \<Longrightarrow>
      waitqs k (ObjQ (stack_wait_q st)) = t # ts \<Longrightarrow>
      r = 0 \<and> stack_list st = [] \<and> st' = st \<and> waitqs k' (ObjQ (stack_wait_q st)) = ts"
proof -
  let ?q = "ObjQ (stack_wait_q st)"
  show full: "r = - ENOMEM \<and> st' = st \<and> k' = k" if "length (stack_list st) = stack_top st - stack_base st"
    using that assms(2,3) stack_list_full [OF assms(2)] by (simp add: k_stack_push_def)
  have room: "stack_next st \<noteq> stack_top st" if "length (stack_list st) < stack_top st - stack_base st"
    using that by auto
  show store: "r = 0 \<and> stack_list st' = d # stack_list st \<and> k' = k"
    if "length (stack_list st) < stack_top st - stack_base st" "waitqs k ?q = []"
    using room [OF that(1)] that assms(2,3) stack_list_push [of st d]
    by (auto simp: k_stack_push_def z_unpend_first_thread_cases stack_ok_def)
  have hand: "r = 0 \<and> st' = st \<and> sched_ok k' \<and> idle0 k' = idle0 k \<and> waitqs k' = (waitqs k)(?q := ts)"
    if "stack_next st \<noteq> stack_top st" "waitqs k ?q = t # ts" for t ts
  proof -
    define k1 where "k1 = snd (z_unpend_first_thread ?q k)"
    have e: "k_stack_push 0 d (st, k) =
        (0, (st, z_reschedule 0 (z_ready_thread 0 t (z_thread_return_value_set_with_data t 0 d k1))))"
      using that by (simp add: k_stack_push_def z_unpend_first_thread_cases k1_def)
    note w = wake_first(3,4,6) [OF assms(1) that(2) k1_def, where v = 0 and d = d]
    show ?thesis using assms(3) w sched_ok_reschedule [OF w(1)] sched_ok_smp [OF w(1)] by (auto simp: e)
  qed
  show "r = 0 \<and> stack_list st = [] \<and> st' = st \<and> waitqs k' ?q = ts"
    if "length (stack_list st) < stack_top st - stack_base st" "waitqs k ?q = t # ts"
    using hand [OF room [OF that(1)] that(2)] assms(2) that(2) by (auto simp: stack_ok_def stack_list_def)
  show "sched_ok k' \<and> idle0 k' = idle0 k \<and> stack_wait_q st' = stack_wait_q st \<and>
      stack_ok st' (idle0 k) (waitqs k' ?q) \<and> (n \<noteq> stack_wait_q st \<longrightarrow> waitqs k' (ObjQ n) = waitqs k (ObjQ n))"
  proof (cases "stack_next st = stack_top st")
    case True
    then show ?thesis using assms by (auto simp: k_stack_push_def)
  next
    case False
    show ?thesis
    proof (cases "waitqs k ?q")
      case Nil
      then show ?thesis using assms False
        by (auto simp: k_stack_push_def z_unpend_first_thread_cases stack_ok_def)
    next
      case (Cons t ts)
      then show ?thesis using hand [OF False Cons] assms(2) by (auto simp: stack_ok_def)
    qed
  qed
qed

lemma k_stack_pop_effect:
  assumes "sched_ok k" "running k \<or> d = K_NO_WAIT" "stack_ok st (idle0 k) (waitqs k (ObjQ (stack_wait_q st)))"
    and "k_stack_pop 0 d (st, k) = (r, (st', k'))"
  shows "sched_ok k' \<and> idle0 k' = idle0 k \<and> stack_wait_q st' = stack_wait_q st \<and>
      stack_ok st' (idle0 k) (waitqs k' (ObjQ (stack_wait_q st))) \<and>
      (n \<noteq> stack_wait_q st \<longrightarrow> waitqs k' (ObjQ n) = waitqs k (ObjQ n))"
    and "stack_list st = x # xs \<Longrightarrow> r = Returned (0, Some x) \<and> stack_list st' = xs \<and> k' = k"
    and "stack_list st = [] \<Longrightarrow>
      st' = st \<and> (if d = K_NO_WAIT then r = Returned (- EBUSY, None) \<and> k' = k else r = Blocked)"
proof -
  have ne: "stack_list st = x # xs \<Longrightarrow> stack_base st < stack_next st" for x xs
    using length_stack_list [of st] by (metis length_Cons zero_less_Suc zero_less_diff)
  show "sched_ok k' \<and> idle0 k' = idle0 k \<and> stack_wait_q st' = stack_wait_q st \<and>
      stack_ok st' (idle0 k) (waitqs k' (ObjQ (stack_wait_q st))) \<and>
      (n \<noteq> stack_wait_q st \<longrightarrow> waitqs k' (ObjQ n) = waitqs k (ObjQ n))"
    using assms by (auto simp: k_stack_pop_def stack_ok_def sched_ok_block waitqs_z_pend_curr split: if_splits)
  show "stack_list st = x # xs \<Longrightarrow> r = Returned (0, Some x) \<and> stack_list st' = xs \<and> k' = k"
    using ne stack_list_pop [of st] assms(4) by (auto simp: k_stack_pop_def Let_def)
  show "stack_list st = [] \<Longrightarrow>
      st' = st \<and> (if d = K_NO_WAIT then r = Returned (- EBUSY, None) \<and> k' = k else r = Blocked)"
    using assms(4) by (auto simp: k_stack_pop_def stack_list_def split: if_splits)
qed

section \<open>The contract\<close>

inductive stack_step :: "k_stack \<times> kernel \<Rightarrow> k_stack \<times> kernel \<Rightarrow> bool" where
  push: "k_stack_push 0 d s = (r, s') \<Longrightarrow> stack_step s s'"
| pop: "running (snd s) \<or> tm = K_NO_WAIT \<Longrightarrow> k_stack_pop 0 tm s = (res, s') \<Longrightarrow> stack_step s s'"

lemma stack_step_effect:
  assumes "stack_step (st, k) (st', k')" "sched_ok k" "stack_ok st (idle0 k) (waitqs k (ObjQ (stack_wait_q st)))"
  shows "sched_ok k' \<and> idle0 k' = idle0 k \<and> stack_wait_q st' = stack_wait_q st \<and>
    stack_ok st' (idle0 k) (waitqs k' (ObjQ (stack_wait_q st))) \<and>
    (n \<noteq> stack_wait_q st \<longrightarrow> waitqs k' (ObjQ n) = waitqs k (ObjQ n))"
  using assms(1)
proof cases
  case (push d r)
  show ?thesis using k_stack_push_effect(1) [OF assms(2,3) push] .
next
  case (pop tm res)
  show ?thesis by (rule k_stack_pop_effect(1) [OF assms(2) _ assms(3) pop(2)]) (use pop in simp)
qed

interpretation stack: kernel_object stack_step stack_wait_q stack_ok
proof unfold_locales
  show "stack_ok ob i ws \<Longrightarrow> set ws' \<subseteq> set ws \<Longrightarrow> stack_ok ob i ws'" for ob i ws ws'
    by (auto simp: stack_ok_def)
qed (auto dest: stack_step_effect)

section \<open>Properties\<close>

text \<open>
  C21: The stack is last in, first out: with room and no waiter a push returns 0 and puts
  the word on top, and a pop right after it returns exactly that word and restores the
  stack; a push on a full stack returns -ENOMEM and changes nothing.
\<close>

theorem stack_push_pop:
  assumes "sched_ok k" "stack_ok st (idle0 k) (waitqs k (ObjQ (stack_wait_q st)))"
    "k_stack_push 0 d (st, k) = (r, (st', k'))"
  shows "(length (stack_list st) = stack_top st - stack_base st \<longrightarrow> r = - ENOMEM \<and> st' = st \<and> k' = k) \<and>
    (length (stack_list st) < stack_top st - stack_base st \<and> waitqs k (ObjQ (stack_wait_q st)) = [] \<longrightarrow>
      r = 0 \<and> stack_list st' = d # stack_list st \<and>
      (\<exists>st''. k_stack_pop 0 K_NO_WAIT (st', k') = (Returned (0, Some d), (st'', k')) \<and>
        stack_list st'' = stack_list st))"
proof -
  note p = k_stack_push_effect [OF assms]
  have "\<exists>st''. k_stack_pop 0 K_NO_WAIT (st', k') = (Returned (0, Some d), (st'', k')) \<and> stack_list st'' = stack_list st"
    if "stack_list st' = d # stack_list st"
  proof -
    obtain ret st'' k'' where e: "k_stack_pop 0 K_NO_WAIT (st', k') = (ret, (st'', k''))" by (metis prod.exhaust)
    have ok: "sched_ok k'" "stack_ok st' (idle0 k') (waitqs k' (ObjQ (stack_wait_q st')))" using p(1) by auto
    show ?thesis using k_stack_pop_effect(2) [OF ok(1) disjI2 [OF refl] ok(2) e that] e by auto
  qed
  then show ?thesis using p(2,3) by auto
qed

definition sample_stack :: k_stack where
  "sample_stack = \<lparr>stack_wait_q = 9, stack_base = 100, stack_next = 101, stack_top = 104, stack_flags = 0,
     stack_mem = (\<lambda>_. 6)\<rparr>"

theorem stack_push_pop_witness:
  "stack_list (fst (snd (k_stack_push 0 42 (sample_stack, sample_kernel 8)))) = [42, 6]"
proof -
  obtain r st' k' where p: "k_stack_push 0 42 (sample_stack, sample_kernel 8) = (r, (st', k'))" by (metis prod.exhaust)
  have "stack_list st' = [42, 6]"
    using stack_push_pop [OF sample_kernel_ok _ p]
    by (simp add: stack_ok_def sample_stack_def stack_list_def)
  then show ?thesis by (simp add: p)
qed

end
