(* ===== verification/Msgq.thy ===== *)
theory Msgq
  imports Sample_State
begin

text \<open>
  Message queues, \<^verbatim>\<open>kernel/msg_q.c\<close>: a ring buffer of fixed-size messages in byte memory,
  with read and write pointers that wrap at the end of the buffer. The ring buffer refines
  a bounded FIFO list of messages. Readers and writers wait in one queue; the invariant
  shows that the waiters of an empty queue are readers and those of a full one writers, so
  that a message is copied in the right direction.
\<close>

section \<open>Memory\<close>

type_synonym mem = "nat \<Rightarrow> u8"

definition memcpy :: "nat \<Rightarrow> nat \<Rightarrow> nat \<Rightarrow> mem \<Rightarrow> mem" where
  "memcpy dst src n m = (\<lambda>a. if dst \<le> a \<and> a < dst + n then m (src + (a - dst)) else m a)"

definition bytes :: "mem \<Rightarrow> nat \<Rightarrow> nat \<Rightarrow> u8 list" where
  "bytes m a n = map m [a..<a + n]"

lemma bytes_memcpy_same: "bytes (memcpy dst src n m) dst n = bytes m src n"
  unfolding bytes_def memcpy_def by (rule nth_equalityI) simp_all

lemma bytes_memcpy_other:
  "a + k \<le> dst \<or> dst + n \<le> a \<Longrightarrow> bytes (memcpy dst src n m) a k = bytes m a k"
  by (auto simp: bytes_def memcpy_def)

section \<open>Definitions\<close>

record k_msgq =
  msgq_wait_q :: nat
  msg_size :: nat
  max_msgs :: u32
  buffer_start :: nat
  buffer_end :: nat
  read_ptr :: nat
  write_ptr :: nat
  used_msgs :: u32
  msgq_flags :: u8

abbreviation (input) K_MSGQ_FLAG_ALLOC :: u8 where "K_MSGQ_FLAG_ALLOC \<equiv> 1"

definition k_msgq_init :: "nat \<Rightarrow> nat \<Rightarrow> u32 \<Rightarrow> k_msgq \<times> kernel \<Rightarrow> k_msgq \<times> kernel" where
  "k_msgq_init buffer sz n s =
     ((fst s)\<lparr>msg_size := sz, max_msgs := n, buffer_start := buffer,
              buffer_end := buffer + unat n * sz, read_ptr := buffer, write_ptr := buffer,
              used_msgs := 0, msgq_flags := 0\<rparr>,
      (snd s)\<lparr>waitqs := (waitqs (snd s))(ObjQ (msgq_wait_q (fst s)) := [])\<rparr>)"

text \<open>\<open>malloc\<close> is \<^verbatim>\<open>z_thread_malloc\<close>, \<open>size_t\<close> has 64 bits.\<close>

definition k_msgq_alloc_init ::
  "(nat \<Rightarrow> nat option) \<Rightarrow> nat \<Rightarrow> u32 \<Rightarrow> k_msgq \<times> kernel \<Rightarrow> int \<times> (k_msgq \<times> kernel)" where
  "k_msgq_alloc_init malloc sz n s =
     (if sz * unat n \<ge> 2 ^ 64 then (- EINVAL, s)
      else
        case malloc (sz * unat n) of
          Some buffer \<Rightarrow>
            (0, apfst (\<lambda>q. q\<lparr>msgq_flags := K_MSGQ_FLAG_ALLOC\<rparr>) (k_msgq_init buffer sz n s))
        | None \<Rightarrow> (- ENOMEM, s))"

text \<open>The second component of the result is the buffer handed to \<^verbatim>\<open>k_free\<close>.\<close>

definition k_msgq_cleanup :: "k_msgq \<times> kernel \<Rightarrow> int \<times> nat option \<times> k_msgq" where
  "k_msgq_cleanup s =
     (let (msgq, k) = s
      in if z_waitq_head (ObjQ (msgq_wait_q msgq)) k \<noteq> None then (- EBUSY, None, msgq)
         else if msgq_flags msgq AND K_MSGQ_FLAG_ALLOC \<noteq> 0 then
           (0, Some (buffer_start msgq), msgq\<lparr>msgq_flags := msgq_flags msgq AND NOT K_MSGQ_FLAG_ALLOC\<rparr>)
         else (0, None, msgq))"

text \<open>Copying one message to the write pointer and one from the read pointer.\<close>

definition msgq_store :: "nat \<Rightarrow> k_msgq \<times> mem \<Rightarrow> k_msgq \<times> mem" where
  "msgq_store data s =
     (let (q, m) = s;
          m = memcpy (write_ptr q) data (msg_size q) m;
          q = q\<lparr>write_ptr := write_ptr q + msg_size q\<rparr>;
          q = (if write_ptr q = buffer_end q then q\<lparr>write_ptr := buffer_start q\<rparr> else q)
      in (q\<lparr>used_msgs := used_msgs q + 1\<rparr>, m))"

definition msgq_fetch :: "nat \<Rightarrow> k_msgq \<times> mem \<Rightarrow> k_msgq \<times> mem" where
  "msgq_fetch data s =
     (let (q, m) = s;
          m = memcpy data (read_ptr q) (msg_size q) m;
          q = q\<lparr>read_ptr := read_ptr q + msg_size q\<rparr>;
          q = (if read_ptr q = buffer_end q then q\<lparr>read_ptr := buffer_start q\<rparr> else q)
      in (q\<lparr>used_msgs := used_msgs q - 1\<rparr>, m))"

definition k_msgq_put ::
  "cpu_id \<Rightarrow> ptr \<Rightarrow> k_timeout_t \<Rightarrow> (k_msgq \<times> mem) \<times> kernel \<Rightarrow> int outcome \<times> ((k_msgq \<times> mem) \<times> kernel)" where
  "k_msgq_put c data timeout s =
     (let ((msgq, m), k) = s; w = ObjQ (msgq_wait_q msgq)
      in if used_msgs msgq < max_msgs msgq then
           let (pending_thread, k) = z_unpend_first_thread w k
           in case pending_thread of
                Some t \<Rightarrow>
                  let m = memcpy (unat (swap_data (threads k t))) (unat data) (msg_size msgq) m;
                      k = z_ready_thread c t (arch_thread_return_value_set t 0 k)
                  in (Returned 0, ((msgq, m), z_reschedule c k))
              | None \<Rightarrow> (Returned 0, (msgq_store (unat data) (msgq, m), k))
         else if timeout = K_NO_WAIT then (Returned (- ENOMSG), s)
         else
           let k = upd_thread (current_thread c k) (\<lambda>th. th\<lparr>swap_data := data\<rparr>) k
           in (Blocked, ((msgq, m), z_pend_curr c (Some w) timeout k)))"

definition k_msgq_get ::
  "cpu_id \<Rightarrow> ptr \<Rightarrow> k_timeout_t \<Rightarrow> (k_msgq \<times> mem) \<times> kernel \<Rightarrow> int outcome \<times> ((k_msgq \<times> mem) \<times> kernel)" where
  "k_msgq_get c data timeout s =
     (let ((msgq, m), k) = s; w = ObjQ (msgq_wait_q msgq)
      in if used_msgs msgq > 0 then
           let qm = msgq_fetch (unat data) (msgq, m);
               (pending_thread, k) = z_unpend_first_thread w k
           in case pending_thread of
                Some t \<Rightarrow>
                  let qm = msgq_store (unat (swap_data (threads k t))) qm;
                      k = z_ready_thread c t (arch_thread_return_value_set t 0 k)
                  in (Returned 0, (qm, z_reschedule c k))
              | None \<Rightarrow> (Returned 0, (qm, k))
         else if timeout = K_NO_WAIT then (Returned (- ENOMSG), s)
         else
           let k = upd_thread (current_thread c k) (\<lambda>th. th\<lparr>swap_data := data\<rparr>) k
           in (Blocked, ((msgq, m), z_pend_curr c (Some w) timeout k)))"

definition k_msgq_wait_resume :: "cpu_id \<Rightarrow> kernel \<Rightarrow> int" where
  "k_msgq_wait_resume c k = swap_retval (threads k (current_thread c k))"

definition k_msgq_peek :: "nat \<Rightarrow> k_msgq \<times> mem \<Rightarrow> int \<times> mem" where
  "k_msgq_peek data s =
     (let (msgq, m) = s
      in if used_msgs msgq > 0 then (0, memcpy data (read_ptr msgq) (msg_size msgq) m) else (- ENOMSG, m))"

definition k_msgq_purge :: "cpu_id \<Rightarrow> (k_msgq \<times> mem) \<times> kernel \<Rightarrow> (k_msgq \<times> mem) \<times> kernel" where
  "k_msgq_purge c s =
     (let ((msgq, m), k) = s; w = msgq_wait_q msgq;
          k = snd (wake_loop (length (waitqs k (ObjQ w))) c w (- ENOMSG) k);
          msgq = msgq\<lparr>used_msgs := 0, read_ptr := write_ptr msgq\<rparr>
      in ((msgq, m), z_reschedule c k))"

definition k_msgq_num_free_get :: "k_msgq \<Rightarrow> u32" where
  "k_msgq_num_free_get msgq = max_msgs msgq - used_msgs msgq"

definition k_msgq_num_used_get :: "k_msgq \<Rightarrow> u32" where
  "k_msgq_num_used_get msgq = used_msgs msgq"

definition k_msgq_get_attrs :: "k_msgq \<Rightarrow> nat \<times> u32 \<times> u32" where
  "k_msgq_get_attrs msgq = (msg_size msgq, max_msgs msgq, used_msgs msgq)"

section \<open>The ring buffer is a FIFO\<close>

definition rd_slot :: "k_msgq \<Rightarrow> nat" where "rd_slot q = (read_ptr q - buffer_start q) div msg_size q"

definition slot :: "k_msgq \<Rightarrow> nat \<Rightarrow> nat" where
  "slot q i = buffer_start q + (i mod unat (max_msgs q)) * msg_size q"

definition msgq_wf :: "k_msgq \<Rightarrow> bool" where
  "msgq_wf q \<longleftrightarrow>
     0 < msg_size q \<and> 0 < max_msgs q \<and> used_msgs q \<le> max_msgs q \<and>
     buffer_end q = buffer_start q + unat (max_msgs q) * msg_size q \<and>
     rd_slot q < unat (max_msgs q) \<and> read_ptr q = slot q (rd_slot q) \<and>
     write_ptr q = slot q (rd_slot q + unat (used_msgs q))"

definition messages :: "k_msgq \<times> mem \<Rightarrow> u8 list list" where
  "messages s = (let (q, m) = s
     in map (\<lambda>i. bytes m (slot q (rd_slot q + i)) (msg_size q)) [0..<unat (used_msgs q)])"

lemma slot_mod: "slot q (i mod unat (max_msgs q) + j) = slot q (i + j)"
  by (simp add: slot_def mod_add_left_eq)

lemma slot_bounds:
  assumes "0 < max_msgs q"
  shows "buffer_start q \<le> slot q i" "slot q i + msg_size q \<le> buffer_start q + unat (max_msgs q) * msg_size q"
proof -
  have "i mod unat (max_msgs q) < unat (max_msgs q)"
    using assms by (simp add: word_less_nat_alt)
  then have "Suc (i mod unat (max_msgs q)) * msg_size q \<le> unat (max_msgs q) * msg_size q"
    by (intro mult_le_mono1) simp
  then show "buffer_start q \<le> slot q i" "slot q i + msg_size q \<le> buffer_start q + unat (max_msgs q) * msg_size q"
    by (simp_all add: slot_def)
qed

lemma slot_next:
  assumes "msgq_wf q"
  shows "(if slot q i + msg_size q = buffer_end q then buffer_start q else slot q i + msg_size q) = slot q (Suc i)"
proof -
  let ?n = "unat (max_msgs q)" and ?s = "msg_size q"
  have n: "0 < ?n" "0 < ?s" using assms by (simp_all add: msgq_wf_def word_less_nat_alt)
  have "slot q i + ?s = buffer_end q \<longleftrightarrow> Suc (i mod ?n) * ?s = ?n * ?s"
    using assms by (auto simp: slot_def msgq_wf_def)
  also have "\<dots> \<longleftrightarrow> Suc (i mod ?n) = ?n" using n(2) by (metis mult_cancel2 neq0_conv)
  finally show ?thesis by (simp add: slot_def mod_Suc)
qed

lemma slots_disjoint:
  assumes "i mod unat (max_msgs q) \<noteq> j mod unat (max_msgs q)"
  shows "slot q i + msg_size q \<le> slot q j \<or> slot q j + msg_size q \<le> slot q i"
proof -
  let ?a = "i mod unat (max_msgs q)" and ?b = "j mod unat (max_msgs q)"
  have "a * msg_size q + msg_size q \<le> b * msg_size q" if "a < b" for a b
    using that mult_le_mono1 [of "Suc a" b "msg_size q"] by simp
  then show ?thesis using assms by (auto simp: slot_def neq_iff)
qed

lemma ring_distinct:
  fixes r i j n :: nat
  assumes "i < n" "j < n" "i \<noteq> j"
  shows "(r + i) mod n \<noteq> (r + j) mod n"
proof
  assume "(r + i) mod n = (r + j) mod n"
  then have "(int r + int i) mod int n = (int r + int j) mod int n" by (metis of_nat_add of_nat_mod)
  then have "int n dvd int i - int j" by (simp add: mod_eq_dvd_iff)
  then show False
    using assms zdvd_imp_le [of "int n" "int i - int j"] zdvd_imp_le [of "int n" "int j - int i"]
      dvd_minus_iff [of "int n" "int i - int j"] by (cases "i < j") auto
qed

lemma unat_suc_used: "used_msgs q < max_msgs q \<Longrightarrow> unat (used_msgs q + 1) = Suc (unat (used_msgs q))"
proof -
  assume "used_msgs q < max_msgs q"
  then have "unat (used_msgs q) < unat (max_msgs q)" "unat (max_msgs q) < 2 ^ 32"
    using unsigned_less [where 'a = nat and w = "max_msgs q"] by (simp_all add: word_less_nat_alt)
  then have "unat (used_msgs q) + 1 < 2 ^ 32" by linarith
  then show ?thesis by (simp add: unat_word_ariths(1))
qed

lemma msgq_store_eq:
  assumes "msgq_wf q"
  shows "msgq_store d (q, m) =
    (q\<lparr>write_ptr := slot q (Suc (rd_slot q + unat (used_msgs q))), used_msgs := used_msgs q + 1\<rparr>,
     memcpy (slot q (rd_slot q + unat (used_msgs q))) d (msg_size q) m)"
proof -
  have "write_ptr q = slot q (rd_slot q + unat (used_msgs q))" using assms by (simp add: msgq_wf_def)
  then show ?thesis
    using slot_next [OF assms, of "rd_slot q + unat (used_msgs q)"] by (auto simp: msgq_store_def Let_def)
qed

lemma slot_cong [simp]:
  "slot (q\<lparr>write_ptr := x\<rparr>) i = slot q i" "slot (q\<lparr>read_ptr := x\<rparr>) i = slot q i"
  "slot (q\<lparr>used_msgs := u\<rparr>) i = slot q i"
  "rd_slot (q\<lparr>write_ptr := x\<rparr>) = rd_slot q" "rd_slot (q\<lparr>used_msgs := u\<rparr>) = rd_slot q"
  by (simp_all add: slot_def rd_slot_def)

lemma msgq_store_ok:
  assumes "msgq_wf q" "used_msgs q < max_msgs q"
  shows "msgq_wf (fst (msgq_store d (q, m)))"
    and "messages (msgq_store d (q, m)) = messages (q, m) @ [bytes m d (msg_size q)]"
    and "used_msgs (fst (msgq_store d (q, m))) = used_msgs q + 1"
proof -
  let ?n = "unat (max_msgs q)" and ?u = "unat (used_msgs q)" and ?r = "rd_slot q"
  let ?m = "memcpy (slot q (?r + ?u)) d (msg_size q) m"
  note e = msgq_store_eq [OF assms(1), of d m] and u = unat_suc_used [OF assms(2)]
  have un: "?u < ?n" using assms(2) by (simp add: word_less_nat_alt)
  have "used_msgs q + 1 \<le> max_msgs q" using un u by (simp add: word_le_nat_alt)
  then show "msgq_wf (fst (msgq_store d (q, m)))"
    using assms(1) u by (simp add: e msgq_wf_def)
  have "bytes ?m (slot q (?r + i)) (msg_size q) = bytes m (slot q (?r + i)) (msg_size q)" if "i < ?u" for i
    using slots_disjoint [OF ring_distinct [of i ?n ?u ?r]] that un by (intro bytes_memcpy_other) auto
  then show "messages (msgq_store d (q, m)) = messages (q, m) @ [bytes m d (msg_size q)]"
    using u by (simp add: e messages_def Let_def bytes_memcpy_same)
  show "used_msgs (fst (msgq_store d (q, m))) = used_msgs q + 1" by (simp add: e)
qed

lemma msgq_fetch_eq:
  assumes "msgq_wf q"
  shows "msgq_fetch d (q, m) =
    (q\<lparr>read_ptr := slot q (Suc (rd_slot q)), used_msgs := used_msgs q - 1\<rparr>,
     memcpy d (slot q (rd_slot q)) (msg_size q) m)"
proof -
  have "read_ptr q = slot q (rd_slot q)" using assms by (simp add: msgq_wf_def)
  then show ?thesis
    using slot_next [OF assms, of "rd_slot q"] by (auto simp: msgq_fetch_def Let_def)
qed

lemma rd_slot_next:
  assumes "msgq_wf q"
  shows "rd_slot (q\<lparr>read_ptr := slot q i, used_msgs := x\<rparr>) = i mod unat (max_msgs q)"
  using assms by (simp add: rd_slot_def slot_def msgq_wf_def)

lemma msgq_fetch_ok:
  assumes "msgq_wf q" "0 < used_msgs q"
  shows "msgq_wf (fst (msgq_fetch d (q, m)))"
    and "d + msg_size q \<le> buffer_start q \<or> buffer_end q \<le> d \<Longrightarrow>
      messages (q, m) = bytes (snd (msgq_fetch d (q, m))) d (msg_size q) # messages (msgq_fetch d (q, m))"
    and "used_msgs (fst (msgq_fetch d (q, m))) = used_msgs q - 1"
proof -
  let ?n = "unat (max_msgs q)" and ?u = "unat (used_msgs q)" and ?r = "rd_slot q"
  let ?m = "memcpy d (slot q ?r) (msg_size q) m"
  let ?q = "q\<lparr>read_ptr := slot q (Suc ?r), used_msgs := used_msgs q - 1\<rparr>"
  note e = msgq_fetch_eq [OF assms(1), of d m]
  have u: "unat (used_msgs q - 1) = ?u - 1" "0 < ?u"
    using assms(2) by (simp_all add: unat_minus_one word_less_nat_alt unat_gt_0)
  have r: "rd_slot ?q = Suc ?r mod ?n" by (rule rd_slot_next [OF assms(1)])
  have n: "0 < ?n" using assms(1) by (simp add: msgq_wf_def word_less_nat_alt)
  have s: "slot q (Suc ?r mod ?n + i) = slot q (?r + Suc i)" for i using slot_mod [of q "Suc ?r" i] by simp
  have "?u \<le> ?n" using assms(1) by (simp add: msgq_wf_def word_le_nat_alt)
  then have "used_msgs q - 1 \<le> max_msgs q" using u by (simp add: word_le_nat_alt)
  then show "msgq_wf (fst (msgq_fetch d (q, m)))"
    using assms(1) u n s [of "?u - 1"] slot_mod [of q "Suc ?r" 0] r by (simp add: e msgq_wf_def)
  have "bytes ?m (slot q i) (msg_size q) = bytes m (slot q i) (msg_size q)"
    if "d + msg_size q \<le> buffer_start q \<or> buffer_end q \<le> d" for i
    using slot_bounds [of q i] assms(1) that by (intro bytes_memcpy_other) (auto simp: msgq_wf_def)
  then have "d + msg_size q \<le> buffer_start q \<or> buffer_end q \<le> d \<Longrightarrow> messages (?q, ?m) = map (\<lambda>i. bytes m (slot q (?r + Suc i)) (msg_size q)) [0..<?u - 1]"
    using r u s by (simp add: messages_def)
  moreover have "messages (q, m) = bytes m (slot q ?r) (msg_size q) #
      map (\<lambda>i. bytes m (slot q (?r + Suc i)) (msg_size q)) [0..<?u - 1]"
    using u(2) by (cases ?u) (simp_all add: messages_def upt_conv_Cons map_Suc_upt [symmetric] comp_def del: upt_Suc)
  ultimately show "d + msg_size q \<le> buffer_start q \<or> buffer_end q \<le> d \<Longrightarrow>
      messages (q, m) = bytes (snd (msgq_fetch d (q, m))) d (msg_size q) # messages (msgq_fetch d (q, m))"
    by (simp add: e bytes_memcpy_same)
  show "used_msgs (fst (msgq_fetch d (q, m))) = used_msgs q - 1" by (simp add: e)
qed

lemma length_messages [simp]: "length (messages (q, m)) = unat (used_msgs q)"
  by (simp add: messages_def)

lemma msgq_fields [simp]:
  "msgq_wait_q (fst (msgq_store d (q, m))) = msgq_wait_q q" "msgq_wait_q (fst (msgq_fetch d (q, m))) = msgq_wait_q q"
  "max_msgs (fst (msgq_store d (q, m))) = max_msgs q" "max_msgs (fst (msgq_fetch d (q, m))) = max_msgs q"
  "msg_size (fst (msgq_store d (q, m))) = msg_size q" "msg_size (fst (msgq_fetch d (q, m))) = msg_size q"
  by (simp_all add: msgq_store_def msgq_fetch_def Let_def)

section \<open>Operations\<close>

text \<open>
  The state of the contract adds to the queue and the memory which threads wait to write:
  \<open>writer t\<close> says that the last call in which thread \<open>t\<close> blocked was a put.
\<close>

type_synonym msgq_state = "(k_msgq \<times> mem) \<times> (tid \<Rightarrow> bool)"

definition msgq_ok :: "msgq_state \<Rightarrow> tid \<Rightarrow> tid list \<Rightarrow> bool" where
  "msgq_ok s idle ws \<longleftrightarrow>
     (let ((q, m), writer) = s
      in msgq_wf q \<and> (0 < used_msgs q \<and> used_msgs q < max_msgs q \<longrightarrow> ws = []) \<and>
         (\<forall>t\<in>set ws. writer t \<longleftrightarrow> used_msgs q = max_msgs q))"

lemma k_msgq_put_full:
  "\<not> used_msgs q < max_msgs q \<Longrightarrow>
   k_msgq_put c data d ((q, m), k) =
     (if d = K_NO_WAIT then (Returned (- ENOMSG), ((q, m), k))
      else (Blocked, ((q, m), z_pend_curr c (Some (ObjQ (msgq_wait_q q))) d
              (upd_thread (current_thread c k) (\<lambda>th. th\<lparr>swap_data := data\<rparr>) k))))"
  by (simp add: k_msgq_put_def Let_def)

lemma k_msgq_put_store:
  "used_msgs q < max_msgs q \<Longrightarrow> waitqs k (ObjQ (msgq_wait_q q)) = [] \<Longrightarrow>
   k_msgq_put c data d ((q, m), k) = (Returned 0, (msgq_store (unat data) (q, m), k))"
  by (simp add: k_msgq_put_def z_unpend_first_thread_cases)

lemma k_msgq_put_pass:
  assumes "used_msgs q < max_msgs q" "waitqs k (ObjQ (msgq_wait_q q)) = t # ts"
    "k1 = snd (z_unpend_first_thread (ObjQ (msgq_wait_q q)) k)"
  shows "k_msgq_put c data d ((q, m), k) =
    (Returned 0, ((q, memcpy (unat (swap_data (threads k t))) (unat data) (msg_size q) m),
      z_reschedule c (z_ready_thread c t (arch_thread_return_value_set t 0 k1))))"
  using assms by (simp add: k_msgq_put_def z_unpend_first_thread_cases Let_def)

lemma k_msgq_get_empty:
  "\<not> 0 < used_msgs q \<Longrightarrow>
   k_msgq_get c data d ((q, m), k) =
     (if d = K_NO_WAIT then (Returned (- ENOMSG), ((q, m), k))
      else (Blocked, ((q, m), z_pend_curr c (Some (ObjQ (msgq_wait_q q))) d
              (upd_thread (current_thread c k) (\<lambda>th. th\<lparr>swap_data := data\<rparr>) k))))"
  by (simp add: k_msgq_get_def Let_def)

lemma k_msgq_get_fetch:
  "0 < used_msgs q \<Longrightarrow> waitqs k (ObjQ (msgq_wait_q q)) = [] \<Longrightarrow>
   k_msgq_get c data d ((q, m), k) = (Returned 0, (msgq_fetch (unat data) (q, m), k))"
  by (simp add: k_msgq_get_def z_unpend_first_thread_cases)

lemma k_msgq_get_refill:
  assumes "0 < used_msgs q" "waitqs k (ObjQ (msgq_wait_q q)) = t # ts"
    "k1 = snd (z_unpend_first_thread (ObjQ (msgq_wait_q q)) k)"
  shows "k_msgq_get c data d ((q, m), k) =
    (Returned 0, (msgq_store (unat (swap_data (threads k t))) (msgq_fetch (unat data) (q, m)),
      z_reschedule c (z_ready_thread c t (arch_thread_return_value_set t 0 k1))))"
  using assms by (simp add: k_msgq_get_def z_unpend_first_thread_cases Let_def)

lemma k_msgq_put_effect:
  assumes "sched_ok k" "running k \<or> d = K_NO_WAIT"
    and "msgq_ok ((q, m), wr) (idle0 k) (waitqs k (ObjQ (msgq_wait_q q)))"
    and "k_msgq_put 0 data d ((q, m), k) = (r, ((q', m'), k'))"
  shows "sched_ok k' \<and> idle0 k' = idle0 k \<and> msgq_wait_q q' = msgq_wait_q q \<and>
    msgq_ok ((q', m'), if r = Blocked then wr(cur0 k := True) else wr) (idle0 k) (waitqs k' (ObjQ (msgq_wait_q q))) \<and>
    (n \<noteq> msgq_wait_q q \<longrightarrow> waitqs k' (ObjQ n) = waitqs k (ObjQ n))"
proof (cases "used_msgs q < max_msgs q")
  case True
  show ?thesis
  proof (cases "waitqs k (ObjQ (msgq_wait_q q))")
    case Nil
    have "(q', m') = msgq_store (unat data) (q, m)" "k' = k" "r = Returned 0"
      using assms(4) k_msgq_put_store [OF True Nil] by auto
    then show ?thesis
      using assms(1,3) True Nil msgq_store_ok [of q "unat data" m] by (auto simp: msgq_ok_def prod_eq_iff)
  next
    case (Cons t ts)
    note e = k_msgq_put_pass [OF True Cons refl, where c = 0 and data = data and d = d and m = m]
    have k': "k' = z_reschedule 0 (z_ready_thread 0 t (arch_thread_return_value_set t 0
        (snd (z_unpend_first_thread (ObjQ (msgq_wait_q q)) k))))" "q' = q" "r = Returned 0"
      using assms(4) e by auto
    note w = wake_and_reschedule [OF assms(1) Cons refl, where v = 0 and k' = k']
    show ?thesis using w k' assms(3) Cons by (auto simp: msgq_ok_def)
  qed
next
  case False
  then have full: "used_msgs q = max_msgs q" using assms(3) by (auto simp: msgq_ok_def msgq_wf_def)
  show ?thesis
  proof (cases "d = K_NO_WAIT")
    case True
    then show ?thesis using assms k_msgq_put_full [OF False, of 0 data d m k] by auto
  next
    case d: False
    then have run: "running k" using assms(2) by simp
    have k': "k' = z_pend_curr 0 (Some (ObjQ (msgq_wait_q q))) d (upd_thread (cur0 k) (\<lambda>th. th\<lparr>swap_data := data\<rparr>) k)"
      "q' = q" "m' = m" "r = Blocked"
      using assms(4) k_msgq_put_full [OF False, of 0 data d m k] d by auto
    show ?thesis
      using block_with_data [OF assms(1) run k'(1)] k'(2-) assms(3) full by (auto simp: msgq_ok_def)
  qed
qed

lemma k_msgq_get_effect:
  assumes "sched_ok k" "running k \<or> d = K_NO_WAIT"
    and "msgq_ok ((q, m), wr) (idle0 k) (waitqs k (ObjQ (msgq_wait_q q)))"
    and "k_msgq_get 0 data d ((q, m), k) = (r, ((q', m'), k'))"
  shows "sched_ok k' \<and> idle0 k' = idle0 k \<and> msgq_wait_q q' = msgq_wait_q q \<and>
    msgq_ok ((q', m'), if r = Blocked then wr(cur0 k := False) else wr) (idle0 k) (waitqs k' (ObjQ (msgq_wait_q q))) \<and>
    (n \<noteq> msgq_wait_q q \<longrightarrow> waitqs k' (ObjQ n) = waitqs k (ObjQ n))"
proof (cases "0 < used_msgs q")
  case True
  have wf: "msgq_wf q" using assms(3) by (simp add: msgq_ok_def)
  note f = msgq_fetch_ok(1,3) [OF wf True, of "unat data" m]
  have lt: "used_msgs q - 1 < max_msgs q"
  proof -
    have "unat (used_msgs q - 1) < unat (used_msgs q)" "unat (used_msgs q) \<le> unat (max_msgs q)"
      using True wf by (simp_all add: unat_minus_one word_less_nat_alt unat_gt_0 msgq_wf_def word_le_nat_alt)
    then show ?thesis by (simp add: word_less_nat_alt)
  qed
  show ?thesis
  proof (cases "waitqs k (ObjQ (msgq_wait_q q))")
    case Nil
    have "(q', m') = msgq_fetch (unat data) (q, m)" "k' = k" "r = Returned 0"
      using assms(4) k_msgq_get_fetch [OF True Nil] by auto
    then show ?thesis
      using assms(1,3) True Nil f by (auto simp: msgq_ok_def prod_eq_iff)
  next
    case (Cons t ts)
    let ?f = "msgq_fetch (unat data) (q, m)"
    note e = k_msgq_get_refill [OF True Cons refl, where c = 0 and data = data and d = d and m = m]
    have k': "k' = z_reschedule 0 (z_ready_thread 0 t (arch_thread_return_value_set t 0
        (snd (z_unpend_first_thread (ObjQ (msgq_wait_q q)) k))))" "r = Returned 0"
      "(q', m') = msgq_store (unat (swap_data (threads k t))) (fst ?f, snd ?f)"
      using assms(4) e by auto
    note w = wake_and_reschedule [OF assms(1) Cons refl, where v = 0 and k' = k']
    have "msgq_wf q'" "used_msgs q' = used_msgs q" "max_msgs q' = max_msgs q" "msgq_wait_q q' = msgq_wait_q q"
      using msgq_store_ok(1,3) [OF f(1), of "unat (swap_data (threads k t))" "snd ?f"] f(2) lt k'(3)
        msgq_fields [of "unat (swap_data (threads k t))" "fst ?f" "snd ?f"] msgq_fields [of "unat data" q m]
      by (metis fst_conv diff_add_cancel)+
    then show ?thesis using w k'(1,2) assms(3) Cons by (auto simp: msgq_ok_def)
  qed
next
  case False
  then have e: "used_msgs q \<noteq> max_msgs q" using assms(3) by (auto simp: msgq_ok_def msgq_wf_def)
  show ?thesis
  proof (cases "d = K_NO_WAIT")
    case True
    then show ?thesis using assms k_msgq_get_empty [OF False, of 0 data d m k] by auto
  next
    case d: False
    then have run: "running k" using assms(2) by simp
    have k': "k' = z_pend_curr 0 (Some (ObjQ (msgq_wait_q q))) d (upd_thread (cur0 k) (\<lambda>th. th\<lparr>swap_data := data\<rparr>) k)"
      "q' = q" "m' = m" "r = Blocked"
      using assms(4) k_msgq_get_empty [OF False, of 0 data d m k] d by auto
    show ?thesis
      using block_with_data [OF assms(1) run k'(1)] k'(2-) assms(3) e False by (auto simp: msgq_ok_def)
  qed
qed

lemma k_msgq_purge_effect:
  assumes "sched_ok k" "msgq_wf q" "k_msgq_purge 0 ((q, m), k) = ((q', m'), k')"
  shows "sched_ok k'" "idle0 k' = idle0 k" "waitqs k' = (waitqs k)(ObjQ (msgq_wait_q q) := [])"
    and "m' = m" "msgq_wf q'" "messages (q', m') = []" "msgq_wait_q q' = msgq_wait_q q"
proof -
  let ?k = "snd (wake_loop (length (waitqs k (ObjQ (msgq_wait_q q)))) 0 (msgq_wait_q q) (- ENOMSG) k)"
  note w = wake_loop_ok [OF assms(1) order_refl, of "msgq_wait_q q" "- ENOMSG"]
  have e: "q' = q\<lparr>used_msgs := 0, read_ptr := write_ptr q\<rparr>" "m' = m" "k' = z_reschedule 0 ?k"
    using assms(3) by (auto simp: k_msgq_purge_def Let_def)
  show "sched_ok k'" "idle0 k' = idle0 k" "waitqs k' = (waitqs k)(ObjQ (msgq_wait_q q) := [])"
    using w sched_ok_reschedule by (simp_all add: e)
  show "m' = m" "messages (q', m') = []" "msgq_wait_q q' = msgq_wait_q q" by (simp_all add: e messages_def)
  let ?w = "rd_slot q + unat (used_msgs q)"
  have wp: "write_ptr q = slot q ?w" and n: "0 < unat (max_msgs q)"
    using assms(2) by (simp_all add: msgq_wf_def word_less_nat_alt)
  have "rd_slot q' = ?w mod unat (max_msgs q)"
    using assms(2) by (simp add: e wp rd_slot_def slot_def msgq_wf_def)
  then show "msgq_wf q'"
    using assms(2) n slot_mod [of q ?w 0] wp by (simp add: msgq_wf_def e slot_def)
qed

section \<open>The contract\<close>

inductive msgq_step :: "msgq_state \<times> kernel \<Rightarrow> msgq_state \<times> kernel \<Rightarrow> bool" where
  put: "running k \<or> d = K_NO_WAIT \<Longrightarrow> k_msgq_put 0 data d (qm, k) = (r, (qm', k')) \<Longrightarrow>
    msgq_step ((qm, wr), k) ((qm', if r = Blocked then wr(cur0 k := True) else wr), k')"
| get: "running k \<or> d = K_NO_WAIT \<Longrightarrow> k_msgq_get 0 data d (qm, k) = (r, (qm', k')) \<Longrightarrow>
    msgq_step ((qm, wr), k) ((qm', if r = Blocked then wr(cur0 k := False) else wr), k')"
| purge: "k_msgq_purge 0 (qm, k) = (qm', k') \<Longrightarrow> msgq_step ((qm, wr), k) ((qm', wr), k')"

definition msgq_wq :: "msgq_state \<Rightarrow> nat" where "msgq_wq s = msgq_wait_q (fst (fst s))"

lemma msgq_step_effect:
  assumes "msgq_step (s, k) (s', k')" "sched_ok k" "msgq_ok s (idle0 k) (waitqs k (ObjQ (msgq_wq s)))"
  shows "sched_ok k' \<and> idle0 k' = idle0 k \<and> msgq_wq s' = msgq_wq s \<and>
    msgq_ok s' (idle0 k) (waitqs k' (ObjQ (msgq_wq s))) \<and>
    (n \<noteq> msgq_wq s \<longrightarrow> waitqs k' (ObjQ n) = waitqs k (ObjQ n))"
  using assms(1)
proof cases
  case (put d data qm r qm' wr)
  obtain q m q' m' where p: "qm = (q, m)" "qm' = (q', m')" by (cases qm, cases qm')
  have ok: "msgq_ok ((q, m), wr) (idle0 k) (waitqs k (ObjQ (msgq_wait_q q)))"
    using assms(3) put(1) p by (simp add: msgq_wq_def)
  show ?thesis
    using k_msgq_put_effect [OF assms(2) put(3) ok put(4) [unfolded p]] put(1,2) p by (simp add: msgq_wq_def)
next
  case (get d data qm r qm' wr)
  obtain q m q' m' where p: "qm = (q, m)" "qm' = (q', m')" by (cases qm, cases qm')
  have ok: "msgq_ok ((q, m), wr) (idle0 k) (waitqs k (ObjQ (msgq_wait_q q)))"
    using assms(3) get(1) p by (simp add: msgq_wq_def)
  show ?thesis
    using k_msgq_get_effect [OF assms(2) get(3) ok get(4) [unfolded p]] get(1,2) p by (simp add: msgq_wq_def)
next
  case (purge qm qm' wr)
  obtain q m q' m' where p: "qm = (q, m)" "qm' = (q', m')" by (cases qm, cases qm')
  have wf: "msgq_wf q" using assms(3) purge(1) p by (simp add: msgq_ok_def)
  show ?thesis
    using k_msgq_purge_effect [OF assms(2) wf purge(3) [unfolded p]] purge(1,2) p
    by (simp add: msgq_wq_def msgq_ok_def)
qed

interpretation msgq: kernel_object msgq_step msgq_wq msgq_ok
proof unfold_locales
  show "msgq_ok ob i ws \<Longrightarrow> set ws' \<subseteq> set ws \<Longrightarrow> msgq_ok ob i ws'" for ob i ws ws'
    by (auto simp: msgq_ok_def split: prod.splits)
qed (auto dest: msgq_step_effect)

section \<open>Messages are delivered in order\<close>

text \<open>
  A put appends the message, or hands it to a waiting reader of an empty queue; a get takes
  the oldest message and lets a waiting writer append its own.
\<close>

lemma k_msgq_put_fifo:
  assumes "msgq_ok ((q, m), wr) i (waitqs k (ObjQ (msgq_wait_q q)))"
    and "used_msgs q < max_msgs q" "k_msgq_put 0 data d ((q, m), k) = (r, ((q', m'), k'))"
  shows "r = Returned 0"
    and "waitqs k (ObjQ (msgq_wait_q q)) = [] \<Longrightarrow>
      messages (q', m') = messages (q, m) @ [bytes m (unat data) (msg_size q)]"
    and "waitqs k (ObjQ (msgq_wait_q q)) = t # ts \<Longrightarrow>
      \<not> wr t \<and> messages (q, m) = [] \<and> messages (q', m') = [] \<and>
      bytes m' (unat (swap_data (threads k t))) (msg_size q) = bytes m (unat data) (msg_size q)"
proof -
  have wf: "msgq_wf q" using assms(1) by (simp add: msgq_ok_def)
  show "r = Returned 0"
    using k_msgq_put_store [OF assms(2), of k] k_msgq_put_pass [OF assms(2), of k] assms(3)
    by (cases "waitqs k (ObjQ (msgq_wait_q q))") auto
  show "messages (q', m') = messages (q, m) @ [bytes m (unat data) (msg_size q)]"
    if "waitqs k (ObjQ (msgq_wait_q q)) = []"
    using k_msgq_put_store [OF assms(2) that, of 0 data d m] assms(3) msgq_store_ok(2) [OF wf assms(2)] by simp
  assume w: "waitqs k (ObjQ (msgq_wait_q q)) = t # ts"
  then have "used_msgs q = 0" "\<not> wr t"
    using assms(1,2) by (auto simp: msgq_ok_def word_less_nat_alt unat_eq_0)
  then show "\<not> wr t \<and> messages (q, m) = [] \<and> messages (q', m') = [] \<and>
      bytes m' (unat (swap_data (threads k t))) (msg_size q) = bytes m (unat data) (msg_size q)"
    using k_msgq_put_pass [OF assms(2) w refl, of 0 data d m] assms(3) bytes_memcpy_same
    by (auto simp: messages_def)
qed

lemma k_msgq_get_fifo:
  assumes "msgq_ok ((q, m), wr) i (waitqs k (ObjQ (msgq_wait_q q)))"
    and "0 < used_msgs q" "k_msgq_get 0 data d ((q, m), k) = (r, ((q', m'), k'))"
    and "unat data + msg_size q \<le> buffer_start q \<or> buffer_end q \<le> unat data"
  shows "r = Returned 0"
    and "waitqs k (ObjQ (msgq_wait_q q)) = [] \<Longrightarrow>
      messages (q, m) = bytes m' (unat data) (msg_size q) # messages (q', m')"
    and "waitqs k (ObjQ (msgq_wait_q q)) = t # ts \<Longrightarrow>
      unat (swap_data (threads k t)) + msg_size q \<le> unat data \<or>
      unat data + msg_size q \<le> unat (swap_data (threads k t)) \<Longrightarrow>
      wr t \<and> messages (q', m') = tl (messages (q, m)) @ [bytes m (unat (swap_data (threads k t))) (msg_size q)] \<and>
      bytes m' (unat data) (msg_size q) = hd (messages (q, m))"
proof -
  have wf: "msgq_wf q" using assms(1) by (simp add: msgq_ok_def)
  note f = msgq_fetch_ok [OF wf assms(2), of "unat data" m]
  show "r = Returned 0"
    using k_msgq_get_fetch [OF assms(2), of k] k_msgq_get_refill [OF assms(2), of k] assms(3)
    by (cases "waitqs k (ObjQ (msgq_wait_q q))") auto
  show "messages (q, m) = bytes m' (unat data) (msg_size q) # messages (q', m')"
    if "waitqs k (ObjQ (msgq_wait_q q)) = []"
  proof -
    have "msgq_fetch (unat data) (q, m) = (q', m')"
      using k_msgq_get_fetch [OF assms(2) that, of 0 data d m] assms(3) by simp
    then show ?thesis using f(2) [OF assms(4)] by simp
  qed
  let ?f = "msgq_fetch (unat data) (q, m)" and ?sd = "unat (swap_data (threads k t))"
  assume w: "waitqs k (ObjQ (msgq_wait_q q)) = t # ts"
    and dj: "?sd + msg_size q \<le> unat data \<or> unat data + msg_size q \<le> ?sd"
  then have full: "used_msgs q = max_msgs q" "wr t" using assms(1,2) by (auto simp: msgq_ok_def order_le_less msgq_wf_def)
  have st: "msgq_store ?sd (fst ?f, snd ?f) = (q', m')"
    using k_msgq_get_refill [OF assms(2) w refl, of 0 data d m] assms(3) by simp
  have "used_msgs q - 1 < max_msgs q"
    using full assms(2) by (simp add: unat_minus_one word_less_nat_alt unat_gt_0)
  then have "messages (q', m') = messages ?f @ [bytes (snd ?f) ?sd (msg_size q)]"
    using msgq_store_ok(2) [OF f(1), of ?sd "snd ?f"] f(3) st by simp
  moreover have "bytes (snd ?f) ?sd (msg_size q) = bytes m ?sd (msg_size q)"
    using dj msgq_fetch_eq [OF wf, of "unat data" m] by (simp add: bytes_memcpy_other disj_commute)
  moreover have "bytes m' (unat data) (msg_size q) = bytes (snd ?f) (unat data) (msg_size q)"
  proof -
    let ?s = "slot (fst ?f) (rd_slot (fst ?f) + unat (used_msgs (fst ?f)))"
    have "m' = memcpy ?s ?sd (msg_size q) (snd ?f)"
      using msgq_store_eq [OF f(1), of ?sd "snd ?f"] st by simp
    moreover have "buffer_start q \<le> ?s" "?s + msg_size q \<le> buffer_end q"
      using slot_bounds [of "fst ?f"] wf msgq_fetch_eq [OF wf, of "unat data" m] by (auto simp: msgq_wf_def)
    ultimately show ?thesis using assms(4) bytes_memcpy_other [of "unat data" "msg_size q" ?s "msg_size q"] by auto
  qed
  ultimately show "wr t \<and> messages (q', m') = tl (messages (q, m)) @ [bytes m ?sd (msg_size q)] \<and>
      bytes m' (unat data) (msg_size q) = hd (messages (q, m))"
    using f(2) [OF assms(4)] full(2) by simp
qed

section \<open>Properties\<close>

text \<open>
  C22: Putting a message into a queue that is not full returns 0 without blocking. With no
  waiting reader the message is appended to the queue; with one, the queue is empty and the
  bytes of the message are copied into the buffer of the first reader.
\<close>

theorem msgq_put_fifo:
  assumes "msgq_ok ((q, m), wr) i (waitqs k (ObjQ (msgq_wait_q q)))"
    and "used_msgs q < max_msgs q" "k_msgq_put 0 data d ((q, m), k) = (r, ((q', m'), k'))"
  shows "r = Returned 0 \<and>
    (case waitqs k (ObjQ (msgq_wait_q q)) of
       [] \<Rightarrow> messages (q', m') = messages (q, m) @ [bytes m (unat data) (msg_size q)]
     | t # _ \<Rightarrow> messages (q, m) = [] \<and> messages (q', m') = [] \<and>
         bytes m' (unat (swap_data (threads k t))) (msg_size q) = bytes m (unat data) (msg_size q))"
  using k_msgq_put_fifo [OF assms] by (auto split: list.split)

definition sample_msgq :: k_msgq where
  "sample_msgq = \<lparr>msgq_wait_q = 9, msg_size = 2, max_msgs = 2, buffer_start = 10, buffer_end = 14,
     read_ptr = 12, write_ptr = 10, used_msgs = 1, msgq_flags = 0\<rparr>"

lemma sample_msgq_ok: "msgq_ok ((sample_msgq, m), wr) i []"
  by (simp add: msgq_ok_def msgq_wf_def sample_msgq_def rd_slot_def slot_def)

theorem msgq_put_fifo_witness:
  "messages (fst (snd (k_msgq_put 0 20 0 ((sample_msgq, \<lambda>a. of_nat a), sample_kernel 8)))) = [[12, 13], [20, 21]]"
proof -
  obtain r q' m' k' where p: "k_msgq_put 0 20 0 ((sample_msgq, \<lambda>a. of_nat a), sample_kernel 8) = (r, ((q', m'), k'))"
    by (metis prod.exhaust)
  have w: "waitqs (sample_kernel 8) (ObjQ (msgq_wait_q sample_msgq)) = []" by (simp add: sample_msgq_def)
  have "messages (sample_msgq, \<lambda>a. of_nat a) = [[12, 13]]" "bytes (\<lambda>a. of_nat a) 20 2 = [20, 21 :: u8]"
    by (simp_all add: messages_def sample_msgq_def bytes_def rd_slot_def slot_def upt_rec)
  moreover have "used_msgs sample_msgq < max_msgs sample_msgq" "msg_size sample_msgq = 2" by (simp_all add: sample_msgq_def)
  ultimately have "messages (q', m') = [[12, 13], [20, 21]]"
    using msgq_put_fifo [OF _ _ p, unfolded w, OF sample_msgq_ok] by simp
  then show ?thesis by (simp add: p)
qed

text \<open>
  C23: Getting a message from a queue that is not empty returns 0 without blocking and
  copies the oldest message to the caller. With no waiting writer the other messages stay in
  order; with one, its message is appended, so the order of the messages put is kept.
\<close>

theorem msgq_get_fifo:
  assumes "msgq_ok ((q, m), wr) i (waitqs k (ObjQ (msgq_wait_q q)))"
    and "0 < used_msgs q" "k_msgq_get 0 data d ((q, m), k) = (r, ((q', m'), k'))"
    and "unat data + msg_size q \<le> buffer_start q \<or> buffer_end q \<le> unat data"
    and "\<forall>t \<in> set (waitqs k (ObjQ (msgq_wait_q q))).
      unat (swap_data (threads k t)) + msg_size q \<le> unat data \<or>
      unat data + msg_size q \<le> unat (swap_data (threads k t))"
  shows "r = Returned 0 \<and> bytes m' (unat data) (msg_size q) = hd (messages (q, m)) \<and>
    messages (q', m') = tl (messages (q, m)) @
      (case waitqs k (ObjQ (msgq_wait_q q)) of
         [] \<Rightarrow> [] | t # _ \<Rightarrow> [bytes m (unat (swap_data (threads k t))) (msg_size q)])"
proof (cases "waitqs k (ObjQ (msgq_wait_q q))")
  case Nil
  show ?thesis using k_msgq_get_fifo(1,2) [OF assms(1-4)] Nil by simp
next
  case (Cons t ts)
  show ?thesis using k_msgq_get_fifo(1) [OF assms(1-4)] k_msgq_get_fifo(3) [OF assms(1-4) Cons] assms(5) Cons by simp
qed

theorem msgq_get_fifo_witness:
  "messages (fst (snd (k_msgq_get 0 20 0 ((sample_msgq, \<lambda>a. of_nat a), sample_kernel 8)))) = []"
proof -
  obtain r q' m' k' where p: "k_msgq_get 0 20 0 ((sample_msgq, \<lambda>a. of_nat a), sample_kernel 8) = (r, ((q', m'), k'))"
    by (metis prod.exhaust)
  have w: "waitqs (sample_kernel 8) (ObjQ (msgq_wait_q sample_msgq)) = []" by (simp add: sample_msgq_def)
  have "messages (sample_msgq, \<lambda>a. of_nat a) = [[12, 13]]"
    by (simp add: messages_def sample_msgq_def bytes_def rd_slot_def slot_def upt_rec)
  moreover have "0 < used_msgs sample_msgq" "buffer_end sample_msgq \<le> 20" by (simp_all add: sample_msgq_def)
  ultimately have "messages (q', m') = []"
    using msgq_get_fifo [OF _ _ p, unfolded w, OF sample_msgq_ok] by simp
  then show ?thesis by (simp add: p)
qed

text \<open>
  C24: Purging empties the queue and wakes every waiter, the readers too, leaving memory and
  all other wait queues alone.
\<close>

theorem msgq_purge_wakes_all:
  assumes "sched_ok k" "msgq_wf q" "k_msgq_purge 0 ((q, m), k) = ((q', m'), k')"
  shows "sched_ok k' \<and> waitqs k' = (waitqs k)(ObjQ (msgq_wait_q q) := []) \<and> m' = m \<and> msgq_wf q' \<and>
    messages (q', m') = []"
  using k_msgq_purge_effect [OF assms] by simp

theorem msgq_purge_wakes_all_witness:
  "waitqs (snd (k_msgq_purge 0 ((sample_msgq\<lparr>msgq_wait_q := 8\<rparr>, \<lambda>_. 0), sample_kernel 8))) (ObjQ 8) = []"
proof -
  obtain q' m' k' where p: "k_msgq_purge 0 ((sample_msgq\<lparr>msgq_wait_q := 8\<rparr>, \<lambda>_. 0), sample_kernel 8) = ((q', m'), k')"
    by (metis prod.exhaust)
  have "waitqs k' (ObjQ 8) = []"
    using msgq_purge_wakes_all [OF sample_kernel_ok _ p]
    by (simp add: msgq_wf_def sample_msgq_def rd_slot_def slot_def)
  then show ?thesis by (simp add: p)
qed

end
