(* ===== verification/Mem_Slab.thy ===== *)
theory Mem_Slab
  imports Sample_State
begin

text \<open>
  Memory slabs, \<^verbatim>\<open>kernel/mem_slab.c\<close>: fixed-size blocks whose free list is threaded through
  the first word of each free block. The free list in memory refines a list of distinct
  block addresses; a block is handed out only while it is free, and every block is free or
  in use.
\<close>

section \<open>Definitions\<close>

text \<open>The pointer stored at an address; address 0 is \<^verbatim>\<open>NULL\<close>.\<close>

type_synonym words = "nat \<Rightarrow> nat"

record k_mem_slab =
  slab_wait_q :: nat
  num_blocks :: u32
  block_size :: nat
  slab_buffer :: nat
  free_list :: nat
  num_used :: u32

fun create_free_list_loop :: "nat \<Rightarrow> nat \<Rightarrow> k_mem_slab \<times> words \<Rightarrow> k_mem_slab \<times> words" where
  "create_free_list_loop 0 p s = s"
| "create_free_list_loop (Suc n) p s =
     (let (slab, m) = s;
          m = m(p := free_list slab);
          slab = slab\<lparr>free_list := p\<rparr>
      in create_free_list_loop n (p + block_size slab) (slab, m))"

definition create_free_list :: "k_mem_slab \<times> words \<Rightarrow> int \<times> (k_mem_slab \<times> words)" where
  "create_free_list s =
     (let (slab, m) = s
      in if (block_size slab OR slab_buffer slab) AND 7 \<noteq> 0 then (- EINVAL, s)
         else
           let slab = slab\<lparr>free_list := 0\<rparr>
           in (0, create_free_list_loop (unat (num_blocks slab)) (slab_buffer slab) (slab, m)))"

definition k_mem_slab_init ::
  "nat \<Rightarrow> nat \<Rightarrow> u32 \<Rightarrow> (k_mem_slab \<times> words) \<times> kernel \<Rightarrow> int \<times> ((k_mem_slab \<times> words) \<times> kernel)" where
  "k_mem_slab_init buffer sz n s =
     (let ((slab, m), k) = s;
          slab = slab\<lparr>num_blocks := n, block_size := sz, slab_buffer := buffer, num_used := 0\<rparr>;
          (rc, sm) = create_free_list (slab, m)
      in if rc < 0 then (rc, (sm, k))
         else (rc, (sm, k\<lparr>waitqs := (waitqs k)(ObjQ (slab_wait_q slab) := [])\<rparr>)))"

text \<open>The pair in the result is the return value and what is stored in \<^verbatim>\<open>*mem\<close>.\<close>

definition k_mem_slab_alloc ::
  "cpu_id \<Rightarrow> k_timeout_t \<Rightarrow> (k_mem_slab \<times> words) \<times> kernel \<Rightarrow>
   (int \<times> nat) outcome \<times> ((k_mem_slab \<times> words) \<times> kernel)" where
  "k_mem_slab_alloc c timeout s =
     (let ((slab, m), k) = s
      in if free_list slab \<noteq> 0 then
           let b = free_list slab
           in (Returned (0, b), ((slab\<lparr>free_list := m b, num_used := num_used slab + 1\<rparr>, m), k))
         else if timeout = K_NO_WAIT then (Returned (- ENOMEM, 0), s)
         else (Blocked, ((slab, m), z_pend_curr c (Some (ObjQ (slab_wait_q slab))) timeout k)))"

definition k_mem_slab_alloc_resume :: "cpu_id \<Rightarrow> kernel \<Rightarrow> int \<times> nat option" where
  "k_mem_slab_alloc_resume c k =
     (let th = threads k (current_thread c k)
      in (swap_retval th, if swap_retval th = 0 then Some (unat (swap_data th)) else None))"

definition k_mem_slab_free ::
  "cpu_id \<Rightarrow> nat \<Rightarrow> (k_mem_slab \<times> words) \<times> kernel \<Rightarrow> (k_mem_slab \<times> words) \<times> kernel" where
  "k_mem_slab_free c b s =
     (let ((slab, m), k) = s;
          (pending_thread, k) =
            (if free_list slab = 0 then z_unpend_first_thread (ObjQ (slab_wait_q slab)) k else (None, k))
      in case pending_thread of
           Some t \<Rightarrow>
             ((slab, m), z_reschedule c (z_ready_thread c t (z_thread_return_value_set_with_data t 0 (of_nat b) k)))
         | None \<Rightarrow>
             ((slab\<lparr>free_list := b, num_used := num_used slab - 1\<rparr>, m(b := free_list slab)), k))"

definition k_mem_slab_num_used_get :: "k_mem_slab \<Rightarrow> u32" where
  "k_mem_slab_num_used_get slab = num_used slab"

definition k_mem_slab_num_free_get :: "k_mem_slab \<Rightarrow> u32" where
  "k_mem_slab_num_free_get slab = num_blocks slab - num_used slab"

section \<open>The free list\<close>

fun chain :: "words \<Rightarrow> nat \<Rightarrow> nat list \<Rightarrow> bool" where
  "chain m p [] \<longleftrightarrow> p = 0"
| "chain m p (b # bs) \<longleftrightarrow> p = b \<and> b \<noteq> 0 \<and> chain m (m b) bs"

definition blocks :: "k_mem_slab \<Rightarrow> nat list" where
  "blocks slab = map (\<lambda>i. slab_buffer slab + i * block_size slab) [0..<unat (num_blocks slab)]"

definition slab_wf :: "k_mem_slab \<Rightarrow> bool" where
  "slab_wf slab \<longleftrightarrow> 0 < slab_buffer slab \<and> 0 < block_size slab"

text \<open>\<open>slab_rep (slab, m) fl\<close>: the free list in memory is \<open>fl\<close>.\<close>

definition slab_rep :: "k_mem_slab \<times> words \<Rightarrow> nat list \<Rightarrow> bool" where
  "slab_rep s fl \<longleftrightarrow>
     (let (slab, m) = s
      in slab_wf slab \<and> chain m (free_list slab) fl \<and> distinct fl \<and> set fl \<subseteq> set (blocks slab) \<and>
         unat (num_used slab) + length fl = unat (num_blocks slab))"

lemma chain_unique: "chain m p xs \<Longrightarrow> chain m p ys \<Longrightarrow> xs = ys"
proof (induction xs arbitrary: p ys)
  case Nil
  then show ?case by (cases ys) auto
next
  case (Cons x xs)
  then show ?case by (cases ys) auto
qed

lemma chain_frame: "a \<notin> set bs \<Longrightarrow> chain (m(a := v)) p bs = chain m p bs"
  by (induction bs arbitrary: p) auto

lemma distinct_blocks: "slab_wf slab \<Longrightarrow> distinct (blocks slab)"
  by (simp add: blocks_def distinct_map inj_on_def slab_wf_def)

lemma length_blocks [simp]: "length (blocks slab) = unat (num_blocks slab)"
  by (simp add: blocks_def)

lemma blocks_cong [simp]:
  "blocks (slab\<lparr>free_list := x\<rparr>) = blocks slab" "blocks (slab\<lparr>num_used := u\<rparr>) = blocks slab"
  "slab_wf (slab\<lparr>free_list := x\<rparr>) = slab_wf slab" "slab_wf (slab\<lparr>num_used := u\<rparr>) = slab_wf slab"
  by (simp_all add: blocks_def slab_wf_def)

text \<open>Initialisation links every block once.\<close>

lemma create_free_list_loop_chain:
  assumes "chain m (free_list slab) fl" "0 < p" "0 < block_size slab" "\<forall>b\<in>set fl. b < p"
  shows "\<exists>m'. create_free_list_loop n p (slab, m) =
      (slab\<lparr>free_list := hd (rev (map (\<lambda>i. p + i * block_size slab) [0..<n]) @ [free_list slab])\<rparr>, m') \<and>
    chain m' (hd (rev (map (\<lambda>i. p + i * block_size slab) [0..<n]) @ [free_list slab]))
      (rev (map (\<lambda>i. p + i * block_size slab) [0..<n]) @ fl)"
  using assms
proof (induction n arbitrary: p slab m fl)
  case (Suc n)
  let ?s = "block_size slab"
  let ?slab = "slab\<lparr>free_list := p\<rparr>" and ?m = "m(p := free_list slab)"
  have c: "chain ?m p (p # fl)" using Suc.prems chain_frame [of p fl m] by auto
  have l: "map (\<lambda>i. p + i * ?s) [0..<Suc n] = p # map (\<lambda>i. p + ?s + i * ?s) [0..<n]"
    by (simp add: upt_conv_Cons map_Suc_upt [symmetric] del: upt_Suc)
  obtain m' where m': "create_free_list_loop n (p + ?s) (?slab, ?m) =
      (?slab\<lparr>free_list := hd (rev (map (\<lambda>i. p + ?s + i * ?s) [0..<n]) @ [p])\<rparr>, m')"
    "chain m' (hd (rev (map (\<lambda>i. p + ?s + i * ?s) [0..<n]) @ [p])) (rev (map (\<lambda>i. p + ?s + i * ?s) [0..<n]) @ p # fl)"
    using Suc.IH [of ?m ?slab "p # fl" "p + ?s"] c Suc.prems by fastforce
  then show ?case unfolding l by (auto simp: hd_append)
qed simp

lemma create_free_list_ok:
  assumes "slab_wf slab" "num_used slab = 0" "create_free_list (slab, m) = (rc, s')"
  shows "rc = 0 \<and> slab_rep s' (rev (blocks slab)) \<or>
    rc = - EINVAL \<and> s' = (slab, m) \<and> (block_size slab OR slab_buffer slab) AND 7 \<noteq> 0"
proof (cases "(block_size slab OR slab_buffer slab) AND 7 \<noteq> 0")
  case False
  let ?slab = "slab\<lparr>free_list := 0\<rparr>"
  let ?bs = "rev (blocks slab)"
  have "rev (map (\<lambda>i. slab_buffer slab + i * block_size slab) [0..<unat (num_blocks slab)]) = ?bs"
    by (simp add: blocks_def)
  then obtain m' where "create_free_list_loop (unat (num_blocks slab)) (slab_buffer slab) (?slab, m) =
      (?slab\<lparr>free_list := hd (?bs @ [0])\<rparr>, m')" "chain m' (hd (?bs @ [0])) (?bs @ [])"
    using create_free_list_loop_chain [of m ?slab "[]" "slab_buffer slab" "unat (num_blocks slab)"] assms(1)
    by (auto simp: slab_wf_def)
  then show ?thesis
    using assms False distinct_blocks [OF assms(1)] by (auto simp: create_free_list_def slab_rep_def)
qed (use assms in \<open>auto simp: create_free_list_def\<close>)

section \<open>Allocating and freeing\<close>

definition slab_ok :: "k_mem_slab \<times> words \<Rightarrow> tid \<Rightarrow> tid list \<Rightarrow> bool" where
  "slab_ok s idle ws \<longleftrightarrow> (\<exists>fl. slab_rep s fl \<and> (ws \<noteq> [] \<longrightarrow> fl = []))"

lemma slab_rep_free: "slab_rep (slab, m) fl \<Longrightarrow> free_list slab = (if fl = [] then 0 else hd fl)"
  by (cases fl) (auto simp: slab_rep_def)

lemma slab_alloc_rep:
  assumes "slab_rep (slab, m) (b # fl)"
  shows "slab_rep (slab\<lparr>free_list := m b, num_used := num_used slab + 1\<rparr>, m) fl"
proof -
  have r: "unat (num_used slab) + length (b # fl) = unat (num_blocks slab)" using assms by (simp add: slab_rep_def)
  then have "unat (num_used slab) + 1 < 2 ^ 32"
    using unsigned_less [where 'a = nat and w = "num_blocks slab"] by simp
  then have "unat (num_used slab + 1) = unat (num_used slab) + 1" by (simp add: unat_word_ariths(1))
  then show ?thesis using assms r by (simp add: slab_rep_def)
qed

lemma slab_free_rep:
  assumes "slab_rep (slab, m) fl" "b \<in> set (blocks slab)" "b \<notin> set fl"
  shows "slab_rep (slab\<lparr>free_list := b, num_used := num_used slab - 1\<rparr>, m(b := free_list slab)) (b # fl)"
proof -
  have wf: "slab_wf slab" and sub: "distinct fl" "set fl \<subseteq> set (blocks slab)"
    and n: "unat (num_used slab) + length fl = unat (num_blocks slab)"
    using assms(1) by (simp_all add: slab_rep_def)
  have "length (b # fl) \<le> length (blocks slab)"
    using sub assms(2,3) distinct_blocks [OF wf]
    by (metis card_mono distinct.simps(2) distinct_card insert_subset list.simps(15) List.finite_set)
  then have "0 < unat (num_used slab)" using n by simp
  then have "unat (num_used slab - 1) = unat (num_used slab) - 1" "0 < unat (num_used slab)"
    by (simp_all add: unat_minus_one unat_gt_0)
  moreover have "b \<noteq> 0" using assms(2) wf by (auto simp: blocks_def slab_wf_def)
  ultimately show ?thesis using assms n chain_frame [OF assms(3)] by (simp add: slab_rep_def)
qed

lemma k_mem_slab_alloc_effect:
  assumes "sched_ok k" "running k \<or> d = K_NO_WAIT" "slab_rep (slab, m) fl"
    and "waitqs k (ObjQ (slab_wait_q slab)) \<noteq> [] \<Longrightarrow> fl = []"
    and "k_mem_slab_alloc 0 d ((slab, m), k) = (r, ((slab', m'), k'))"
  shows "sched_ok k' \<and> idle0 k' = idle0 k \<and> m' = m \<and> slab_wait_q slab' = slab_wait_q slab \<and>
    blocks slab' = blocks slab \<and> slab_rep (slab', m') (tl fl) \<and>
    (waitqs k' (ObjQ (slab_wait_q slab)) \<noteq> [] \<longrightarrow> tl fl = []) \<and>
    (n \<noteq> slab_wait_q slab \<longrightarrow> waitqs k' (ObjQ n) = waitqs k (ObjQ n)) \<and>
    r = (if fl \<noteq> [] then Returned (0, hd fl) else if d = K_NO_WAIT then Returned (- ENOMEM, 0) else Blocked)"
proof (cases fl)
  case Nil
  then show ?thesis
    using assms slab_rep_free [OF assms(3)]
    by (auto simp: k_mem_slab_alloc_def sched_ok_block waitqs_z_pend_curr split: if_splits)
next
  case (Cons b bs)
  have "b \<noteq> 0" using assms(3) Cons by (auto simp: slab_rep_def)
  then show ?thesis
    using assms slab_rep_free [OF assms(3)] Cons slab_alloc_rep [of slab m b bs]
    by (auto simp: k_mem_slab_alloc_def Let_def)
qed

lemma k_mem_slab_free_effect:
  assumes "sched_ok k" "slab_rep (slab, m) fl" "b \<in> set (blocks slab)" "b \<notin> set fl"
    and "waitqs k (ObjQ (slab_wait_q slab)) \<noteq> [] \<Longrightarrow> fl = []"
    and "k_mem_slab_free 0 b ((slab, m), k) = ((slab', m'), k')"
  shows "sched_ok k' \<and> idle0 k' = idle0 k \<and> slab_wait_q slab' = slab_wait_q slab \<and>
    blocks slab' = blocks slab \<and>
    slab_rep (slab', m') (if waitqs k (ObjQ (slab_wait_q slab)) = [] then b # fl else []) \<and>
    waitqs k' = (waitqs k)(ObjQ (slab_wait_q slab) := tl (waitqs k (ObjQ (slab_wait_q slab))))"
proof (cases "waitqs k (ObjQ (slab_wait_q slab))")
  case Nil
  then have "k_mem_slab_free 0 b ((slab, m), k) =
      ((slab\<lparr>free_list := b, num_used := num_used slab - 1\<rparr>, m(b := free_list slab)), k)"
    by (simp add: k_mem_slab_free_def z_unpend_first_thread_cases)
  then show ?thesis using assms Nil slab_free_rep [OF assms(2-4)] by auto
next
  case (Cons t ts)
  then have fl: "fl = []" "free_list slab = 0" using assms(5) slab_rep_free [OF assms(2)] by auto
  have k': "k' = z_reschedule 0 (z_ready_thread 0 t (z_thread_return_value_set_with_data t 0 (of_nat b)
      (snd (z_unpend_first_thread (ObjQ (slab_wait_q slab)) k))))" "slab' = slab" "m' = m"
    using assms(6) Cons fl by (auto simp: k_mem_slab_free_def z_unpend_first_thread_cases)
  have "sched_ok k'" "idle0 k' = idle0 k" "waitqs k' = (waitqs k)(ObjQ (slab_wait_q slab) := ts)"
    using wake_and_reschedule [OF assms(1) Cons refl, where v = 0 and d = "of_nat b" and k' = k'] k'(1)
    by simp_all
  then show ?thesis using k'(2,3) assms(2) fl Cons by simp
qed

section \<open>The contract\<close>

text \<open>A thread also writes to blocks it owns, never to a free one.\<close>

inductive slab_step :: "(k_mem_slab \<times> words) \<times> kernel \<Rightarrow> (k_mem_slab \<times> words) \<times> kernel \<Rightarrow> bool" where
  alloc: "running k \<or> d = K_NO_WAIT \<Longrightarrow> k_mem_slab_alloc 0 d (s, k) = (r, s') \<Longrightarrow> slab_step (s, k) s'"
| free: "slab_rep s fl \<Longrightarrow> b \<in> set (blocks (fst s)) \<Longrightarrow> b \<notin> set fl \<Longrightarrow> slab_step (s, k) (k_mem_slab_free 0 b (s, k))"
| user_write: "slab_rep (slab, m) fl \<Longrightarrow> a \<notin> set fl \<Longrightarrow> slab_step ((slab, m), k) ((slab, m(a := v)), k)"

definition slab_wq :: "k_mem_slab \<times> words \<Rightarrow> nat" where "slab_wq s = slab_wait_q (fst s)"

lemma slab_rep_unique: "slab_rep s fl \<Longrightarrow> slab_rep s fl' \<Longrightarrow> fl' = fl"
  using chain_unique [of "snd s" "free_list (fst s)" fl' fl] by (cases s) (simp add: slab_rep_def)

lemma slab_step_effect:
  assumes "slab_step (s, k) (s', k')" "sched_ok k" "slab_ok s (idle0 k) (waitqs k (ObjQ (slab_wq s)))"
  shows "sched_ok k' \<and> idle0 k' = idle0 k \<and> slab_wq s' = slab_wq s \<and>
    slab_ok s' (idle0 k) (waitqs k' (ObjQ (slab_wq s))) \<and>
    (n \<noteq> slab_wq s \<longrightarrow> waitqs k' (ObjQ n) = waitqs k (ObjQ n))"
proof -
  obtain slab m slab' m' where s: "s = (slab, m)" "s' = (slab', m')" by (cases s, cases s')
  obtain fl where fl: "slab_rep (slab, m) fl" "waitqs k (ObjQ (slab_wait_q slab)) \<noteq> [] \<Longrightarrow> fl = []"
    using assms(3) s by (auto simp: slab_ok_def slab_wq_def)
  show ?thesis using assms(1)
  proof cases
    case (alloc d r)
    show ?thesis
      using k_mem_slab_alloc_effect [OF assms(2) alloc(1) fl alloc(2) [unfolded s]] s
      by (auto simp: slab_ok_def slab_wq_def)
  next
    case (free fl' b)
    have "fl' = fl" using slab_rep_unique [OF fl(1)] free(2) s by simp
    then have b: "b \<in> set (blocks slab)" "b \<notin> set fl" using free s by auto
    have e: "k_mem_slab_free 0 b ((slab, m), k) = ((slab', m'), k')" using free(1) s by simp
    show ?thesis
      using k_mem_slab_free_effect [OF assms(2) fl(1) b fl(2) e] s
      by (cases "waitqs k (ObjQ (slab_wait_q slab))") (auto simp: slab_ok_def slab_wq_def)
  next
    case (user_write sl w fl' a v)
    have e: "sl = slab" "w = m" "slab' = slab" "m' = m(a := v)" "k' = k" using user_write(1-3) s by auto
    have "fl' = fl" using slab_rep_unique [OF fl(1)] user_write(4) e by simp
    then have "slab_rep (slab, m(a := v)) fl"
      using user_write(4,5) e chain_frame [of a fl m v "free_list slab"] by (simp add: slab_rep_def)
    then show ?thesis using fl(2) assms(2) e s by (auto simp: slab_ok_def slab_wq_def)
  qed
qed

interpretation slab: kernel_object slab_step slab_wq slab_ok
proof unfold_locales
  show "slab_ok ob i ws \<Longrightarrow> set ws' \<subseteq> set ws \<Longrightarrow> slab_ok ob i ws'" for ob i ws ws'
    by (auto simp: slab_ok_def)
qed (auto dest: slab_step_effect)

section \<open>Properties\<close>


definition sample_slab :: k_mem_slab where
  "sample_slab = \<lparr>slab_wait_q = 9, num_blocks = 2, block_size = 8, slab_buffer = 16, free_list = 0, num_used = 0\<rparr>"

definition sample_free :: "k_mem_slab \<times> words" where
  "sample_free = snd (create_free_list (sample_slab, \<lambda>_. 0))"




end
