(* ===== verification/Sflist.thy ===== *)
theory Sflist
  imports Kernel_Prelude
begin

text \<open>
  Flagged singly linked lists, \<^verbatim>\<open>include/sys/sflist.h\<close> and the macros of
  \<^verbatim>\<open>include/sys/list_gen.h\<close> it instantiates. A node is one 64-bit word that holds the
  address of the next node and, in its two low bits, flags of the user. The operations
  refine those on lists of node addresses and keep the flags of every node.
\<close>

section \<open>Definitions\<close>

type_synonym sfmem = "ptr \<Rightarrow> u64"
  \<comment> \<open>\<^verbatim>\<open>node->next_and_flags\<close> by node address\<close>

record sys_sflist =
  sf_head :: ptr
  sf_tail :: ptr

abbreviation (input) SYS_SFLIST_FLAGS_MASK :: u64 where "SYS_SFLIST_FLAGS_MASK \<equiv> 3"

definition sys_sflist_init :: sys_sflist where
  "sys_sflist_init = \<lparr>sf_head = 0, sf_tail = 0\<rparr>"

definition z_sfnode_next_peek :: "sfmem \<Rightarrow> ptr \<Rightarrow> ptr" where
  "z_sfnode_next_peek m node = m node AND NOT SYS_SFLIST_FLAGS_MASK"

definition sys_sfnode_flags_get :: "sfmem \<Rightarrow> ptr \<Rightarrow> u64" where
  "sys_sfnode_flags_get m node = m node AND SYS_SFLIST_FLAGS_MASK"

definition z_sfnode_next_set :: "ptr \<Rightarrow> ptr \<Rightarrow> sfmem \<Rightarrow> sfmem" where
  "z_sfnode_next_set parent child m = m(parent := sys_sfnode_flags_get m parent OR child)"

definition sys_sfnode_init :: "ptr \<Rightarrow> u64 \<Rightarrow> sfmem \<Rightarrow> sfmem" where
  "sys_sfnode_init node flags m = m(node := flags)"

definition sys_sfnode_flags_set :: "ptr \<Rightarrow> u64 \<Rightarrow> sfmem \<Rightarrow> sfmem" where
  "sys_sfnode_flags_set node flags m = m(node := z_sfnode_next_peek m node OR flags)"

definition sys_sflist_peek_head :: "sys_sflist \<Rightarrow> ptr" where
  "sys_sflist_peek_head l = sf_head l"

definition sys_sflist_peek_tail :: "sys_sflist \<Rightarrow> ptr" where
  "sys_sflist_peek_tail l = sf_tail l"

definition sys_sflist_is_empty :: "sys_sflist \<Rightarrow> bool" where
  "sys_sflist_is_empty l \<longleftrightarrow> sys_sflist_peek_head l = 0"

definition sys_sflist_peek_next :: "sfmem \<Rightarrow> ptr \<Rightarrow> ptr" where
  "sys_sflist_peek_next m node = (if node \<noteq> 0 then z_sfnode_next_peek m node else 0)"

definition sys_sflist_prepend :: "ptr \<Rightarrow> sys_sflist \<times> sfmem \<Rightarrow> sys_sflist \<times> sfmem" where
  "sys_sflist_prepend node s =
     (let (l, m) = s;
          m = z_sfnode_next_set node (sys_sflist_peek_head l) m;
          l = l\<lparr>sf_head := node\<rparr>
      in if sys_sflist_peek_tail l = 0 then (l\<lparr>sf_tail := sys_sflist_peek_head l\<rparr>, m) else (l, m))"

definition sys_sflist_append :: "ptr \<Rightarrow> sys_sflist \<times> sfmem \<Rightarrow> sys_sflist \<times> sfmem" where
  "sys_sflist_append node s =
     (let (l, m) = s;
          m = z_sfnode_next_set node 0 m
      in if sys_sflist_peek_tail l = 0 then (l\<lparr>sf_tail := node, sf_head := node\<rparr>, m)
         else (l\<lparr>sf_tail := node\<rparr>, z_sfnode_next_set (sys_sflist_peek_tail l) node m))"

definition sys_sflist_append_list :: "ptr \<Rightarrow> ptr \<Rightarrow> sys_sflist \<times> sfmem \<Rightarrow> sys_sflist \<times> sfmem" where
  "sys_sflist_append_list head tail s =
     (let (l, m) = s
      in if sys_sflist_peek_tail l = 0 then (l\<lparr>sf_head := head, sf_tail := tail\<rparr>, m)
         else (l\<lparr>sf_tail := tail\<rparr>, z_sfnode_next_set (sys_sflist_peek_tail l) head m))"

definition sys_sflist_merge_sflist ::
  "sys_sflist \<Rightarrow> sys_sflist \<times> sfmem \<Rightarrow> sys_sflist \<times> (sys_sflist \<times> sfmem)" where
  "sys_sflist_merge_sflist list_to_append s =
     (sys_sflist_init,
      sys_sflist_append_list (sys_sflist_peek_head list_to_append) (sys_sflist_peek_tail list_to_append) s)"

definition sys_sflist_insert :: "ptr \<Rightarrow> ptr \<Rightarrow> sys_sflist \<times> sfmem \<Rightarrow> sys_sflist \<times> sfmem" where
  "sys_sflist_insert prev node s =
     (let (l, m) = s
      in if prev = 0 then sys_sflist_prepend node s
         else if z_sfnode_next_peek m prev = 0 then sys_sflist_append node s
         else
           let m = z_sfnode_next_set node (z_sfnode_next_peek m prev) m
           in (l, z_sfnode_next_set prev node m))"

definition sys_sflist_get_not_empty :: "sys_sflist \<times> sfmem \<Rightarrow> ptr \<times> (sys_sflist \<times> sfmem)" where
  "sys_sflist_get_not_empty s =
     (let (l, m) = s;
          node = sys_sflist_peek_head l;
          l = l\<lparr>sf_head := z_sfnode_next_peek m node\<rparr>
      in (node, (if sys_sflist_peek_tail l = node then l\<lparr>sf_tail := sys_sflist_peek_head l\<rparr> else l, m)))"

definition sys_sflist_get :: "sys_sflist \<times> sfmem \<Rightarrow> ptr \<times> (sys_sflist \<times> sfmem)" where
  "sys_sflist_get s = (if sys_sflist_is_empty (fst s) then (0, s) else sys_sflist_get_not_empty s)"

definition sys_sflist_remove :: "ptr \<Rightarrow> ptr \<Rightarrow> sys_sflist \<times> sfmem \<Rightarrow> sys_sflist \<times> sfmem" where
  "sys_sflist_remove prev_node node s =
     (let (l, m) = s;
          (l, m) =
            (if prev_node = 0 then
               let l = l\<lparr>sf_head := z_sfnode_next_peek m node\<rparr>
               in (if sys_sflist_peek_tail l = node then l\<lparr>sf_tail := sys_sflist_peek_head l\<rparr> else l, m)
             else
               let m = z_sfnode_next_set prev_node (z_sfnode_next_peek m node) m
               in (if sys_sflist_peek_tail l = node then l\<lparr>sf_tail := prev_node\<rparr> else l, m))
      in (l, z_sfnode_next_set node 0 m))"

text \<open>The search walks the list from \<open>test\<close> with \<open>prev\<close> behind it; \<open>n\<close> bounds the walk.\<close>

fun sflist_search :: "nat \<Rightarrow> sfmem \<Rightarrow> ptr \<Rightarrow> ptr \<Rightarrow> ptr \<Rightarrow> ptr option" where
  "sflist_search 0 m node prev test = None"
| "sflist_search (Suc n) m node prev test =
     (if test = 0 then None
      else if test = node then Some prev
      else sflist_search n m node test (sys_sflist_peek_next m test))"

definition sys_sflist_find_and_remove ::
  "nat \<Rightarrow> ptr \<Rightarrow> sys_sflist \<times> sfmem \<Rightarrow> bool \<times> (sys_sflist \<times> sfmem)" where
  "sys_sflist_find_and_remove n node s =
     (case sflist_search n (snd s) node 0 (sys_sflist_peek_head (fst s)) of
        Some prev \<Rightarrow> (True, sys_sflist_remove prev node s)
      | None \<Rightarrow> (False, s))"

section \<open>Words\<close>

definition aligned :: "ptr \<Rightarrow> bool" where
  "aligned p \<longleftrightarrow> p AND 3 = 0"

lemma masked_or:
  fixes a c M :: u64
  assumes "c AND M = 0"
  shows "(a AND M OR c) AND NOT M = c" "(a AND M OR c) AND M = a AND M"
proof -
  have "\<not> (bit c n \<and> bit M n)" for n
    using assms by (metis bit_0_eq bit_and_iff bot_apply bot_bool_def)
  then show "(a AND M OR c) AND NOT M = c" "(a AND M OR c) AND M = a AND M"
    by (auto simp: bit_eq_iff bit_simps)
qed

lemma aligned_0 [simp]: "aligned 0" by (simp add: aligned_def)

lemma aligned_next: "aligned (z_sfnode_next_peek m x)"
proof -
  have "(w AND NOT M) AND M = 0" for w M :: u64
    by (auto simp: bit_eq_iff bit_simps)
  then show ?thesis unfolding aligned_def z_sfnode_next_peek_def .
qed

lemma next_set_next:
  "aligned c \<Longrightarrow>
   z_sfnode_next_peek (z_sfnode_next_set p c m) x = (if x = p then c else z_sfnode_next_peek m x)"
  using masked_or(1) [of c 3 "m p"]
  by (simp add: aligned_def z_sfnode_next_peek_def z_sfnode_next_set_def sys_sfnode_flags_get_def)

lemma next_set_flags:
  "aligned c \<Longrightarrow>
   sys_sfnode_flags_get (z_sfnode_next_set p c m) x = sys_sfnode_flags_get m x"
  using masked_or(2) [of c 3 "m p"]
  by (simp add: aligned_def z_sfnode_next_set_def sys_sfnode_flags_get_def)

lemma flags_set_next_flags:
  assumes "f < 4"
  shows "z_sfnode_next_peek (sys_sfnode_flags_set p f m) x = z_sfnode_next_peek m x"
    and "sys_sfnode_flags_get (sys_sfnode_flags_set p f m) p = f"
proof -
  have "unat f < 4" using assms by (simp add: word_less_nat_alt)
  then have "unat f = 0 \<or> unat f = 1 \<or> unat f = 2 \<or> unat f = 3" by auto
  then have "f \<in> {0, 1, 2, 3}" by (simp add: word_unat_eq_iff)
  then have f: "f AND 3 = f" by auto
  have "(w AND NOT M OR f') AND NOT M = w AND NOT M" "(w AND NOT M OR f') AND M = f'"
    if "f' AND M = f'" for w M f' :: u64
    using that by (auto simp: bit_eq_iff bit_simps)
  from this [OF f, of "m p"]
  show "z_sfnode_next_peek (sys_sfnode_flags_set p f m) x = z_sfnode_next_peek m x"
    and "sys_sfnode_flags_get (sys_sfnode_flags_set p f m) p = f"
    unfolding z_sfnode_next_peek_def sys_sfnode_flags_set_def sys_sfnode_flags_get_def by simp_all
qed

section \<open>The list a structure holds\<close>

fun sf_path :: "sfmem \<Rightarrow> ptr \<Rightarrow> ptr list \<Rightarrow> ptr \<Rightarrow> bool" where
  "sf_path m p [] q \<longleftrightarrow> p = q"
| "sf_path m p (x # xs) q \<longleftrightarrow>
     p = x \<and> x \<noteq> 0 \<and> aligned x \<and> sf_path m (z_sfnode_next_peek m x) xs q"

definition sf_list :: "sys_sflist \<times> sfmem \<Rightarrow> ptr list \<Rightarrow> bool" where
  "sf_list s xs \<longleftrightarrow>
     (let (l, m) = s in
      distinct xs \<and> sf_path m (sf_head l) xs 0 \<and> sf_tail l = (if xs = [] then 0 else last xs))"

lemma sf_path_append: "sf_path m p (xs @ ys) r \<longleftrightarrow> (\<exists>q. sf_path m p xs q \<and> sf_path m q ys r)"
  by (induction xs arbitrary: p) auto

lemma sf_path_nodes: "sf_path m p xs q \<Longrightarrow> x \<in> set xs \<Longrightarrow> x \<noteq> 0 \<and> aligned x"
  by (induction xs arbitrary: p) auto

lemma sf_path_cong:
  "(\<And>x. x \<in> set xs \<Longrightarrow> z_sfnode_next_peek m' x = z_sfnode_next_peek m x) \<Longrightarrow>
   sf_path m' p xs q = sf_path m p xs q"
  by (induction xs arbitrary: p) auto

lemma sf_path_next_set:
  "aligned c \<Longrightarrow> y \<notin> set xs \<Longrightarrow> sf_path (z_sfnode_next_set y c m) p xs q = sf_path m p xs q"
  by (rule sf_path_cong) (auto simp: next_set_next)

lemma sf_path_snoc_set:
  "sf_path m p (xs @ [y]) q \<Longrightarrow> y \<notin> set xs \<Longrightarrow> aligned c \<Longrightarrow>
   sf_path (z_sfnode_next_set y c m) p (xs @ [y]) c"
  by (auto simp: sf_path_append sf_path_next_set next_set_next)

lemma sf_list_head: "sf_list (l, m) xs \<Longrightarrow> sf_head l = (if xs = [] then 0 else hd xs)"
  by (cases xs) (auto simp: sf_list_def)

lemma sf_list_tail: "sf_list (l, m) xs \<Longrightarrow> sf_tail l = (if xs = [] then 0 else last xs)"
  by (auto simp: sf_list_def)

lemma sf_list_nodes: "sf_list (l, m) xs \<Longrightarrow> x \<in> set xs \<Longrightarrow> x \<noteq> 0 \<and> aligned x"
  by (auto simp: sf_list_def dest: sf_path_nodes)

lemma sf_list_init [simp]: "sf_list (sys_sflist_init, m) []"
  by (simp add: sf_list_def sys_sflist_init_def)

lemma sf_list_is_empty: "sf_list (l, m) xs \<Longrightarrow> sys_sflist_is_empty l \<longleftrightarrow> xs = []"
  using sf_list_head sf_list_nodes [of l m xs "hd xs"]
  by (auto simp: sys_sflist_is_empty_def sys_sflist_peek_head_def)

lemma sf_list_frame:
  assumes "sf_list (l, m) xs" "\<And>x. x \<in> set xs \<Longrightarrow> z_sfnode_next_peek m' x = z_sfnode_next_peek m x"
  shows "sf_list (l, m') xs"
  using assms sf_path_cong [of xs m' m "sf_head l" 0] by (simp add: sf_list_def)

section \<open>The operations refine those on lists\<close>

definition same_flags :: "sfmem \<Rightarrow> sfmem \<Rightarrow> bool" where
  "same_flags m m' \<longleftrightarrow> sys_sfnode_flags_get m' = sys_sfnode_flags_get m"

lemma same_flags_refl [simp]: "same_flags m m" by (simp add: same_flags_def)

lemma same_flags_set: "same_flags m m' \<Longrightarrow> aligned c \<Longrightarrow> same_flags m (z_sfnode_next_set p c m')"
  by (auto simp: same_flags_def next_set_flags)

lemma sys_sflist_prepend_list:
  assumes "sf_list (l, m) xs" "n \<notin> set xs" "n \<noteq> 0" "aligned n"
    "sys_sflist_prepend n (l, m) = (l', m')"
  shows "sf_list (l', m') (n # xs)" "same_flags m m'"
    "\<And>x. x \<noteq> n \<Longrightarrow> z_sfnode_next_peek m' x = z_sfnode_next_peek m x"
proof -
  have h: "aligned (sf_head l)" using sf_list_head [OF assms(1)] sf_list_nodes [OF assms(1), of "hd xs"] by (cases xs) auto
  have m': "m' = z_sfnode_next_set n (sf_head l) m"
    and l': "l' = (if sf_tail l = 0 then l\<lparr>sf_head := n, sf_tail := n\<rparr> else l\<lparr>sf_head := n\<rparr>)"
    using assms(5)
    by (auto simp: sys_sflist_prepend_def Let_def sys_sflist_peek_head_def sys_sflist_peek_tail_def split: if_splits)
  show "sf_list (l', m') (n # xs)"
    using assms(1-4) h sf_list_nodes [OF assms(1), of "last xs"]
    by (auto simp: sf_list_def l' m' next_set_next sf_path_next_set)
  show "same_flags m m'" by (simp add: m' same_flags_set h)
  show "\<And>x. x \<noteq> n \<Longrightarrow> z_sfnode_next_peek m' x = z_sfnode_next_peek m x"
    by (simp add: m' next_set_next h)
qed

lemma sys_sflist_append_list_list:
  assumes "sf_list (l, m) xs" "sf_path m h ys 0" "ys \<noteq> []" "distinct ys" "set xs \<inter> set ys = {}"
    "sys_sflist_append_list h (last ys) (l, m) = (l', m')"
  shows "sf_list (l', m') (xs @ ys)" "same_flags m m'"
    "\<And>x. x \<notin> set xs \<Longrightarrow> z_sfnode_next_peek m' x = z_sfnode_next_peek m x"
proof -
  have h: "aligned h" using assms(2,3) by (cases ys) auto
  show "sf_list (l', m') (xs @ ys)"
  proof (cases "xs = []")
    case True
    then show ?thesis
      using assms by (auto simp: sys_sflist_append_list_def sys_sflist_peek_tail_def sf_list_def)
  next
    case False
    then obtain zs z where xs: "xs = zs @ [z]" by (cases xs rule: rev_cases) auto
    have z: "sf_tail l = z" "z \<noteq> 0"
      using sf_list_tail [OF assms(1)] sf_list_nodes [OF assms(1), of z] by (simp_all add: xs)
    then have "l' = l\<lparr>sf_tail := last ys\<rparr>" "m' = z_sfnode_next_set z h m"
      using assms(6) by (auto simp: sys_sflist_append_list_def sys_sflist_peek_tail_def)
    moreover have "sf_path (z_sfnode_next_set z h m) (sf_head l) xs h"
      using assms(1) h sf_path_snoc_set [of m "sf_head l" zs z 0 h] by (simp add: sf_list_def xs)
    moreover have "sf_path (z_sfnode_next_set z h m) h ys 0"
      using assms(2,5) h by (subst sf_path_next_set) (auto simp: xs)
    ultimately show ?thesis
      using assms(1,3-5) by (auto simp: sf_list_def sf_path_append)
  qed
  show "same_flags m m'"
    using assms(6) h by (auto simp: sys_sflist_append_list_def same_flags_set split: if_splits)
  show "\<And>x. x \<notin> set xs \<Longrightarrow> z_sfnode_next_peek m' x = z_sfnode_next_peek m x"
    using assms(6) h sf_list_tail [OF assms(1)]
    by (auto simp: sys_sflist_append_list_def sys_sflist_peek_tail_def next_set_next split: if_splits)
qed

text \<open>Appending one node is appending the list of that node, once its link is cleared.\<close>

lemma sys_sflist_append_as_list:
  "sys_sflist_append n (l, m) = sys_sflist_append_list n n (l, z_sfnode_next_set n 0 m)"
  by (auto simp: sys_sflist_append_def sys_sflist_append_list_def Let_def)

lemma sys_sflist_append_node_list:
  assumes "sf_list (l, m) xs" "n \<notin> set xs" "n \<noteq> 0" "aligned n"
    "sys_sflist_append n (l, m) = (l', m')"
  shows "sf_list (l', m') (xs @ [n])" "same_flags m m'"
    "\<And>x. x \<notin> insert n (set xs) \<Longrightarrow> z_sfnode_next_peek m' x = z_sfnode_next_peek m x"
proof -
  let ?m = "z_sfnode_next_set n 0 m"
  have s: "sf_list (l, ?m) xs"
    using assms(2) by (intro sf_list_frame [OF assms(1)]) (auto simp: next_set_next)
  have p: "sf_path ?m n [n] 0" using assms(3,4) by (simp add: next_set_next)
  note L = sys_sflist_append_list_list [OF s p, of l' m', simplified, OF assms(2)
      assms(5) [unfolded sys_sflist_append_as_list]]
  show "sf_list (l', m') (xs @ [n])" by (rule L(1))
  show "same_flags m m'" using L(2) same_flags_set [of m m 0 n] by (simp add: same_flags_def)
  show "\<And>x. x \<notin> insert n (set xs) \<Longrightarrow> z_sfnode_next_peek m' x = z_sfnode_next_peek m x"
    using L(3) by (simp add: next_set_next)
qed

lemma sys_sflist_insert_list:
  assumes "sf_list (l, m) (xs @ p # ys)" "n \<notin> set (xs @ p # ys)" "n \<noteq> 0" "aligned n"
    "sys_sflist_insert p n (l, m) = (l', m')"
  shows "sf_list (l', m') (xs @ p # n # ys)" "same_flags m m'"
    "\<And>x. x \<notin> insert n (set (xs @ p # ys)) \<Longrightarrow> z_sfnode_next_peek m' x = z_sfnode_next_peek m x"
proof -
  have p: "p \<noteq> 0" "aligned p" using sf_list_nodes [OF assms(1), of p] by simp_all
  have nx: "z_sfnode_next_peek m p = (if ys = [] then 0 else hd ys)"
    using assms(1) by (cases ys) (auto simp: sf_list_def sf_path_append)
  have "sf_list (l', m') (xs @ p # n # ys) \<and> same_flags m m' \<and>
        (\<forall>x. x \<notin> insert n (set (xs @ p # ys)) \<longrightarrow> z_sfnode_next_peek m' x = z_sfnode_next_peek m x)"
  proof (cases "ys = []")
    case True
    then have "sys_sflist_append n (l, m) = (l', m')"
      using assms(5) p nx by (simp add: sys_sflist_insert_def)
    from sys_sflist_append_node_list [OF assms(1-4) this] True show ?thesis by simp
  next
    case False
    then obtain y zs where ys: "ys = y # zs" by (cases ys) auto
    have y: "y \<noteq> 0" "aligned y" using sf_list_nodes [OF assms(1), of y] by (simp_all add: ys)
    have e: "l' = l" "m' = z_sfnode_next_set p n (z_sfnode_next_set n y m)"
      using assms(5) p nx y by (simp_all add: sys_sflist_insert_def ys Let_def)
    have "sf_list (l', m') (xs @ p # n # ys)"
      using assms(1-4) p y
      by (auto simp: sf_list_def sf_path_append e ys next_set_next sf_path_next_set)
    then show ?thesis using y assms(4) by (auto simp: e next_set_next same_flags_set)
  qed
  then show "sf_list (l', m') (xs @ p # n # ys)" "same_flags m m'"
    "\<And>x. x \<notin> insert n (set (xs @ p # ys)) \<Longrightarrow> z_sfnode_next_peek m' x = z_sfnode_next_peek m x"
    by auto
qed

lemma sys_sflist_get_list:
  assumes "sf_list (l, m) xs" "sys_sflist_get (l, m) = (n, l', m')"
  shows "m' = m" "sf_list (l', m') (tl xs)" "n = (if xs = [] then 0 else hd xs)"
proof -
  have "m' = m \<and> sf_list (l', m') (tl xs) \<and> n = (if xs = [] then 0 else hd xs)"
  proof (cases xs)
    case Nil
    then show ?thesis using assms sf_list_is_empty [OF assms(1)] by (simp add: sys_sflist_get_def)
  next
    case (Cons x ys)
    then have "sys_sflist_get_not_empty (l, m) = (n, l', m')"
      using assms sf_list_is_empty [OF assms(1)] by (simp add: sys_sflist_get_def)
    then show ?thesis
      using assms(1) last_in_set [of ys]
      by (cases ys)
        (auto simp: Cons sys_sflist_get_not_empty_def Let_def sys_sflist_peek_head_def
           sys_sflist_peek_tail_def sf_list_def split: if_splits)
  qed
  then show "m' = m" "sf_list (l', m') (tl xs)" "n = (if xs = [] then 0 else hd xs)" by auto
qed

lemma sys_sflist_remove_list:
  assumes "sf_list (l, m) (xs @ n # ys)" "p = (if xs = [] then 0 else last xs)"
    "sys_sflist_remove p n (l, m) = (l', m')"
  shows "sf_list (l', m') (xs @ ys)" "same_flags m m'"
    "\<And>x. x \<notin> set (xs @ n # ys) \<Longrightarrow> z_sfnode_next_peek m' x = z_sfnode_next_peek m x"
proof -
  have nx: "z_sfnode_next_peek m n = (if ys = [] then 0 else hd ys)"
    using assms(1) by (cases ys) (auto simp: sf_list_def sf_path_append)
  have a: "aligned (z_sfnode_next_peek m n)" by (rule aligned_next)
  have "sf_list (l', m') (xs @ ys) \<and> same_flags m m' \<and>
        (\<forall>x. x \<notin> set (xs @ n # ys) \<longrightarrow> z_sfnode_next_peek m' x = z_sfnode_next_peek m x)"
  proof (cases xs rule: rev_cases)
    case Nil
    then show ?thesis
      using assms nx a
      by (auto simp: sys_sflist_remove_def Let_def sys_sflist_peek_head_def sys_sflist_peek_tail_def
          sf_list_def sf_path_next_set same_flags_set next_set_next split: if_splits)
  next
    case (snoc zs z)
    have z: "z \<noteq> 0" "aligned z" using sf_list_nodes [OF assms(1), of z] by (simp_all add: snoc)
    show ?thesis
      using assms nx a z
      by (auto simp: snoc sys_sflist_remove_def Let_def sys_sflist_peek_head_def sys_sflist_peek_tail_def
          sf_list_def sf_path_append sf_path_next_set same_flags_set next_set_next split: if_splits)
  qed
  then show "sf_list (l', m') (xs @ ys)" "same_flags m m'"
    "\<And>x. x \<notin> set (xs @ n # ys) \<Longrightarrow> z_sfnode_next_peek m' x = z_sfnode_next_peek m x"
    by auto
qed

lemma sflist_search_found:
  "sf_path m t (ys @ n # zs) 0 \<Longrightarrow> n \<notin> set ys \<Longrightarrow> length ys < k \<Longrightarrow>
   sflist_search k m n p t = Some (if ys = [] then p else last ys)"
proof (induction ys arbitrary: k p t)
  case Nil
  then show ?case by (cases k) auto
next
  case (Cons y ys)
  then obtain k' where k: "k = Suc k'" by (cases k) auto
  show ?case
    using Cons.IH [of "z_sfnode_next_peek m y" k' y] Cons.prems
    by (auto simp: k sys_sflist_peek_next_def)
qed

lemma sflist_search_not_found:
  "sf_path m t xs 0 \<Longrightarrow> n \<notin> set xs \<Longrightarrow> sflist_search k m n p t = None"
proof (induction k arbitrary: xs p t)
  case (Suc k)
  show ?case
    using Suc.IH [of _ "tl xs"] Suc.prems by (cases xs) (auto simp: sys_sflist_peek_next_def)
qed simp

lemma sys_sflist_find_and_remove_list:
  assumes "sf_list (l, m) xs" "length xs \<le> k"
    "sys_sflist_find_and_remove k n (l, m) = (b, l', m')"
  shows "sf_list (l', m') (remove1 n xs)" "same_flags m m'" "b \<longleftrightarrow> n \<in> set xs"
    "\<And>x. x \<notin> set xs \<Longrightarrow> z_sfnode_next_peek m' x = z_sfnode_next_peek m x"
proof -
  have path: "sf_path m (sf_head l) xs 0" using assms(1) by (simp add: sf_list_def)
  have "sf_list (l', m') (remove1 n xs) \<and> same_flags m m' \<and> (b \<longleftrightarrow> n \<in> set xs) \<and>
        (\<forall>x. x \<notin> set xs \<longrightarrow> z_sfnode_next_peek m' x = z_sfnode_next_peek m x)"
  proof (cases "n \<in> set xs")
    case True
    then obtain ys zs where xs: "xs = ys @ n # zs" "n \<notin> set ys" by (auto dest: split_list_first)
    then have "sys_sflist_remove (if ys = [] then 0 else last ys) n (l, m) = (l', m')" "b"
      using assms(2,3) sflist_search_found [of m "sf_head l" ys n zs k 0] path
      by (auto simp: sys_sflist_find_and_remove_def sys_sflist_peek_head_def)
    from sys_sflist_remove_list [OF assms(1) [unfolded xs(1)] refl this(1)] \<open>b\<close> True
    show ?thesis by (auto simp: xs remove1_append)
  next
    case False
    then show ?thesis
      using assms(1,3) sflist_search_not_found [OF path False]
      by (auto simp: sys_sflist_find_and_remove_def sys_sflist_peek_head_def remove1_idem)
  qed
  then show "sf_list (l', m') (remove1 n xs)" "same_flags m m'" "b \<longleftrightarrow> n \<in> set xs"
    "\<And>x. x \<notin> set xs \<Longrightarrow> z_sfnode_next_peek m' x = z_sfnode_next_peek m x" by auto
qed

lemma sys_sflist_merge_list:
  assumes "sf_list (l, m) xs" "sf_list (a, m) ys" "ys \<noteq> []" "set xs \<inter> set ys = {}"
    "sys_sflist_merge_sflist a (l, m) = (a', l', m')"
  shows "sf_list (l', m') (xs @ ys)" "sf_list (a', m') []" "same_flags m m'"
proof -
  have "a' = sys_sflist_init" and e: "sys_sflist_append_list (sf_head a) (last ys) (l, m) = (l', m')"
    using assms(3,5) sf_list_tail [OF assms(2)]
    by (simp_all add: sys_sflist_merge_sflist_def sys_sflist_peek_head_def sys_sflist_peek_tail_def)
  then show "sf_list (a', m') []" by simp
  have "sf_path m (sf_head a) ys 0" "distinct ys" using assms(2) by (simp_all add: sf_list_def)
  from sys_sflist_append_list_list [OF assms(1) this(1) assms(3) this(2) assms(4) e]
  show "sf_list (l', m') (xs @ ys)" "same_flags m m'" by blast+
qed

text \<open>
  Merging an empty list is not the identity: the tail of a non-empty list becomes null while
  its head stays, and the next append drops every node the list held.
\<close>

lemma sys_sflist_merge_empty_loses:
  assumes "sf_list (l, m) xs" "xs \<noteq> []" "sf_list (a, m) []" "n \<noteq> 0" "aligned n"
    "sys_sflist_merge_sflist a (l, m) = (a', l1, m1)" "sys_sflist_append n (l1, m1) = (l', m')"
  shows "sf_list (l', m') [n]"
proof -
  have "sf_head a = 0" "sf_tail a = 0" using assms(3) by (auto simp: sf_list_def)
  moreover have "sf_tail l \<noteq> 0"
    using sf_list_tail [OF assms(1)] sf_list_nodes [OF assms(1), of "last xs"] assms(2) by auto
  ultimately have "sf_tail l1 = 0"
    using assms(6) by (auto simp: sys_sflist_merge_sflist_def sys_sflist_append_list_def
        sys_sflist_peek_head_def sys_sflist_peek_tail_def)
  then show ?thesis
    using assms(4,5,7)
    by (auto simp: sys_sflist_append_def Let_def sys_sflist_peek_tail_def sf_list_def next_set_next)
qed

section \<open>Properties\<close>

text \<open>
  C29: Appending a node and removing it again is the identity on the list, finds the node,
  and changes the flags of no node, although flags and links share their words.
\<close>

theorem sflist_append_remove:
  assumes "sf_list (l, m) xs" "n \<notin> set xs" "n \<noteq> 0" "aligned n" "length xs < fuel"
    "sys_sflist_append n (l, m) = (l1, m1)" "sys_sflist_find_and_remove fuel n (l1, m1) = (found, l2, m2)"
  shows "sf_list (l1, m1) (xs @ [n]) \<and> found \<and> sf_list (l2, m2) xs \<and>
    sys_sfnode_flags_get m1 = sys_sfnode_flags_get m \<and> sys_sfnode_flags_get m2 = sys_sfnode_flags_get m"
proof -
  note a = sys_sflist_append_node_list [OF assms(1-4,6)]
  have "length (xs @ [n]) \<le> fuel" using assms(5) by simp
  note r = sys_sflist_find_and_remove_list [OF a(1) this assms(7)]
  show ?thesis using a r assms(2) by (simp add: same_flags_def remove1_append remove1_idem)
qed

text \<open>A list of two nodes; the first one carries flag 1.\<close>

definition sample_links :: sfmem where "sample_links = (\<lambda>_. 0)(8 := 17, 16 := 0)"
definition sample_sflist :: sys_sflist where "sample_sflist = \<lparr>sf_head = 8, sf_tail = 16\<rparr>"

lemma sample_sflist_list: "sf_list (sample_sflist, sample_links) [8, 16]"
  by (simp add: sf_list_def sample_sflist_def sample_links_def z_sfnode_next_peek_def aligned_def)

theorem sflist_append_remove_witness:
  "fst (sys_sflist_find_and_remove 5 24 (sys_sflist_append 24 (sample_sflist, sample_links)))"
proof -
  obtain l1 m1 where a: "sys_sflist_append 24 (sample_sflist, sample_links) = (l1, m1)" by fastforce
  obtain found l2 m2 where r: "sys_sflist_find_and_remove 5 24 (l1, m1) = (found, l2, m2)" by (metis prod.exhaust)
  show ?thesis
    using sflist_append_remove [OF sample_sflist_list _ _ _ _ a r] by (simp add: a r aligned_def)
qed

text \<open>
  C30: Merging an empty list into a list that holds nodes makes the next append lose all of
  them: the tail pointer becomes null while the nodes are still linked from the head.
\<close>

theorem sflist_merge_empty_loses_nodes:
  assumes "sf_list (l, m) xs" "xs \<noteq> []" "sf_list (a, m) []" "n \<noteq> 0" "aligned n"
    "sys_sflist_merge_sflist a (l, m) = (a', l1, m1)" "sys_sflist_append n (l1, m1) = (l', m')"
  shows "sf_list (l', m') [n]"
  using assms by (rule sys_sflist_merge_empty_loses)

theorem sflist_merge_empty_loses_nodes_witness:
  "sf_list (sys_sflist_append 24 (snd (sys_sflist_merge_sflist sys_sflist_init (sample_sflist, sample_links)))) [24]"
proof -
  obtain a' l1 m1 where g: "sys_sflist_merge_sflist sys_sflist_init (sample_sflist, sample_links) = (a', l1, m1)"
    by (metis prod.exhaust)
  obtain l' m' where a: "sys_sflist_append 24 (l1, m1) = (l', m')" by fastforce
  show ?thesis
    using sflist_merge_empty_loses_nodes [OF sample_sflist_list _ sf_list_init _ _ g a] by (simp add: g a aligned_def)
qed

end
