(* ===== verification/Queue.thy ===== *)
theory Queue
  imports Sample_State Sflist
begin

text \<open>
  Queues, \<^verbatim>\<open>kernel/queue.c\<close>, on which FIFOs and LIFOs are built. The queued items are linked
  through their first word; an item queued with an allocated node is found through the node,
  which flag 1 marks. The links and the data words of allocated nodes are memories of the
  model. The queue refines a list of items, an item goes to the first waiter if there is one,
  and a waiter and an item are never both in the queue.
\<close>

section \<open>Definitions\<close>

record k_queue =
  queue_wait_q :: nat
  data_q :: sys_sflist
  q_links :: sfmem
    \<comment> \<open>the first word of every item and node\<close>
  q_anode :: "ptr \<Rightarrow> ptr"
    \<comment> \<open>\<^verbatim>\<open>anode->data\<close> by node address\<close>

text \<open>The second component is the node that is freed, if any.\<close>

definition z_queue_node_peek :: "k_queue \<Rightarrow> ptr \<Rightarrow> bool \<Rightarrow> ptr \<times> ptr option" where
  "z_queue_node_peek q node needs_free =
     (if node \<noteq> 0 \<and> sys_sfnode_flags_get (q_links q) node \<noteq> 0 then
        (q_anode q node, if needs_free then Some node else None)
      else (node, None))"

definition k_queue_init :: "k_queue \<times> kernel \<Rightarrow> k_queue \<times> kernel" where
  "k_queue_init s =
     ((fst s)\<lparr>data_q := sys_sflist_init\<rparr>,
      (snd s)\<lparr>waitqs := (waitqs (snd s))(ObjQ (queue_wait_q (fst s)) := [])\<rparr>)"

definition prepare_thread_to_run :: "cpu_id \<Rightarrow> tid \<Rightarrow> ptr \<Rightarrow> kernel \<Rightarrow> kernel" where
  "prepare_thread_to_run c t data k =
     z_ready_thread c t (z_thread_return_value_set_with_data t 0 data k)"

definition k_queue_cancel_wait :: "cpu_id \<Rightarrow> k_queue \<times> kernel \<Rightarrow> k_queue \<times> kernel" where
  "k_queue_cancel_wait c s =
     (let (q, k) = s;
          (first_pending_thread, k) = z_unpend_first_thread (ObjQ (queue_wait_q q)) k;
          k = (case first_pending_thread of
                 Some t \<Rightarrow> prepare_thread_to_run c t 0 k
               | None \<Rightarrow> k)
      in (q, z_reschedule c k))"

definition q_set :: "k_queue \<Rightarrow> sys_sflist \<times> sfmem \<Rightarrow> k_queue" where
  "q_set q lm = q\<lparr>data_q := fst lm, q_links := snd lm\<rparr>"

text \<open>\<open>anode\<close> is what \<^verbatim>\<open>z_thread_malloc\<close> returns, 0 when there is no memory.\<close>

definition queue_insert ::
  "cpu_id \<Rightarrow> ptr \<Rightarrow> ptr \<Rightarrow> ptr \<Rightarrow> bool \<Rightarrow> bool \<Rightarrow> k_queue \<times> kernel \<Rightarrow> int \<times> (k_queue \<times> kernel)" where
  "queue_insert c anode prev data alloc is_append s =
     (let (q, k) = s;
          prev = (if is_append then sys_sflist_peek_tail (data_q q) else prev);
          (first_pending_thread, k) = z_unpend_first_thread (ObjQ (queue_wait_q q)) k
      in case first_pending_thread of
           Some t \<Rightarrow> (0, (q, z_reschedule c (prepare_thread_to_run c t data k)))
         | None \<Rightarrow>
             if alloc \<and> anode = 0 then (- ENOMEM, (q, k))
             else
               let (q, data) =
                     (if alloc then
                        (q\<lparr>q_anode := (q_anode q)(anode := data),
                           q_links := sys_sfnode_init anode 1 (q_links q)\<rparr>, anode)
                      else (q\<lparr>q_links := sys_sfnode_init data 0 (q_links q)\<rparr>, data))
               in (0, (q_set q (sys_sflist_insert prev data (data_q q, q_links q)), z_reschedule c k)))"

definition k_queue_insert :: "cpu_id \<Rightarrow> ptr \<Rightarrow> ptr \<Rightarrow> k_queue \<times> kernel \<Rightarrow> k_queue \<times> kernel" where
  "k_queue_insert c prev data s = snd (queue_insert c 0 prev data False False s)"

definition k_queue_append :: "cpu_id \<Rightarrow> ptr \<Rightarrow> k_queue \<times> kernel \<Rightarrow> k_queue \<times> kernel" where
  "k_queue_append c data s = snd (queue_insert c 0 0 data False True s)"

definition k_queue_prepend :: "cpu_id \<Rightarrow> ptr \<Rightarrow> k_queue \<times> kernel \<Rightarrow> k_queue \<times> kernel" where
  "k_queue_prepend c data s = snd (queue_insert c 0 0 data False False s)"

definition k_queue_alloc_append :: "cpu_id \<Rightarrow> ptr \<Rightarrow> ptr \<Rightarrow> k_queue \<times> kernel \<Rightarrow> int \<times> (k_queue \<times> kernel)" where
  "k_queue_alloc_append c anode data s = queue_insert c anode 0 data True True s"

definition k_queue_alloc_prepend :: "cpu_id \<Rightarrow> ptr \<Rightarrow> ptr \<Rightarrow> k_queue \<times> kernel \<Rightarrow> int \<times> (k_queue \<times> kernel)" where
  "k_queue_alloc_prepend c anode data s = queue_insert c anode 0 data True False s"

text \<open>The loop that hands the items of a list to the waiters; the waiters bound it.\<close>

fun append_list_loop ::
  "nat \<Rightarrow> cpu_id \<Rightarrow> nat \<Rightarrow> sfmem \<Rightarrow> ptr \<Rightarrow> tid option \<Rightarrow> kernel \<Rightarrow> ptr \<times> kernel" where
  "append_list_loop 0 c w m head thread k = (head, k)"
| "append_list_loop (Suc n) c w m head thread k =
     (case thread of
        Some t \<Rightarrow>
          if head \<noteq> 0 then
            let k = prepare_thread_to_run c t head k;
                (thread, k) = z_unpend_first_thread (ObjQ w) k
            in append_list_loop n c w m (m head) thread k
          else (head, k)
      | None \<Rightarrow> (head, k))"

definition k_queue_append_list :: "cpu_id \<Rightarrow> ptr \<Rightarrow> ptr \<Rightarrow> k_queue \<times> kernel \<Rightarrow> int \<times> (k_queue \<times> kernel)" where
  "k_queue_append_list c head tail s =
     (if head = 0 \<or> tail = 0 then (- EINVAL, s)
      else
        let (q, k) = s;
            n = Suc (length (waitqs k (ObjQ (queue_wait_q q))));
            (thread, k) = z_unpend_first_thread (ObjQ (queue_wait_q q)) k;
            (head, k) = append_list_loop n c (queue_wait_q q) (q_links q) head thread k;
            q = (if head \<noteq> 0 then q_set q (sys_sflist_append_list head tail (data_q q, q_links q)) else q)
        in (0, (q, z_reschedule c k)))"

definition k_queue_merge_slist ::
  "cpu_id \<Rightarrow> sys_sflist \<Rightarrow> k_queue \<times> kernel \<Rightarrow> int \<times> sys_sflist \<times> (k_queue \<times> kernel)" where
  "k_queue_merge_slist c list s =
     (if sf_head list = 0 then (- EINVAL, list, s)
      else
        let (ret, s) = k_queue_append_list c (sf_head list) (sf_tail list) s
        in if ret \<noteq> 0 then (ret, list, s) else (0, sys_sflist_init, s))"

definition k_queue_get ::
  "cpu_id \<Rightarrow> k_timeout_t \<Rightarrow> k_queue \<times> kernel \<Rightarrow> (ptr \<times> ptr option) outcome \<times> (k_queue \<times> kernel)" where
  "k_queue_get c timeout s =
     (let (q, k) = s
      in if \<not> sys_sflist_is_empty (data_q q) then
           let (node, lm) = sys_sflist_get_not_empty (data_q q, q_links q);
               q = q_set q lm
           in (Returned (z_queue_node_peek q node True), (q, k))
         else if timeout = K_NO_WAIT then (Returned (0, None), (q, k))
         else (Blocked, (q, z_pend_curr c (Some (ObjQ (queue_wait_q q))) timeout k)))"

definition k_queue_get_resume :: "cpu_id \<Rightarrow> kernel \<Rightarrow> ptr" where
  "k_queue_get_resume c k =
     (let th = threads k (current_thread c k) in if swap_retval th \<noteq> 0 then 0 else swap_data th)"

definition k_queue_remove :: "nat \<Rightarrow> ptr \<Rightarrow> k_queue \<Rightarrow> bool \<times> k_queue" where
  "k_queue_remove n data q =
     apsnd (q_set q) (sys_sflist_find_and_remove n data (data_q q, q_links q))"

definition k_queue_unique_append :: "nat \<Rightarrow> cpu_id \<Rightarrow> ptr \<Rightarrow> k_queue \<times> kernel \<Rightarrow> bool \<times> (k_queue \<times> kernel)" where
  "k_queue_unique_append n c data s =
     (case sflist_search n (q_links (fst s)) data 0 (sys_sflist_peek_head (data_q (fst s))) of
        Some _ \<Rightarrow> (False, s)
      | None \<Rightarrow> (True, k_queue_append c data s))"

definition k_queue_is_empty :: "k_queue \<Rightarrow> bool" where
  "k_queue_is_empty q = sys_sflist_is_empty (data_q q)"

definition k_queue_peek_head :: "k_queue \<Rightarrow> ptr" where
  "k_queue_peek_head q = fst (z_queue_node_peek q (sys_sflist_peek_head (data_q q)) False)"

definition k_queue_peek_tail :: "k_queue \<Rightarrow> ptr" where
  "k_queue_peek_tail q = fst (z_queue_node_peek q (sys_sflist_peek_tail (data_q q)) False)"

section \<open>The queue as a list of items\<close>

definition queue_nodes :: "k_queue \<Rightarrow> ptr list \<Rightarrow> bool" where
  "queue_nodes q xs \<longleftrightarrow> sf_list (data_q q, q_links q) xs"

abbreviation payload :: "k_queue \<Rightarrow> ptr \<Rightarrow> ptr" where
  "payload q n \<equiv> fst (z_queue_node_peek q n False)"

definition queue_ok :: "k_queue \<Rightarrow> tid \<Rightarrow> tid list \<Rightarrow> bool" where
  "queue_ok q idle ws \<longleftrightarrow> (\<exists>xs. queue_nodes q xs \<and> (xs = [] \<or> ws = []))"

lemma node_init_next: "z_sfnode_next_peek (sys_sfnode_init n f m) x = (if x = n then f AND NOT 3 else z_sfnode_next_peek m x)"
  by (simp add: z_sfnode_next_peek_def sys_sfnode_init_def)

lemma sf_list_node_init: "sf_list (l, m) xs \<Longrightarrow> n \<notin> set xs \<Longrightarrow> sf_list (l, sys_sfnode_init n f m) xs"
  by (erule sf_list_frame) (auto simp: sys_sfnode_init_def z_sfnode_next_peek_def)

lemma payload_cong:
  "q_anode q' x = q_anode q x \<Longrightarrow> sys_sfnode_flags_get (q_links q') x = sys_sfnode_flags_get (q_links q) x \<Longrightarrow>
   payload q' x = payload q x"
  by (simp add: z_queue_node_peek_def)

text \<open>
  Inserting after \<open>prev\<close>, which is null or a node of the queue: the list gains the new node
  right behind it.
\<close>

fun insert_after :: "ptr \<Rightarrow> ptr \<Rightarrow> ptr list \<Rightarrow> ptr list" where
  "insert_after p n [] = []"
| "insert_after p n (x # xs) = (if x = p then x # n # xs else x # insert_after p n xs)"

lemma insert_after_split: "p \<notin> set ys \<Longrightarrow> insert_after p n (ys @ p # zs) = ys @ p # n # zs"
  by (induction ys) auto

lemma sflist_insert_nodes:
  assumes "sf_list (l, m) xs" "n \<notin> set xs" "n \<noteq> 0" "aligned n" "p = 0 \<or> p \<in> set xs"
    "sys_sflist_insert p n (l, m) = (l', m')"
  shows "sf_list (l', m') (if p = 0 then n # xs else insert_after p n xs)" "same_flags m m'"
proof -
  have "sf_list (l', m') (if p = 0 then n # xs else insert_after p n xs) \<and> same_flags m m'"
  proof (cases "p = 0")
    case True
    then have "sys_sflist_prepend n (l, m) = (l', m')" using assms(6) by (simp add: sys_sflist_insert_def)
    from sys_sflist_prepend_list [OF assms(1-4) this] True show ?thesis by simp
  next
    case False
    then obtain ys zs where xs: "xs = ys @ p # zs" "p \<notin> set ys"
      using assms(5) by (auto dest: split_list_first)
    from sys_sflist_insert_list [OF assms(1-4,6) [unfolded xs(1)]] False
    show ?thesis by (simp add: xs insert_after_split)
  qed
  then show "sf_list (l', m') (if p = 0 then n # xs else insert_after p n xs)" "same_flags m m'" by auto
qed

section \<open>Waking with an item\<close>

lemma swap_data_reschedule:
  "\<not> CONFIG_SMP k \<Longrightarrow> swap_data (threads (z_reschedule 0 k) u) = swap_data (threads k u)"
  by (simp add: z_reschedule_def resched_uniprocessor z_swap_def do_swap_fields)

lemma swap_data_unpend_first:
  "swap_data (threads (snd (z_unpend_first_thread w k)) u) = swap_data (threads k u)"
  by (simp add: z_unpend_first_thread_cases unpend_thread_no_timeout_def z_mark_thread_as_not_pending_def
      split: list.split option.split)

lemma prepare_wake:
  assumes "sched_ok k" "waitqs k w = t # ts" "k2 = prepare_thread_to_run 0 t d (snd (z_unpend_first_thread w k))"
  shows "sched_ok k2" "waitqs k2 = (waitqs k)(w := ts)" "idle0 k2 = idle0 k"
    "swap_data (threads k2 u) = (if u = t then d else swap_data (threads k u))"
proof -
  note w = wake_first(3,4,6) [OF assms(1,2) refl, where v = 0 and d = d, folded prepare_thread_to_run_def assms(3)]
  show "sched_ok k2" "waitqs k2 = (waitqs k)(w := ts)" "idle0 k2 = idle0 k" by (rule w)+
  have "\<not> CONFIG_SMP (snd (z_unpend_first_thread w k))"
    using assms(1) by (simp add: z_unpend_first_thread_cases assms(2))
  then show "swap_data (threads k2 u) = (if u = t then d else swap_data (threads k u))"
    by (simp add: assms(3) prepare_thread_to_run_def z_ready_thread_uniprocessor ready_thread_threads
        z_thread_return_value_set_with_data_def arch_thread_return_value_set_def swap_data_unpend_first)
qed

lemma prepare_wake_reschedule:
  assumes "sched_ok k" "waitqs k w = t # ts"
    "k' = z_reschedule 0 (prepare_thread_to_run 0 t d (snd (z_unpend_first_thread w k)))"
  shows "sched_ok k'" "waitqs k' = (waitqs k)(w := ts)" "idle0 k' = idle0 k"
    "swap_data (threads k' t) = d"
proof -
  note p = prepare_wake [OF assms(1,2) refl, of d]
  show "sched_ok k'" "waitqs k' = (waitqs k)(w := ts)" "idle0 k' = idle0 k" "swap_data (threads k' t) = d"
    using p(2,3) p(4) [of t] sched_ok_reschedule [OF p(1)] sched_ok_smp [OF p(1)]
    by (simp_all add: assms(3) swap_data_reschedule)
qed

section \<open>Inserting\<close>

definition queue_place :: "bool \<Rightarrow> ptr \<Rightarrow> ptr \<Rightarrow> ptr list \<Rightarrow> ptr list" where
  "queue_place is_append prev n xs =
     (if is_append then xs @ [n] else if prev = 0 then n # xs else insert_after prev n xs)"

lemma queue_store:
  assumes "queue_nodes q xs" "node \<notin> set xs" "node \<noteq> 0" "aligned node" "is_append \<or> prev = 0 \<or> prev \<in> set xs"
    and "p = (if is_append then sys_sflist_peek_tail (data_q q) else prev)"
    and "q1 = q\<lparr>q_anode := a, q_links := sys_sfnode_init node f (q_links q)\<rparr>"
    and "q' = q_set q1 (sys_sflist_insert p node (data_q q1, q_links q1))"
  shows "queue_nodes q' (queue_place is_append prev node xs)"
    "sys_sfnode_flags_get (q_links q') node = f AND 3"
    "x \<noteq> node \<Longrightarrow> sys_sfnode_flags_get (q_links q') x = sys_sfnode_flags_get (q_links q) x"
proof -
  obtain l' m' where i: "sys_sflist_insert p node (data_q q1, q_links q1) = (l', m')" by fastforce
  have n1: "sf_list (data_q q1, q_links q1) xs"
    using assms(1,2) by (simp add: assms(7) queue_nodes_def sf_list_node_init)
  have d: "distinct xs" using assms(1) by (simp add: queue_nodes_def sf_list_def)
  have t: "sf_tail (data_q q) = (if xs = [] then 0 else last xs)"
    using assms(1) sf_list_tail by (simp add: queue_nodes_def)
  have nz: "xs \<noteq> [] \<Longrightarrow> last xs \<noteq> 0"
    using assms(1) sf_list_nodes [of "data_q q" "q_links q" xs "last xs"] by (simp add: queue_nodes_def)
  have p: "p = 0 \<or> p \<in> set xs" using assms(5) t by (auto simp: assms(6) sys_sflist_peek_tail_def)
  have e: "(if p = 0 then node # xs else insert_after p node xs) = queue_place is_append prev node xs"
    using t nz d insert_after_split [of "last xs" "butlast xs" node "[]"] distinct_butlast [of xs]
    by (cases xs rule: rev_cases) (auto simp: assms(6) sys_sflist_peek_tail_def queue_place_def)
  note s = sflist_insert_nodes [OF n1 assms(2-4) p i]
  have m: "q_links q' = m'" by (simp add: assms(8) i q_set_def)
  show "queue_nodes q' (queue_place is_append prev node xs)"
    using s(1) e by (simp add: assms(8) i q_set_def queue_nodes_def)
  show "sys_sfnode_flags_get (q_links q') node = f AND 3"
    "x \<noteq> node \<Longrightarrow> sys_sfnode_flags_get (q_links q') x = sys_sfnode_flags_get (q_links q) x"
    using s(2) m by (simp_all add: assms(7) same_flags_def sys_sfnode_init_def sys_sfnode_flags_get_def fun_eq_iff)
qed

lemma queue_insert_waiter:
  assumes "sched_ok k" "waitqs k (ObjQ (queue_wait_q q)) = t # ts"
    "queue_insert 0 anode prev data alloc app (q, k) = (r, (q', k'))"
  shows "r = 0" "q' = q" "sched_ok k'" "idle0 k' = idle0 k"
    "waitqs k' = (waitqs k)(ObjQ (queue_wait_q q) := ts)" "swap_data (threads k' t) = data"
proof -
  have e: "r = 0" "q' = q"
    "k' = z_reschedule 0 (prepare_thread_to_run 0 t data (snd (z_unpend_first_thread (ObjQ (queue_wait_q q)) k)))"
    using assms(2,3) by (auto simp: queue_insert_def z_unpend_first_thread_cases)
  show "r = 0" "q' = q" by (rule e)+
  show "sched_ok k'" "idle0 k' = idle0 k" "waitqs k' = (waitqs k)(ObjQ (queue_wait_q q) := ts)"
    "swap_data (threads k' t) = data"
    using prepare_wake_reschedule [OF assms(1,2) e(3)] by simp_all
qed

lemma queue_insert_store:
  assumes "sched_ok k" "waitqs k (ObjQ (queue_wait_q q)) = []" "queue_nodes q xs"
    "node = (if alloc then anode else data)" "node \<notin> set xs" "node \<noteq> 0" "aligned node"
    "app \<or> prev = 0 \<or> prev \<in> set xs"
    "queue_insert 0 anode prev data alloc app (q, k) = (r, (q', k'))"
  shows "r = 0" "queue_nodes q' (queue_place app prev node xs)" "payload q' node = data"
    "\<And>x. x \<in> set xs \<Longrightarrow> payload q' x = payload q x" "k' = z_reschedule 0 k" "queue_wait_q q' = queue_wait_q q"
proof -
  define p where "p = (if app then sys_sflist_peek_tail (data_q q) else prev)"
  define a where "a = (if alloc then (q_anode q)(node := data) else q_anode q)"
  define f :: u64 where "f = (if alloc then 1 else 0)"
  define q1 where "q1 = q\<lparr>q_anode := a, q_links := sys_sfnode_init node f (q_links q)\<rparr>"
  have e: "r = 0" "k' = z_reschedule 0 k" "q' = q_set q1 (sys_sflist_insert p node (data_q q1, q_links q1))"
    using assms(2,4,6,9)
    by (auto simp: queue_insert_def z_unpend_first_thread_cases Let_def q1_def a_def f_def p_def split: if_splits)
  note st = queue_store [OF assms(3,5-8) p_def q1_def e(3)]
  have [simp]: "q_anode q' = a" "queue_wait_q q' = queue_wait_q q" by (simp_all add: e(3) q_set_def q1_def)
  show "r = 0" "k' = z_reschedule 0 k" "queue_nodes q' (queue_place app prev node xs)"
    using e(1,2) st(1) by simp_all
  show "queue_wait_q q' = queue_wait_q q" by simp
  show "payload q' node = data"
    using st(2) assms(4,6) by (auto simp: z_queue_node_peek_def a_def f_def)
  show "\<And>x. x \<in> set xs \<Longrightarrow> payload q' x = payload q x"
    by (rule payload_cong; use st(3) assms(5) in \<open>metis a_def \<open>q_anode q' = a\<close> fun_upd_other\<close>)
qed

lemma queue_insert_no_memory:
  assumes "waitqs k (ObjQ (queue_wait_q q)) = []"
  shows "queue_insert 0 0 prev data True app (q, k) = (- ENOMEM, (q, k))"
  using assms by (simp add: queue_insert_def z_unpend_first_thread_cases)

text \<open>What the caller owes: a node that is not in the queue and a predecessor that is.\<close>

definition insertable :: "k_queue \<Rightarrow> ptr \<Rightarrow> ptr \<Rightarrow> ptr \<Rightarrow> bool \<Rightarrow> bool \<Rightarrow> bool" where
  "insertable q anode prev data alloc app \<longleftrightarrow>
     (\<forall>xs. queue_nodes q xs \<longrightarrow>
       (let node = (if alloc then anode else data)
        in (node = 0 \<and> alloc \<or> node \<notin> set xs \<and> node \<noteq> 0 \<and> aligned node) \<and>
           (app \<or> prev = 0 \<or> prev \<in> set xs)))"

lemma queue_insert_effect:
  assumes "sched_ok k" "queue_ok q (idle0 k) (waitqs k (ObjQ (queue_wait_q q)))"
    "insertable q anode prev data alloc app"
    "queue_insert 0 anode prev data alloc app (q, k) = (r, (q', k'))"
  shows "sched_ok k' \<and> idle0 k' = idle0 k \<and> queue_wait_q q' = queue_wait_q q \<and>
    queue_ok q' (idle0 k) (waitqs k' (ObjQ (queue_wait_q q))) \<and>
    (n \<noteq> queue_wait_q q \<longrightarrow> waitqs k' (ObjQ n) = waitqs k (ObjQ n))"
proof -
  let ?w = "ObjQ (queue_wait_q q)"
  obtain xs where xs: "queue_nodes q xs" "xs = [] \<or> waitqs k ?w = []" using assms(2) by (auto simp: queue_ok_def)
  show ?thesis
  proof (cases "waitqs k ?w")
    case (Cons t ts)
    note i = queue_insert_waiter [OF assms(1) Cons assms(4)]
    have "xs = []" using xs(2) Cons by simp
    then have "queue_ok q (idle0 k) ts" using xs(1) by (auto simp: queue_ok_def)
    then show ?thesis using i(2-5) by simp
  next
    case Nil
    define node where "node = (if alloc then anode else data)"
    show ?thesis
    proof (cases "node = 0 \<and> alloc")
      case True
      then show ?thesis
        using assms queue_insert_no_memory [OF Nil, of prev data app] by (auto simp: node_def)
    next
      case False
      then have "node \<notin> set xs" "node \<noteq> 0" "aligned node" "app \<or> prev = 0 \<or> prev \<in> set xs"
        using assms(3) xs(1) by (auto simp: insertable_def node_def Let_def split: if_splits)
      note i = queue_insert_store [OF assms(1) Nil xs(1) node_def this assms(4)]
      have "queue_ok q' (idle0 k) []" using i(2) by (auto simp: queue_ok_def)
      then show ?thesis
        using i(5,6) Nil sched_ok_reschedule [OF assms(1)] sched_ok_smp [OF assms(1)] by simp
    qed
  qed
qed

section \<open>Taking and removing\<close>

lemma k_queue_get_effect:
  assumes "sched_ok k" "running k \<or> tm = K_NO_WAIT"
    "queue_nodes q xs" "xs = [] \<or> waitqs k (ObjQ (queue_wait_q q)) = []"
    "k_queue_get 0 tm (q, k) = (r, (q', k'))"
  shows "sched_ok k' \<and> idle0 k' = idle0 k \<and> queue_wait_q q' = queue_wait_q q \<and>
      queue_ok q' (idle0 k) (waitqs k' (ObjQ (queue_wait_q q))) \<and>
      (n \<noteq> queue_wait_q q \<longrightarrow> waitqs k' (ObjQ n) = waitqs k (ObjQ n))"
    and "queue_nodes q' (tl xs)" "\<And>x. payload q' x = payload q x"
    and "xs = x # ys \<Longrightarrow> k' = k \<and> (\<exists>f. r = Returned (payload q x, f))"
    and "xs = [] \<Longrightarrow> q' = q \<and> (if tm = K_NO_WAIT then r = Returned (0, None) \<and> k' = k else r = Blocked)"
proof -
  have e: "sys_sflist_is_empty (data_q q) \<longleftrightarrow> xs = []"
    using assms(3) sf_list_is_empty by (simp add: queue_nodes_def)
  obtain node l' m' where g: "sys_sflist_get (data_q q, q_links q) = (node, l', m')" by (metis prod.exhaust)
  note gl = sys_sflist_get_list [OF assms(3) [unfolded queue_nodes_def] g]
  have take: "q' = q_set q (l', q_links q)" "r = Returned (z_queue_node_peek q' node True)" "k' = k" if "xs \<noteq> []"
    using that e g gl(1) assms(5) by (auto simp: k_queue_get_def sys_sflist_get_def Let_def)
  have empty: "q' = q" "if tm = K_NO_WAIT then r = Returned (0, None) \<and> k' = k
      else r = Blocked \<and> k' = z_pend_curr 0 (Some (ObjQ (queue_wait_q q))) tm k" if "xs = []"
    using that e assms(5) by (auto simp: k_queue_get_def split: if_splits)
  show nodes: "queue_nodes q' (tl xs)"
    using take(1) empty(1) gl(1,2) assms(3) by (cases "xs = []") (simp_all add: queue_nodes_def q_set_def)
  show pay: "\<And>x. payload q' x = payload q x"
    using take(1) empty(1) by (cases "xs = []") (simp_all add: z_queue_node_peek_def q_set_def)
  show "sched_ok k' \<and> idle0 k' = idle0 k \<and> queue_wait_q q' = queue_wait_q q \<and>
      queue_ok q' (idle0 k) (waitqs k' (ObjQ (queue_wait_q q))) \<and>
      (n \<noteq> queue_wait_q q \<longrightarrow> waitqs k' (ObjQ n) = waitqs k (ObjQ n))"
  proof (cases "xs = []")
    case True
    then have "queue_ok q' (idle0 k) ws" for ws using nodes by (auto simp: queue_ok_def)
    then show ?thesis
      using empty [OF True] assms(1,2) by (auto simp: sched_ok_block waitqs_z_pend_curr split: if_splits)
  next
    case False
    then show ?thesis using take [OF False] assms(1,4) nodes by (auto simp: queue_ok_def q_set_def)
  qed
  show "k' = k \<and> (\<exists>f. r = Returned (payload q x, f))" if "xs = x # ys"
    using that take gl(3) pay [of x] by (auto simp: z_queue_node_peek_def split: if_splits)
  show "xs = [] \<Longrightarrow> q' = q \<and> (if tm = K_NO_WAIT then r = Returned (0, None) \<and> k' = k else r = Blocked)"
    using empty by (auto split: if_splits)
qed

lemma k_queue_remove_effect:
  assumes "queue_nodes q xs" "length xs \<le> n" "k_queue_remove n x q = (b, q')"
  shows "queue_nodes q' (remove1 x xs)" "b \<longleftrightarrow> x \<in> set xs" "payload q' y = payload q y"
    "queue_wait_q q' = queue_wait_q q"
proof -
  obtain l' m' where f: "sys_sflist_find_and_remove n x (data_q q, q_links q) = (b, l', m')" "q' = q_set q (l', m')"
    using assms(3) by (cases "sys_sflist_find_and_remove n x (data_q q, q_links q)") (auto simp: k_queue_remove_def)
  note r = sys_sflist_find_and_remove_list [OF assms(1) [unfolded queue_nodes_def] assms(2) f(1)]
  show "queue_nodes q' (remove1 x xs)" "b \<longleftrightarrow> x \<in> set xs" "queue_wait_q q' = queue_wait_q q"
    using r by (simp_all add: f(2) queue_nodes_def q_set_def)
  show "payload q' y = payload q y"
    using r(2) by (intro payload_cong) (simp_all add: f(2) q_set_def same_flags_def)
qed

lemma k_queue_cancel_wait_effect:
  assumes "sched_ok k" "queue_ok q (idle0 k) (waitqs k (ObjQ (queue_wait_q q)))"
    "k_queue_cancel_wait 0 (q, k) = (q', k')"
  shows "sched_ok k' \<and> idle0 k' = idle0 k \<and> q' = q \<and>
    waitqs k' = (waitqs k)(ObjQ (queue_wait_q q) := tl (waitqs k (ObjQ (queue_wait_q q))))"
proof (cases "waitqs k (ObjQ (queue_wait_q q))")
  case Nil
  then show ?thesis
    using assms sched_ok_reschedule [OF assms(1)] sched_ok_smp [OF assms(1)]
    by (auto simp: k_queue_cancel_wait_def z_unpend_first_thread_cases fun_eq_iff)
next
  case (Cons t ts)
  have e: "q' = q" "k' = z_reschedule 0 (prepare_thread_to_run 0 t 0 (snd (z_unpend_first_thread (ObjQ (queue_wait_q q)) k)))"
    using assms(3) Cons by (auto simp: k_queue_cancel_wait_def z_unpend_first_thread_cases)
  show ?thesis using prepare_wake_reschedule [OF assms(1) Cons e(2)] e(1) Cons by simp
qed

lemma k_queue_unique_append_effect:
  assumes "queue_nodes q xs" "length xs \<le> n"
  shows "k_queue_unique_append n c d (q, k) =
    (if d \<in> set xs then (False, (q, k)) else (True, k_queue_append c d (q, k)))"
proof -
  have p: "sf_path (q_links q) (sf_head (data_q q)) xs 0" using assms(1) by (simp add: queue_nodes_def sf_list_def)
  show ?thesis
  proof (cases "d \<in> set xs")
    case True
    then obtain ys zs where xs: "xs = ys @ d # zs" "d \<notin> set ys" by (auto dest: split_list_first)
    then show ?thesis
      using sflist_search_found [of "q_links q" "sf_head (data_q q)" ys d zs n 0] p assms(2)
      by (simp add: k_queue_unique_append_def sys_sflist_peek_head_def)
  next
    case False
    then show ?thesis
      using sflist_search_not_found [OF p False]
      by (simp add: k_queue_unique_append_def sys_sflist_peek_head_def)
  qed
qed

section \<open>Appending a list\<close>

text \<open>Items that carry no flags: their first word is the plain link.\<close>

definition plain_items :: "sfmem \<Rightarrow> ptr list \<Rightarrow> bool" where
  "plain_items m ys \<longleftrightarrow> (\<forall>y \<in> set ys. sys_sfnode_flags_get m y = 0)"

lemma plain_link:
  assumes "sys_sfnode_flags_get m y = 0"
  shows "m y = z_sfnode_next_peek m y"
proof -
  have "w AND NOT M = w" if "w AND M = 0" for w M :: u64
    using that by (auto simp: word_and_eq_0_iff bit_eq_iff bit_simps)
  from this [OF assms [unfolded sys_sfnode_flags_get_def]]
  show ?thesis unfolding z_sfnode_next_peek_def by simp
qed

lemma append_list_loop_ok:
  assumes "sched_ok k" "waitqs k (ObjQ w) = ws" "sf_path m h ys 0" "plain_items m ys"
    "length ws \<le> length ys" "length ws \<le> n"
    "append_list_loop n 0 w m h (fst (z_unpend_first_thread (ObjQ w) k)) (snd (z_unpend_first_thread (ObjQ w) k)) = (h', k')"
  shows "sched_ok k' \<and> idle0 k' = idle0 k \<and> waitqs k' = (waitqs k)(ObjQ w := []) \<and>
    sf_path m h' (drop (length ws) ys) 0 \<and>
    (\<forall>i < length ws. swap_data (threads k' (ws ! i)) = ys ! i) \<and>
    (\<forall>u. u \<notin> set ws \<longrightarrow> swap_data (threads k' u) = swap_data (threads k u))"
  using assms
proof (induction ws arbitrary: n k h ys)
  case Nil
  then have "(h', k') = (h, k)" by (cases n) (auto simp: z_unpend_first_thread_cases)
  then show ?case using Nil.prems by (auto simp: fun_eq_iff)
next
  case (Cons t ts)
  obtain n' y zs where n: "n = Suc n'" and ys: "ys = y # zs"
    using Cons.prems(5,6) by (cases n; cases ys) auto
  define k2 where "k2 = prepare_thread_to_run 0 t y (snd (z_unpend_first_thread (ObjQ w) k))"
  note p = prepare_wake [OF Cons.prems(1,2) k2_def]
  have y: "h = y" "y \<noteq> 0" "sf_path m (m y) zs 0" "plain_items m zs"
    using Cons.prems(3,4) plain_link [of m y] by (auto simp: ys plain_items_def)
  have l: "append_list_loop n' 0 w m (m y) (fst (z_unpend_first_thread (ObjQ w) k2))
      (snd (z_unpend_first_thread (ObjQ w) k2)) = (h', k')"
    using Cons.prems(2,7) y by (auto simp: n k2_def z_unpend_first_thread_cases split_beta Let_def)
  have d: "t \<notin> set ts" using waiters_distinct [OF Cons.prems(1), of "ObjQ w"] Cons.prems(2) by simp
  have "waitqs k2 (ObjQ w) = ts" using p(2) by simp
  from Cons.IH [OF p(1) this y(3,4) _ _ l] Cons.prems(5,6)
  have IH: "sched_ok k' \<and> idle0 k' = idle0 k2 \<and> waitqs k' = (waitqs k2)(ObjQ w := []) \<and>
    sf_path m h' (drop (length ts) zs) 0 \<and>
    (\<forall>i < length ts. swap_data (threads k' (ts ! i)) = zs ! i) \<and>
    (\<forall>u. u \<notin> set ts \<longrightarrow> swap_data (threads k' u) = swap_data (threads k2 u))"
    by (simp add: n ys fun_upd_def)
  then show ?case
    using p(2,3) p(4) d by (auto simp: ys nth_Cons fun_eq_iff split: nat.split)
qed

text \<open>
  A list with at least as many items as there are waiters: the waiters get the first items
  in order, the rest is appended.
\<close>

lemma k_queue_append_list_effect:
  assumes "sched_ok k" "queue_nodes q xs" "xs = [] \<or> waitqs k (ObjQ (queue_wait_q q)) = []"
    "waitqs k (ObjQ (queue_wait_q q)) = ws" "sf_path (q_links q) h ys 0" "plain_items (q_links q) ys"
    "distinct ys" "set xs \<inter> set ys = {}" "ys \<noteq> []" "length ws \<le> length ys"
    "k_queue_append_list 0 h (last ys) (q, k) = (r, (q', k'))"
  shows "sched_ok k' \<and> idle0 k' = idle0 k \<and> queue_wait_q q' = queue_wait_q q \<and>
      waitqs k' = (waitqs k)(ObjQ (queue_wait_q q) := [])"
    "r = 0" "queue_nodes q' (xs @ drop (length ws) ys)" "payload q' x = payload q x"
    "i < length ws \<Longrightarrow> swap_data (threads k' (ws ! i)) = ys ! i"
proof -
  let ?w = "ObjQ (queue_wait_q q)"
  have hd: "h \<noteq> 0" "last ys \<noteq> 0"
    using assms(5,9) sf_path_nodes [OF assms(5), of "last ys"] by (cases ys; auto)+
  obtain h' k1 where l: "append_list_loop (Suc (length (waitqs k ?w))) 0 (queue_wait_q q) (q_links q) h
      (fst (z_unpend_first_thread ?w k)) (snd (z_unpend_first_thread ?w k)) = (h', k1)" by fastforce
  have e: "r = 0" "k' = z_reschedule 0 k1"
    "q' = (if h' \<noteq> 0 then q_set q (sys_sflist_append_list h' (last ys) (data_q q, q_links q)) else q)"
    using assms(11) hd l by (auto simp: k_queue_append_list_def Let_def split_beta simp del: append_list_loop.simps)
  from append_list_loop_ok [OF assms(1,4,5,6,10) _ l] assms(4)
  have L: "sched_ok k1" "idle0 k1 = idle0 k" "waitqs k1 = (waitqs k)(?w := [])"
    "sf_path (q_links q) h' (drop (length ws) ys) 0" "\<forall>i < length ws. swap_data (threads k1 (ws ! i)) = ys ! i"
    by auto
  have smp: "\<not> CONFIG_SMP k1" using L(1) by (rule sched_ok_smp)
  show "r = 0" by (rule e)
  show "i < length ws \<Longrightarrow> swap_data (threads k' (ws ! i)) = ys ! i"
    using L(5) smp by (simp add: e(2) swap_data_reschedule)
  have q': "queue_nodes q' (xs @ drop (length ws) ys) \<and> payload q' x = payload q x \<and> queue_wait_q q' = queue_wait_q q"
  proof (cases "drop (length ws) ys = []")
    case True
    then have "q' = q" using L(4) by (simp add: e(3))
    then show ?thesis using assms(2) True by simp
  next
    case False
    then have h': "h' \<noteq> 0" using L(4) by (cases "drop (length ws) ys") auto
    obtain l' m' where a: "sys_sflist_append_list h' (last ys) (data_q q, q_links q) = (l', m')" by fastforce
    have dj: "set xs \<inter> set (drop (length ws) ys) = {}" using assms(8) set_drop_subset by fastforce
    have la: "last (drop (length ws) ys) = last ys" using False by (simp add: last_drop)
    note A = sys_sflist_append_list_list [OF assms(2) [unfolded queue_nodes_def] L(4) False
        distinct_drop [OF assms(7)] dj, unfolded la, OF a]
    have q': "q' = q_set q (l', m')" using h' a by (simp add: e(3))
    have "payload q' x = payload q x"
      using A(2) by (intro payload_cong) (simp_all add: q' q_set_def same_flags_def)
    then show ?thesis using A(1) by (simp add: q' queue_nodes_def q_set_def)
  qed
  then show "queue_nodes q' (xs @ drop (length ws) ys)" "payload q' x = payload q x" by auto
  show "sched_ok k' \<and> idle0 k' = idle0 k \<and> queue_wait_q q' = queue_wait_q q \<and>
      waitqs k' = (waitqs k)(?w := [])"
    using q' L(2,3) sched_ok_reschedule [OF L(1)] smp by (simp add: e(2))
qed

text \<open>
  With fewer items than waiters a thread is lost: the loop takes the next waiter off the
  queue before it looks whether an item is left, and nothing makes that thread ready.
\<close>

lemma k_queue_append_list_strands:
  assumes "sched_ok k" "waitqs k (ObjQ (queue_wait_q q)) = t1 # t2 # ts" "y \<noteq> 0" "q_links q y = 0"
    "k_queue_append_list 0 y y (q, k) = (r, (q', k'))"
  shows "r = 0" "\<not> z_is_thread_queued (threads k' t2)" "t2 \<notin> set (runq k')" "t2 \<notin> set (waitqs k' w)"
    "\<not> z_is_thread_timeout_active k' t2"
proof -
  let ?w = "ObjQ (queue_wait_q q)"
  define k2 where "k2 = prepare_thread_to_run 0 t1 y (snd (z_unpend_first_thread ?w k))"
  note p = prepare_wake [OF assms(1,2) k2_def]
  define k3 where "k3 = snd (z_unpend_first_thread ?w k2)"
  have w2: "waitqs k2 ?w = t2 # ts" using p(2) by simp
  have u: "z_unpend_first_thread ?w k2 = (Some t2, k3)"
    by (simp add: k3_def z_unpend_first_thread_cases w2)
  have e: "r = 0" "k' = z_reschedule 0 k3"
    using assms(2-5) u
    by (auto simp: k_queue_append_list_def Let_def z_unpend_first_thread_cases [of _ k] split_beta k2_def)
  have o: "sched_ok_but {t2} k3" "t2 \<noteq> idle0 k3" "\<not> z_is_thread_queued (threads k3 t2)"
    using sched_ok_z_unpend_first_thread [OF _ u, of "{}"] p(1) by (auto simp: sched_ok_but_empty)
  have inv: "kinv_but {t2} k3" using o(1) by (simp add: sched_ok_but_def)
  have smp: "\<not> CONFIG_SMP k3" using kinv_not_smp [OF inv] .
  have q: "runq k' = runq k3" "waitqs k' = waitqs k3" "timeout_list k' = timeout_list k3"
      "z_is_thread_queued (threads k' t2) = z_is_thread_queued (threads k3 t2)"
    using smp by (simp_all add: e(2) z_reschedule_def resched_uniprocessor z_swap_def do_swap_fields
        z_is_thread_queued_def z_is_thread_state_set_def)
  show "r = 0" "\<not> z_is_thread_queued (threads k' t2)" using e q o(3) by simp_all
  show "t2 \<notin> set (runq k')" using inv o(3) by (simp add: q kinv_parts)
  have "waitqs k3 = (waitqs k2)(?w := ts)" using waitqs_unpend_first [OF p(1) w2] by (simp add: k3_def)
  moreover have "pended_on (threads k2 t2) = Some ?w" "distinct (waitqs k2 ?w)"
    using waitq_member [of "{}" k2 t2 ?w] w2 p(1) waiters_distinct [OF p(1), of ?w] by (auto simp: sched_ok_def)
  ultimately show "t2 \<notin> set (waitqs k' w)"
    using waitq_member [of "{}" k2 t2 w] w2 p(1) by (auto simp: q sched_ok_def)
  have "\<not> z_is_thread_timeout_active k3 t2"
    using abort_thread_timeout_inactive [of "unpend_thread_no_timeout t2 k2" t2] kinv_tlist [of "{}" k2] p(1)
    by (simp add: k3_def z_unpend_first_thread_cases w2 sched_ok_def)
  then show "\<not> z_is_thread_timeout_active k' t2"
    using timeout_active_cong [of k' k3] q(3) by simp
qed

section \<open>The contract\<close>

definition appendable :: "k_queue \<Rightarrow> nat \<Rightarrow> ptr \<Rightarrow> ptr \<Rightarrow> bool" where
  "appendable q waiting h tl_node \<longleftrightarrow>
     (\<exists>xs ys. queue_nodes q xs \<and> sf_path (q_links q) h ys 0 \<and> plain_items (q_links q) ys \<and> distinct ys \<and>
       set xs \<inter> set ys = {} \<and> ys \<noteq> [] \<and> tl_node = last ys \<and> waiting \<le> length ys)"

inductive queue_step :: "k_queue \<times> kernel \<Rightarrow> k_queue \<times> kernel \<Rightarrow> bool" where
  insert: "insertable (fst s) anode prev data alloc app \<Longrightarrow>
    queue_insert 0 anode prev data alloc app s = (r, s') \<Longrightarrow> queue_step s s'"
| append_list: "appendable (fst s) (length (waitqs (snd s) (ObjQ (queue_wait_q (fst s))))) h t \<Longrightarrow>
    k_queue_append_list 0 h t s = (r, s') \<Longrightarrow> queue_step s s'"
| get: "running (snd s) \<or> tm = K_NO_WAIT \<Longrightarrow> k_queue_get 0 tm s = (res, s') \<Longrightarrow> queue_step s s'"
| remove: "queue_nodes (fst s) xs \<Longrightarrow> length xs \<le> n \<Longrightarrow> k_queue_remove n x (fst s) = (b, q') \<Longrightarrow>
    queue_step s (q', snd s)"
| cancel_wait: "k_queue_cancel_wait 0 s = s' \<Longrightarrow> queue_step s s'"

lemma sf_path_unique: "sf_path m p xs 0 \<Longrightarrow> sf_path m p ys 0 \<Longrightarrow> xs = ys"
proof (induction xs arbitrary: p ys)
  case Nil
  then show ?case by (cases ys) auto
next
  case (Cons x xs)
  then show ?case by (cases ys) auto
qed

lemma queue_nodes_unique: "queue_nodes q xs \<Longrightarrow> queue_nodes q ys \<Longrightarrow> xs = ys"
  using sf_path_unique by (auto simp: queue_nodes_def sf_list_def)

lemma queue_step_effect:
  assumes "queue_step (q, k) (q', k')" "sched_ok k" "queue_ok q (idle0 k) (waitqs k (ObjQ (queue_wait_q q)))"
  shows "sched_ok k' \<and> idle0 k' = idle0 k \<and> queue_wait_q q' = queue_wait_q q \<and>
    queue_ok q' (idle0 k) (waitqs k' (ObjQ (queue_wait_q q))) \<and>
    (n \<noteq> queue_wait_q q \<longrightarrow> waitqs k' (ObjQ n) = waitqs k (ObjQ n))"
  using assms(1)
proof cases
  case (insert anode prev data alloc app r)
  show ?thesis by (rule queue_insert_effect [OF assms(2,3) _ insert(2)]) (use insert(1) in simp)
next
  case (append_list h t r)
  obtain xs where xs: "queue_nodes q xs" "xs = [] \<or> waitqs k (ObjQ (queue_wait_q q)) = []"
    using assms(3) by (auto simp: queue_ok_def)
  obtain ys where ys: "sf_path (q_links q) h ys 0" "plain_items (q_links q) ys" "distinct ys"
      "set xs \<inter> set ys = {}" "ys \<noteq> []" "t = last ys" "length (waitqs k (ObjQ (queue_wait_q q))) \<le> length ys"
    using append_list(1) queue_nodes_unique [OF xs(1)] by (auto simp: appendable_def)
  note a = k_queue_append_list_effect(1,3) [OF assms(2) xs refl ys(1-5,7) append_list(2) [unfolded ys(6)]]
  have "queue_ok q' (idle0 k) []" using a(2) by (auto simp: queue_ok_def)
  then show ?thesis using a(1) by simp
next
  case (get tm res)
  obtain xs where xs: "queue_nodes q xs" "xs = [] \<or> waitqs k (ObjQ (queue_wait_q q)) = []"
    using assms(3) by (auto simp: queue_ok_def)
  show ?thesis by (rule k_queue_get_effect(1) [OF assms(2) _ xs get(2)]) (use get(1) in simp)
next
  case (remove xs m x b)
  have xs: "queue_nodes q xs" using remove by simp
  have rm: "k_queue_remove m x q = (b, q')" using remove by simp
  note r = k_queue_remove_effect [OF xs remove(3) rm]
  have "xs = [] \<or> waitqs k (ObjQ (queue_wait_q q)) = []"
    using assms(3) queue_nodes_unique [OF xs] by (auto simp: queue_ok_def)
  then have "queue_ok q' (idle0 k) (waitqs k (ObjQ (queue_wait_q q)))"
    using r(1) by (auto simp: queue_ok_def)
  then show ?thesis using r(4) assms(2) remove(1) by simp
next
  case cancel_wait
  have "queue_ok q (idle0 k) (tl (waitqs k (ObjQ (queue_wait_q q))))"
    using assms(3) by (auto simp: queue_ok_def)
  then show ?thesis using k_queue_cancel_wait_effect [OF assms(2,3) cancel_wait] by simp
qed

interpretation queue: kernel_object queue_step queue_wait_q queue_ok
proof unfold_locales
  show "queue_ok ob i ws \<Longrightarrow> set ws' \<subseteq> set ws \<Longrightarrow> queue_ok ob i ws'" for ob i ws ws'
    by (auto simp: queue_ok_def)
qed (auto dest: queue_step_effect)

section \<open>Properties\<close>

text \<open>
  C31: A queue is first in, first out. An item appended while no thread waits goes behind
  all others; a get returns at once the payload of the oldest item, leaves the rest in order
  and changes no payload. An item queued through an allocated node is returned as the data
  it was given, not as the node.
\<close>

theorem queue_fifo:
  assumes "sched_ok k" "waitqs k (ObjQ (queue_wait_q q)) = []" "queue_nodes q xs"
    "node = (if alloc then anode else data)" "node \<notin> set xs" "node \<noteq> 0" "aligned node"
    "queue_insert 0 anode 0 data alloc True (q, k) = (r, (q1, k1))"
    "k_queue_get 0 K_NO_WAIT (q1, k1) = (res, (q2, k2))"
  shows "r = 0 \<and> queue_nodes q1 (xs @ [node]) \<and> queue_nodes q2 (tl (xs @ [node])) \<and> k2 = k1 \<and>
    (\<exists>freed. res = Returned (hd (map (payload q) xs @ [data]), freed)) \<and>
    map (payload q2) (tl (xs @ [node])) = tl (map (payload q) xs @ [data])"
proof -
  have pre: "True \<or> (0 :: ptr) = 0 \<or> 0 \<in> set xs" by simp
  note i = queue_insert_store [OF assms(1-7) pre assms(8)]
  have n1: "queue_nodes q1 (xs @ [node])" using i(2) by (simp add: queue_place_def)
  have ok: "sched_ok k1" "xs @ [node] = [] \<or> waitqs k1 (ObjQ (queue_wait_q q1)) = []"
    using i(5,6) sched_ok_reschedule [OF assms(1)] sched_ok_smp [OF assms(1)] assms(2) by simp_all
  note g = k_queue_get_effect [OF ok(1) disjI2 [OF refl] n1 ok(2) assms(9)]
  have p: "map (payload q1) (xs @ [node]) = map (payload q) xs @ [data]" using i(3,4) by simp
  obtain x ys where xs: "xs @ [node] = x # ys" by (cases "xs @ [node]") auto
  have h: "payload q1 x = hd (map (payload q) xs @ [data])" unfolding p [symmetric] xs by simp
  have t: "map (payload q2) ys = tl (map (payload q) xs @ [data])" unfolding p [symmetric] xs using g(3) by simp
  show ?thesis using i(1) n1 g(2) g(4) [OF xs] h t by (simp add: xs)
qed

definition sample_queue :: k_queue where
  "sample_queue = \<lparr>queue_wait_q = 9, data_q = sample_sflist, q_links = sample_links, q_anode = (\<lambda>_. 99)\<rparr>"

lemma sample_queue_nodes: "queue_nodes sample_queue [8, 16]"
  using sample_sflist_list by (simp add: queue_nodes_def sample_queue_def)

theorem queue_fifo_witness:
  "\<exists>freed. fst (k_queue_get 0 K_NO_WAIT (snd (queue_insert 0 0 0 24 False True (sample_queue, sample_kernel 8)))) =
     Returned (99, freed)"
proof -
  obtain r q1 k1 where i: "queue_insert 0 0 0 24 False True (sample_queue, sample_kernel 8) = (r, (q1, k1))"
    by (metis prod.exhaust)
  obtain res q2 k2 where g: "k_queue_get 0 K_NO_WAIT (q1, k1) = (res, (q2, k2))" by (metis prod.exhaust)
  have w: "waitqs (sample_kernel 8) (ObjQ (queue_wait_q sample_queue)) = []" by (simp add: sample_queue_def)
  have p: "payload sample_queue 8 = 99"
    by (simp add: sample_queue_def z_queue_node_peek_def sample_links_def sys_sfnode_flags_get_def)
  show ?thesis
    using queue_fifo [OF sample_kernel_ok w sample_queue_nodes refl _ _ _ i g] p by (simp add: i g aligned_def)
qed

text \<open>
  C32: An item inserted while threads wait goes to the first of them: the queue stays as it
  is, that thread leaves the wait queue and finds the item, and no memory is allocated; with
  nobody waiting, a failed allocation gives -ENOMEM and changes nothing.
\<close>

theorem queue_insert_wakes_or_fails:
  assumes "sched_ok k" "queue_insert 0 anode prev data alloc app (q, k) = (r, (q', k'))"
  shows "(\<forall>t ts. waitqs k (ObjQ (queue_wait_q q)) = t # ts \<longrightarrow>
      r = 0 \<and> q' = q \<and> sched_ok k' \<and> swap_data (threads k' t) = data \<and>
      waitqs k' = (waitqs k)(ObjQ (queue_wait_q q) := ts)) \<and>
    (waitqs k (ObjQ (queue_wait_q q)) = [] \<and> alloc \<and> anode = 0 \<longrightarrow> r = - ENOMEM \<and> q' = q \<and> k' = k)"
  using queue_insert_waiter [OF assms(1) _ assms(2)] queue_insert_no_memory [of k q prev data app] assms(2) by auto

theorem queue_insert_wakes_or_fails_witness:
  "swap_data (threads (snd (snd (queue_insert 0 0 0 24 False True (sample_queue\<lparr>queue_wait_q := 8\<rparr>, sample_kernel 8)))) 2) = 24"
proof -
  obtain r q' k' where i: "queue_insert 0 0 0 24 False True (sample_queue\<lparr>queue_wait_q := 8\<rparr>, sample_kernel 8) = (r, (q', k'))"
    by (metis prod.exhaust)
  show ?thesis using queue_insert_wakes_or_fails [OF sample_kernel_ok i] by (simp add: i)
qed

text \<open>
  C33: Appending a list of at least as many items as threads wait gives the waiters the
  first items in order, one each, and appends the rest.
\<close>

theorem queue_append_list:
  assumes "sched_ok k" "queue_nodes q xs" "xs = [] \<or> ws = []" "waitqs k (ObjQ (queue_wait_q q)) = ws"
    "sf_path (q_links q) h ys 0" "plain_items (q_links q) ys" "distinct ys" "set xs \<inter> set ys = {}" "ys \<noteq> []"
    "length ws \<le> length ys" "k_queue_append_list 0 h (last ys) (q, k) = (r, (q', k'))"
  shows "r = 0 \<and> sched_ok k' \<and> waitqs k' = (waitqs k)(ObjQ (queue_wait_q q) := []) \<and>
    queue_nodes q' (xs @ drop (length ws) ys) \<and>
    (\<forall>i < length ws. swap_data (threads k' (ws ! i)) = ys ! i)"
proof -
  have e: "xs = [] \<or> waitqs k (ObjQ (queue_wait_q q)) = []" using assms(3,4) by simp
  show ?thesis using k_queue_append_list_effect [OF assms(1,2) e assms(4-11)] by blast
qed

definition sample_waited_queue :: k_queue where
  "sample_waited_queue = \<lparr>queue_wait_q = 8, data_q = sys_sflist_init,
     q_links = (\<lambda>_. 0)(8 := 16, 16 := 24), q_anode = (\<lambda>_. 0)\<rparr>"

theorem queue_append_list_witness:
  "queue_nodes (fst (snd (k_queue_append_list 0 8 24 (sample_waited_queue, sample_kernel 8)))) [24]"
proof -
  obtain r q' k' where a: "k_queue_append_list 0 8 (last [8, 16, 24]) (sample_waited_queue, sample_kernel 8) = (r, (q', k'))"
    by (metis prod.exhaust)
  have "queue_nodes sample_waited_queue []" by (simp add: queue_nodes_def sample_waited_queue_def)
  from queue_append_list [OF sample_kernel_ok this disjI1 [OF refl] _ _ _ _ _ _ _ a, of "[2, 3]"]
  show ?thesis
    using a by (simp add: sample_waited_queue_def z_sfnode_next_peek_def aligned_def plain_items_def sys_sfnode_flags_get_def)
qed

text \<open>
  C34: Appending a list of one item while two threads wait strands the second: it is taken
  off the wait queue and its timeout is cancelled, but it is not put into the ready queue,
  so nothing will run it.
\<close>

theorem queue_append_list_strands_waiter:
  assumes "sched_ok k" "waitqs k (ObjQ (queue_wait_q q)) = t1 # t2 # ts" "y \<noteq> 0" "q_links q y = 0"
    "k_queue_append_list 0 y y (q, k) = (r, (q', k'))"
  shows "r = 0 \<and> \<not> z_is_thread_queued (threads k' t2) \<and> t2 \<notin> set (runq k') \<and>
    (\<forall>w. t2 \<notin> set (waitqs k' w)) \<and> \<not> z_is_thread_timeout_active k' t2"
  using k_queue_append_list_strands [OF assms] by blast

theorem queue_append_list_strands_waiter_witness:
  "3 \<notin> set (runq (snd (snd (k_queue_append_list 0 24 24 (sample_waited_queue, sample_kernel 8)))))"
proof -
  obtain r q' k' where a: "k_queue_append_list 0 24 24 (sample_waited_queue, sample_kernel 8) = (r, (q', k'))"
    by (metis prod.exhaust)
  have "3 \<notin> set (runq k')"
    using queue_append_list_strands_waiter [OF sample_kernel_ok _ _ _ a, of 2 3 "[]"]
    by (simp add: sample_waited_queue_def)
  then show ?thesis by (simp add: a)
qed

end
