(* ===== verification/Objects.thy ===== *)
theory Objects
  imports Sem Condvar Stack Msgq Mem_Slab Queue
begin

text \<open>
  Kernel objects together: an application uses many objects of different kinds on the one
  kernel. Each kind keeps the contract \<open>kernel_object\<close>; so does their union, and a
  system of objects with wait queues of their own keeps all of them well-formed.
\<close>

section \<open>One object of any kind\<close>

datatype kobject =
    Semaphore k_sem
  | Mutex_Object k_mutex
  | Condition k_condvar
  | Lifo k_stack
  | Message_Queue msgq_state
  | Slab "k_mem_slab \<times> words"
  | Fifo k_queue

fun kobject_wq :: "kobject \<Rightarrow> nat" where
  "kobject_wq (Semaphore x) = sem_wait_q x"
| "kobject_wq (Mutex_Object x) = mutex_wait_q x"
| "kobject_wq (Condition x) = condvar_wait_q x"
| "kobject_wq (Lifo x) = stack_wait_q x"
| "kobject_wq (Message_Queue x) = msgq_wq x"
| "kobject_wq (Slab x) = slab_wq x"
| "kobject_wq (Fifo x) = queue_wait_q x"

fun kobject_ok :: "kobject \<Rightarrow> tid \<Rightarrow> tid list \<Rightarrow> bool" where
  "kobject_ok (Semaphore x) = sem_ok x"
| "kobject_ok (Mutex_Object x) = mutex_ok x"
| "kobject_ok (Condition x) = condvar_ok x"
| "kobject_ok (Lifo x) = stack_ok x"
| "kobject_ok (Message_Queue x) = msgq_ok x"
| "kobject_ok (Slab x) = slab_ok x"
| "kobject_ok (Fifo x) = queue_ok x"

inductive kobject_step :: "kobject \<times> kernel \<Rightarrow> kobject \<times> kernel \<Rightarrow> bool" where
  sem: "sem_step (x, k) (x', k') \<Longrightarrow> kobject_step (Semaphore x, k) (Semaphore x', k')"
| mutex: "mutex_step (x, k) (x', k') \<Longrightarrow> kobject_step (Mutex_Object x, k) (Mutex_Object x', k')"
| condvar: "condvar_step (x, k) (x', k') \<Longrightarrow> kobject_step (Condition x, k) (Condition x', k')"
| stack: "stack_step (x, k) (x', k') \<Longrightarrow> kobject_step (Lifo x, k) (Lifo x', k')"
| msgq: "msgq_step (x, k) (x', k') \<Longrightarrow> kobject_step (Message_Queue x, k) (Message_Queue x', k')"
| slab: "slab_step (x, k) (x', k') \<Longrightarrow> kobject_step (Slab x, k) (Slab x', k')"
| queue: "queue_step (x, k) (x', k') \<Longrightarrow> kobject_step (Fifo x, k) (Fifo x', k')"

interpretation kobject: kernel_object kobject_step kobject_wq kobject_ok
proof unfold_locales
  fix ob ob' k k' n
  assume s: "kobject_step (ob, k) (ob', k')" and a: "sched_ok k" "kobject_ok ob (idle0 k) (waitqs k (ObjQ (kobject_wq ob)))"
  from s a show "sched_ok k' \<and> idle0 k' = idle0 k"
    by cases (auto dest: sem.step_sched_ok mutex.step_sched_ok condvar.step_sched_ok
        stack.step_sched_ok msgq.step_sched_ok slab.step_sched_ok queue.step_sched_ok)
  from s a show "kobject_wq ob' = kobject_wq ob \<and> kobject_ok ob' (idle0 k) (waitqs k' (ObjQ (kobject_wq ob)))"
    by cases (auto dest: sem.step_ok mutex.step_ok condvar.step_ok stack.step_ok msgq.step_ok slab.step_ok queue.step_ok)
  assume n: "n \<noteq> kobject_wq ob"
  from s a n show "set (waitqs k' (ObjQ n)) \<subseteq> set (waitqs k (ObjQ n))"
    by cases (simp; metis sem.step_frame mutex.step_frame condvar.step_frame stack.step_frame msgq.step_frame
        slab.step_frame queue.step_frame)+
next
  fix ob i ws ws'
  assume "kobject_ok ob i ws" "set ws' \<subseteq> set ws"
  then show "kobject_ok ob i ws'"
    by (cases ob) (simp_all add: sem.ok_shrink mutex.ok_shrink condvar.ok_shrink stack.ok_shrink msgq.ok_shrink
        slab.ok_shrink queue.ok_shrink)
qed

section \<open>A system of objects\<close>

text \<open>
  A step of the system is a call on one of the objects, a wait on a condition variable, which
  also releases a mutex, or any step of the kernel (a thread
  is created, started, suspended, aborted, sleeps, yields; a clock tick; an interrupt) but
  waiting on a queue behind its object's back.
\<close>

inductive system_step :: "kobject list \<times> kernel \<Rightarrow> kobject list \<times> kernel \<Rightarrow> bool" where
  call: "i < length obs \<Longrightarrow> kobject_step (obs ! i, k) (ob', k') \<Longrightarrow> system_step (obs, k) (obs[i := ob'], k')"
| wait: "i < length obs \<Longrightarrow> j < length obs \<Longrightarrow> obs ! i = Mutex_Object mutex \<Longrightarrow> obs ! j = Condition cv \<Longrightarrow>
    running k \<Longrightarrow> sched_locked (threads k (cur0 k)) \<noteq> 1 \<Longrightarrow> k_condvar_wait 0 d cv (mutex, k) = (mutex', k') \<Longrightarrow>
    system_step (obs, k) (obs[i := Mutex_Object mutex'], k')"
| kernel: "kstep k k' \<Longrightarrow> (\<nexists>n d. k' = z_sched_wait 0 (ObjQ n) d k) \<Longrightarrow> system_step (obs, k) (obs, k')"

definition system_ok :: "kobject list \<times> kernel \<Rightarrow> bool" where
  "system_ok s \<longleftrightarrow> sched_ok (snd s) \<and> distinct (map kobject_wq (fst s)) \<and>
     (\<forall>ob \<in> set (fst s). kobject_ok ob (idle0 (snd s)) (waitqs (snd s) (ObjQ (kobject_wq ob))))"

lemma system_ok_step:
  assumes "system_step s s'" "system_ok s"
  shows "system_ok s'"
  using assms
proof (induction rule: system_step.induct)
  case (call i obs k ob' k')
  let ?o = "obs ! i"
  have ok: "sched_ok k" "distinct (map kobject_wq obs)"
    and o: "\<And>ob. ob \<in> set obs \<Longrightarrow> kobject_ok ob (idle0 k) (waitqs k (ObjQ (kobject_wq ob)))"
    using call.prems by (simp_all add: system_ok_def)
  have oi: "kobject_ok ?o (idle0 k) (waitqs k (ObjQ (kobject_wq ?o)))" using o call.hyps(1) by simp
  note s = kobject.step_sched_ok [OF call.hyps(2) ok(1) oi] kobject.step_ok [OF call.hyps(2) ok(1) oi]
    kobject.step_frame [OF call.hyps(2) ok(1) oi]
  have wq: "map kobject_wq (obs[i := ob']) = map kobject_wq obs"
    using s(2) call.hyps(1) by (simp add: map_update list_update_same_conv)
  have "kobject_ok ob (idle0 k') (waitqs k' (ObjQ (kobject_wq ob)))" if m: "ob \<in> set (obs[i := ob'])" for ob
  proof -
    obtain j where j: "j < length obs" "ob = obs[i := ob'] ! j"
      using m by (metis in_set_conv_nth length_list_update)
    show ?thesis
    proof (cases "j = i")
      case True
      then show ?thesis using j s(1,2) by simp
    next
      case False
      then have ob: "ob = obs ! j" "kobject_wq ob \<noteq> kobject_wq ?o"
        using j ok(2) call.hyps(1) by (auto simp: distinct_conv_nth)
      then show ?thesis using kobject.ok_shrink [OF o s(3)] j(1) s(1) by simp
    qed
  qed
  then show ?case using s(1) ok(2) wq by (simp add: system_ok_def del: map_update)
next
  case (wait i obs j mutex cv k d mutex' k')
  have ok: "sched_ok k" "distinct (map kobject_wq obs)"
    and o: "\<And>j. j < length obs \<Longrightarrow> kobject_ok (obs ! j) (idle0 k) (waitqs k (ObjQ (kobject_wq (obs ! j))))"
    using wait.prems by (simp_all add: system_ok_def)
  have d: "kobject_wq (obs ! l) \<noteq> kobject_wq (obs ! m)" if "l < length obs" "m < length obs" "l \<noteq> m" for l m
    using ok(2) that by (auto simp: distinct_conv_nth)
  have ij: "i \<noteq> j" using wait.hyps(3,4) by auto
  have mo: "mutex_ok mutex (idle0 k) (waitqs k (ObjQ (mutex_wait_q mutex)))"
    and co: "condvar_ok cv (idle0 k) (waitqs k (ObjQ (condvar_wait_q cv)))"
    and ne: "condvar_wait_q cv \<noteq> mutex_wait_q mutex"
    using o [OF wait.hyps(1)] o [OF wait.hyps(2)] d [OF wait.hyps(2,1)] ij wait.hyps(3,4) by simp_all
  note e = k_condvar_wait_effect [OF ok(1) wait.hyps(5,6) mo ne wait.hyps(7)]
  have wq: "map kobject_wq (obs[i := Mutex_Object mutex']) = map kobject_wq obs"
    using e(3) wait.hyps(1,3) by (simp add: map_update list_update_same_conv)
  have "kobject_ok ob (idle0 k') (waitqs k' (ObjQ (kobject_wq ob)))" if m: "ob \<in> set (obs[i := Mutex_Object mutex'])" for ob
  proof -
    obtain l where l: "l < length obs" "ob = obs[i := Mutex_Object mutex'] ! l"
      using m by (metis in_set_conv_nth length_list_update)
    consider "l = i" | "l = j" | "l \<noteq> i" "l \<noteq> j" by blast
    then show ?thesis
    proof cases
      case 1
      then show ?thesis using l e(2-4) by simp
    next
      case 2
      then show ?thesis using l ij wait.hyps(4,5) e(2,5) co by (simp add: condvar_ok_def running_def)
    next
      case 3
      then have "kobject_wq ob \<noteq> mutex_wait_q mutex" "kobject_wq ob \<noteq> condvar_wait_q cv"
        using l d [OF l(1) wait.hyps(1)] d [OF l(1) wait.hyps(2)] wait.hyps(3,4) by simp_all
      from e(8) [OF this] show ?thesis using o [OF l(1)] l(2) 3 e(2) by simp
    qed
  qed
  then show ?case using e(1) ok(2) wq by (simp add: system_ok_def del: map_update)
next
  case (kernel k k' obs)
  have ok: "sched_ok k" using kernel.prems by (simp add: system_ok_def)
  have "waiters_shrink k k'" using kstep_waiters [OF kernel.hyps(1) ok] kernel.hyps(2) by blast
  then have "\<forall>ob\<in>set obs. kobject_ok ob (idle0 k') (waitqs k' (ObjQ (kobject_wq ob)))"
    using kernel.prems kobject.ok_environment by (auto simp: system_ok_def)
  then show ?case using kernel.prems kstep_sched_ok [OF kernel.hyps(1) ok] by (simp add: system_ok_def)
qed

section \<open>Properties\<close>

text \<open>
  C40: Every kernel object stays well-formed. Start with any number of semaphores, mutexes,
  condition variables, stacks, message queues, slabs and queues that have wait queues of
  their own; after any sequence of calls on them, of thread operations and of clock
  interrupts, each is still as its type requires (counts within limits, ring and stack
  pointers inside their buffers, free lists and links complete, owners and waiters
  consistent), and the scheduler's invariants hold.
\<close>

theorem objects_stay_well_formed:
  assumes "system_step\<^sup>*\<^sup>* s s'" "system_ok s"
  shows "system_ok s'"
  using assms by (induction rule: rtranclp_induct) (auto intro: system_ok_step)

theorem objects_stay_well_formed_witness:
  "system_ok ([Semaphore (fst (k_sem_give 0 (\<lparr>sem_wait_q = 4, count = 6, limit = 9\<rparr>, sample_kernel 8))),
     Condition \<lparr>condvar_wait_q = 8\<rparr>],
     snd (k_sem_give 0 (\<lparr>sem_wait_q = 4, count = 6, limit = 9\<rparr>, sample_kernel 8)))"
proof -
  let ?x = "\<lparr>sem_wait_q = 4, count = 6, limit = 9\<rparr>" and ?c = "Condition \<lparr>condvar_wait_q = 8\<rparr>" and ?k = "sample_kernel 8"
  obtain x' k' where g: "k_sem_give 0 (?x, ?k) = (x', k')" by fastforce
  have "sem_step (?x, ?k) (x', k')" using sem_step.give [of "(?x, ?k)"] by (simp add: g)
  then have "kobject_step ([Semaphore ?x, ?c] ! 0, ?k) (Semaphore x', k')" by (simp add: kobject_step.sem)
  from system_step.call [OF _ this] have "system_step ([Semaphore ?x, ?c], ?k) ([Semaphore x', ?c], k')" by simp
  then have "system_step\<^sup>*\<^sup>* ([Semaphore ?x, ?c], ?k) ([Semaphore x', ?c], k')" by blast
  from objects_stay_well_formed [OF this] show ?thesis
    using sample_kernel_ok by (simp add: system_ok_def sem_ok_def condvar_ok_def g)
qed

end
