(* ===== verification/Timer.thy ===== *)
theory Timer
  imports Sample_State
begin

text \<open>
  Kernel timers, \<^verbatim>\<open>kernel/timer.c\<close>. Timer \<open>n\<close> has the timeout \<open>ObjTo n\<close>; its handler
  \<open>z_timer_expiration_handler\<close> meets the contract of the clock (locale \<open>expiry_handlers\<close>),
  so that an announcement ends. The expiry and stop functions of the application are
  parameters. The lemmas give the tick at which a timer first expires and show that a
  periodic timer does not drift, however many periods one announcement covers.
\<close>

section \<open>Definitions\<close>

record k_timer =
  timer_wait_q :: nat
  period :: k_timeout_t
  status :: u32
  user_data :: ptr

type_synonym timers = "nat \<Rightarrow> k_timer"

text \<open>The application's functions change the kernel and the timers; a null pointer is \<open>\<lambda>n s. s\<close>.\<close>

type_synonym timer_fn = "nat \<Rightarrow> kernel \<times> timers \<Rightarrow> kernel \<times> timers"

definition z_timer_expiration_handler :: "cpu_id \<Rightarrow> timer_fn \<Rightarrow> timer_fn" where
  "z_timer_expiration_handler c expiry_fn n s =
     (let (k, ts) = s;
          k = (if period (ts n) \<noteq> K_NO_WAIT \<and> period (ts n) \<noteq> K_FOREVER
               then z_add_timeout c (ObjTo n) (period (ts n)) k else k);
          ts = ts(n := (ts n)\<lparr>status := status (ts n) + 1\<rparr>);
          (k, ts) = expiry_fn n (k, ts)
      in case z_waitq_head (ObjQ (timer_wait_q (ts n))) k of
           None \<Rightarrow> (k, ts)
         | Some thread \<Rightarrow>
             (z_ready_thread c thread (arch_thread_return_value_set thread 0 (z_unpend_thread_no_timeout thread k)), ts))"

definition k_timer_init :: "nat \<Rightarrow> kernel \<times> timers \<Rightarrow> kernel \<times> timers" where
  "k_timer_init n s =
     (let (k, ts) = s
      in (k\<lparr>waitqs := (waitqs k)(ObjQ (timer_wait_q (ts n)) := [])\<rparr>,
          ts(n := (ts n)\<lparr>status := 0, user_data := 0\<rparr>)))"

definition k_timer_start :: "cpu_id \<Rightarrow> nat \<Rightarrow> k_timeout_t \<Rightarrow> k_timeout_t \<Rightarrow> kernel \<times> timers \<Rightarrow> kernel \<times> timers" where
  "k_timer_start c n duration per s =
     (if duration = K_FOREVER then s
      else
        let (k, ts) = s;
            per = (if per \<noteq> K_FOREVER \<and> per \<noteq> 0 \<and> Z_TICK_ABS per < 0 then max (per - 1) 1 else per);
            duration = (if Z_TICK_ABS duration < 0 then max (duration - 1) 0 else duration);
            k = snd (z_abort_timeout (ObjTo n) k);
            ts = ts(n := (ts n)\<lparr>period := per, status := 0\<rparr>)
        in (z_add_timeout c (ObjTo n) duration k, ts))"

definition k_timer_stop :: "cpu_id \<Rightarrow> timer_fn \<Rightarrow> nat \<Rightarrow> kernel \<times> timers \<Rightarrow> kernel \<times> timers" where
  "k_timer_stop c stop_fn n s =
     (let (ret, k) = z_abort_timeout (ObjTo n) (fst s)
      in if ret \<noteq> 0 then (k, snd s)
         else
           let (k, ts) = stop_fn n (k, snd s)
           in case z_unpend1_no_timeout (ObjQ (timer_wait_q (ts n))) k of
                (None, k) \<Rightarrow> (k, ts)
              | (Some t, k) \<Rightarrow> (z_reschedule_unlocked c (z_ready_thread c t k), ts))"

definition k_timer_status_get :: "nat \<Rightarrow> timers \<Rightarrow> u32 \<times> timers" where
  "k_timer_status_get n ts = (status (ts n), ts(n := (ts n)\<lparr>status := 0\<rparr>))"

definition k_timer_status_sync :: "cpu_id \<Rightarrow> nat \<Rightarrow> kernel \<times> timers \<Rightarrow> u32 outcome \<times> (kernel \<times> timers)" where
  "k_timer_status_sync c n s =
     (let (k, ts) = s; result = status (ts n)
      in if result = 0 \<and> \<not> z_is_inactive_timeout k (ObjTo n)
         then (Blocked, (z_pend_curr c (Some (ObjQ (timer_wait_q (ts n)))) K_FOREVER k, ts))
         else (Returned result, (k, ts(n := (ts n)\<lparr>status := 0\<rparr>))))"

definition k_timer_status_sync_resume :: "nat \<Rightarrow> timers \<Rightarrow> u32 \<times> timers" where
  "k_timer_status_sync_resume n ts = (status (ts n), ts(n := (ts n)\<lparr>status := 0\<rparr>))"

definition k_timer_expires_ticks :: "nat \<Rightarrow> kernel \<Rightarrow> int" where
  "k_timer_expires_ticks n k = z_timeout_expires (ObjTo n) k"

definition k_timer_remaining_ticks :: "nat \<Rightarrow> kernel \<Rightarrow> int" where
  "k_timer_remaining_ticks n k = z_timeout_remaining (ObjTo n) k"

definition k_timer_user_data_set :: "nat \<Rightarrow> ptr \<Rightarrow> timers \<Rightarrow> timers" where
  "k_timer_user_data_set n d ts = ts(n := (ts n)\<lparr>user_data := d\<rparr>)"

definition k_timer_user_data_get :: "nat \<Rightarrow> timers \<Rightarrow> ptr" where
  "k_timer_user_data_get n ts = user_data (ts n)"

section \<open>The handler meets the clock's contract\<close>

lemma sched_ok_wake_no_timeout:
  assumes "sched_ok k" "waitqs k w = t # ts"
  shows "sched_ok (z_ready_thread 0 t (arch_thread_return_value_set t v (z_unpend_thread_no_timeout t k)))"
proof -
  have inv: "kinv k" and smp: "\<not> CONFIG_SMP k" using assms(1) by (simp_all add: sched_ok_def)
  have p: "pended_on (threads k t) = Some w" using waitq_member [OF inv, of t w] assms(2) by simp
  have "sched_ok_but {t} (unpend_thread_no_timeout t k)"
    using sched_ok_unpend [of "{}" k t w] assms(1) p by (simp add: sched_ok_but_empty)
  then have "sched_ok_but {t} (arch_thread_return_value_set t v (unpend_thread_no_timeout t k))"
    unfolding arch_thread_return_value_set_def by (rule sched_ok_upd_retval)
  moreover have "\<not> z_is_thread_queued (threads k t)" "t \<noteq> idle0 k"
    using kinv_pended_not_queued [OF inv _ p] pended_not_idle [OF inv p] by simp_all
  ultimately show ?thesis
    using smp sched_ok_ready_thread [of t "{}" "arch_thread_return_value_set t v (unpend_thread_no_timeout t k)"]
    by (simp add: z_unpend_thread_no_timeout_def z_ready_thread_uniprocessor sched_ok_but_empty
        arch_thread_return_value_set_def bit_thread_state)
qed

text \<open>What the application's expiry function may do, called from the handler.\<close>

definition expiry_fn_ok :: "timer_fn \<Rightarrow> bool" where
  "expiry_fn_ok f \<longleftrightarrow>
     (\<forall>n s. announce_remaining (fst (f n s)) = announce_remaining (fst s) \<and> waiters_shrink (fst s) (fst (f n s)) \<and>
        (sched_ok (fst s) \<longrightarrow>
           sched_ok (fst (f n s)) \<and> due_now (timeout_list (fst (f n s))) \<le> due_now (timeout_list (fst s))))"

lemma expiry_fn_okD:
  assumes "expiry_fn_ok f"
  shows "announce_remaining (fst (f n s)) = announce_remaining (fst s)" "waiters_shrink (fst s) (fst (f n s))"
    "sched_ok (fst s) \<Longrightarrow> sched_ok (fst (f n s))"
    "sched_ok (fst s) \<Longrightarrow> due_now (timeout_list (fst (f n s))) \<le> due_now (timeout_list (fst s))"
  using assms by (simp_all add: expiry_fn_ok_def del: split_paired_All)

text \<open>The two halves of the handler: restarting the timer, and waking the waiting thread.\<close>

definition rearm :: "cpu_id \<Rightarrow> nat \<Rightarrow> kernel \<times> timers \<Rightarrow> kernel \<times> timers" where
  "rearm c n s =
     ((if period (snd s n) \<noteq> K_NO_WAIT \<and> period (snd s n) \<noteq> K_FOREVER
       then z_add_timeout c (ObjTo n) (period (snd s n)) (fst s) else fst s),
      (snd s)(n := (snd s n)\<lparr>status := status (snd s n) + 1\<rparr>))"

definition wake_timer :: "cpu_id \<Rightarrow> nat \<Rightarrow> kernel \<times> timers \<Rightarrow> kernel \<times> timers" where
  "wake_timer c n s =
     (case z_waitq_head (ObjQ (timer_wait_q (snd s n))) (fst s) of
        None \<Rightarrow> s
      | Some thread \<Rightarrow>
          (z_ready_thread c thread (arch_thread_return_value_set thread 0 (z_unpend_thread_no_timeout thread (fst s))),
           snd s))"

lemma handler_split:
  "z_timer_expiration_handler c f n s = wake_timer c n (f n (rearm c n s))"
  by (simp add: z_timer_expiration_handler_def rearm_def wake_timer_def Let_def split_beta split: option.split)

lemma wake_timer_ok:
  "sched_ok (fst s) \<Longrightarrow> sched_ok (fst (wake_timer 0 n s))"
  "announce_remaining (fst (wake_timer c n s)) = announce_remaining (fst s)"
  "timeout_list (fst (wake_timer c n s)) = timeout_list (fst s)"
  "clock_elapsed (fst (wake_timer c n s)) = clock_elapsed (fst s)"
  "curr_tick (fst (wake_timer c n s)) = curr_tick (fst s)"
  "snd (wake_timer c n s) = snd s"
proof -
  show "sched_ok (fst (wake_timer 0 n s))" if "sched_ok (fst s)"
    using that sched_ok_wake_no_timeout [OF that]
    by (auto simp: wake_timer_def z_waitq_head_def z_priq_dumb_best_def split: list.split)
qed (auto simp: wake_timer_def z_ready_thread_def arch_thread_return_value_set_def z_unpend_thread_no_timeout_def
    split: option.split)

lemma rearm_ok:
  assumes "sched_ok (fst s)" "z_is_inactive_timeout (fst s) (ObjTo n)"
  shows "sched_ok (fst (rearm c n s))"
    "due_now (timeout_list (fst (rearm c n s))) = due_now (timeout_list (fst s))"
proof -
  have w: "tlist_wf (timeout_list (fst s))" "0 \<le> clock_elapsed (fst s)"
    using assms(1) kinv_tlist [of "{}" "fst s"] by (simp_all add: sched_ok_def)
  show "sched_ok (fst (rearm c n s))" using sched_ok_object_timeout(1) [OF assms] assms(1) by (simp add: rearm_def)
  show "due_now (timeout_list (fst (rearm c n s))) = due_now (timeout_list (fst s))"
    using due_now_insert [OF timeout_dticks_pos] w assms(2)
    by (simp add: rearm_def timeout_list_add tlist_wf_def)
qed

lemma rearm_remaining [simp]: "announce_remaining (fst (rearm c n s)) = announce_remaining (fst s)"
  by (simp add: rearm_def)

lemma handler_shrinks:
  assumes "expiry_fn_ok f"
  shows "waiters_shrink (fst s) (fst (z_timer_expiration_handler c f n s))"
proof -
  have r: "waiters_shrink (fst s) (fst (rearm c n s))" by (simp add: rearm_def)
  have "waiters_shrink (fst u) (fst (wake_timer c n u))" for u
    using shrink_unpend [of "fst u"]
    by (auto simp: wake_timer_def waiters_shrink_def z_ready_thread_def arch_thread_return_value_set_def
        z_unpend_thread_no_timeout_def split: option.split)
  then show ?thesis
    unfolding handler_split using r expiry_fn_okD(2) [OF assms] waiters_shrink_trans by blast
qed

lemma timer_expiry_handlers:
  assumes "expiry_fn_ok f"
  shows "expiry_handlers (z_timer_expiration_handler 0 f)"
proof
  fix s :: "kernel \<times> timers" and n
  show "announce_remaining (fst (z_timer_expiration_handler 0 f n s)) = announce_remaining (fst s)"
    using expiry_fn_okD(1) [OF assms] by (simp add: handler_split wake_timer_ok)
  assume ok: "sched_ok (fst s)" and i: "z_is_inactive_timeout (fst s) (ObjTo n)"
  note r = rearm_ok [OF ok i, of 0]
  show "sched_ok (fst (z_timer_expiration_handler 0 f n s))"
    using expiry_fn_okD(3) [OF assms r(1)] by (simp add: handler_split wake_timer_ok)
  show "due_now (timeout_list (fst (z_timer_expiration_handler 0 f n s))) \<le> due_now (timeout_list (fst s))"
    using expiry_fn_okD(4) [OF assms r(1), of n] r(2) by (simp add: handler_split wake_timer_ok)
qed

text \<open>Timers without an expiry function.\<close>

lemma null_expiry_fn: "expiry_fn_ok (\<lambda>n s. s)"
  by (simp add: expiry_fn_ok_def)

interpretation null_timers: expiry_handlers "z_timer_expiration_handler 0 (\<lambda>n s. s)"
  using null_expiry_fn by (rule timer_expiry_handlers)

section \<open>When a timer expires\<close>

lemma k_timer_start_remaining:
  assumes "tlist_wf (timeout_list k)" "0 \<le> clock_elapsed k" "duration \<noteq> K_FOREVER" "Z_TICK_ABS duration < 0"
  shows "k_timer_remaining_ticks n (fst (k_timer_start c n duration per (k, ts))) = max duration 1"
    and "u \<noteq> ObjTo n \<Longrightarrow> timeout_rem u (fst (k_timer_start c n duration per (k, ts))) = timeout_rem u k"
proof -
  let ?k = "snd (z_abort_timeout (ObjTo n) k)" and ?d = "max (duration - 1) 0"
  have d: "?d \<noteq> K_FOREVER" "Z_TICK_ABS ?d < 0" using assms(3,4) by (simp_all add: Z_TICK_ABS_def)
  have r: "timeout_rem u (fst (k_timer_start c n duration per (k, ts))) =
      (if u = ObjTo n then timeout_dticks ?k ?d - elapsed ?k else timeout_rem u ?k)" for u
    using timeout_rem_add [of ?k "ObjTo n" ?d u c] d(1) assms tlist_wf_abort [OF assms(1)] inactive_abort [OF assms(1)]
    by (simp add: k_timer_start_def Let_def)
  show "k_timer_remaining_ticks n (fst (k_timer_start c n duration per (k, ts))) = max duration 1"
    using r d(2) by (simp add: k_timer_remaining_ticks_def z_timeout_remaining_def timeout_dticks_def)
  show "u \<noteq> ObjTo n \<Longrightarrow> timeout_rem u (fst (k_timer_start c n duration per (k, ts))) = timeout_rem u k"
    using r timeout_rem_abort [OF assms(1)] by simp
qed

text \<open>
  The period of a timer is what its handler adds: the stored value and one tick. One
  announcement of \<open>ticks\<close> ticks expires the timer at every multiple of its period that it
  covers and leaves the remainder to the next expiry.
\<close>

definition expiries :: "int \<Rightarrow> int \<Rightarrow> int \<Rightarrow> nat" where
  "expiries d p ticks = (if ticks < d then 0 else Suc (nat ((ticks - d) div p)))"

lemma expiries_step:
  assumes "d \<le> ticks" "0 < p"
  shows "expiries d p ticks = Suc (expiries p p (ticks - d))"
proof (cases "ticks - d < p")
  case True
  then have "(ticks - d) div p = 0" using assms by simp
  then show ?thesis using assms True by (simp add: expiries_def)
next
  case False
  then have "(ticks - d) div p = (ticks - d - p) div p + 1" using assms(2) by (intro div_pos_geq) simp_all
  moreover have "0 \<le> (ticks - d - p) div p" using assms(2) False by (simp add: pos_imp_zdiv_nonneg_iff)
  ultimately have "nat ((ticks - d) div p) = Suc (nat ((ticks - d - p) div p))" by simp
  then show ?thesis using assms(1) False by (simp add: expiries_def)
qed

lemma rest_step:
  fixes ticks d p :: int
  assumes "d \<le> ticks" "0 < p"
  shows "(ticks - d) mod p = (if ticks - d < p then ticks - d else (ticks - d - p) mod p)"
proof (cases "ticks - d < p")
  case True
  then have "(ticks - d) mod p = ticks - d" using assms by simp
  then show ?thesis using True by simp
next
  case False
  then have "(ticks - d) mod p = (ticks - d - p) mod p" using assms(2) by (intro mod_pos_geq) simp_all
  then show ?thesis using False by simp
qed

lemma periodic_fire:
  assumes "timeout_list k = [(ObjTo n, d)]" "clock_elapsed k = 0" "waitqs k (ObjQ (timer_wait_q (ts n))) = []"
    and "period (ts n) = p - 1" "1 < p" "Z_TICK_ABS (p - 1) < 0"
    and s_def: "s = fire_timeout c (z_timer_expiration_handler c (\<lambda>n s. s)) (ObjTo n) (announce_pop (ObjTo n) d [] k, ts)"
  shows "timeout_list (fst s) = [(ObjTo n, p)]" "clock_elapsed (fst s) = 0"
    "announce_remaining (fst s) = announce_remaining k - d" "waitqs (fst s) = waitqs k"
    "snd s = ts(n := (ts n)\<lparr>status := status (ts n) + 1\<rparr>)"
proof -
  let ?k = "announce_pop (ObjTo n) d [] k"
  have e: "elapsed ?k = 0" using assms(2) by (simp add: elapsed_def announce_pop_def)
  have tl: "timeout_list ?k = []" by (simp add: announce_pop_def)
  have s: "s = wake_timer c n (rearm c n (?k, ts))"
    by (simp add: s_def fire_timeout_def handler_split)
  have p: "p - 1 \<noteq> K_NO_WAIT" "p - 1 \<noteq> K_FOREVER" using assms(5) by simp_all
  have w: "wake_timer c n (rearm c n (?k, ts)) = rearm c n (?k, ts)"
    using assms(3,4) p by (simp add: wake_timer_def rearm_def z_waitq_head_def z_priq_dumb_best_def)
  show "timeout_list (fst s) = [(ObjTo n, p)]" "clock_elapsed (fst s) = 0"
    "announce_remaining (fst s) = announce_remaining k - d" "waitqs (fst s) = waitqs k"
    "snd s = ts(n := (ts n)\<lparr>status := status (ts n) + 1\<rparr>)"
    using assms(2,4,6) p e tl unfolding s w
    by (simp_all add: rearm_def timeout_list_add timeout_dticks_def announce_pop_def)
qed

lemma periodic_loop:
  assumes "timeout_list k = [(ObjTo n, d)]" "clock_elapsed k = 0" "waitqs k (ObjQ (timer_wait_q (ts n))) = []"
    and "period (ts n) = p - 1" "1 < p" "Z_TICK_ABS (p - 1) < 0" "1 \<le> d" "nat (announce_remaining k) < fuel"
    and "0 \<le> announce_remaining k"
  shows "\<exists>k' ts'. announce_loop fuel c (z_timer_expiration_handler c (\<lambda>n s. s)) (k, ts) = Some (k', ts') \<and>
    ts' n = (ts n)\<lparr>status := status (ts n) + of_nat (expiries d p (announce_remaining k))\<rparr> \<and>
    timeout_list k' = [(ObjTo n, if announce_remaining k < d then d else p)] \<and>
    announce_remaining k' = (if announce_remaining k < d then announce_remaining k else (announce_remaining k - d) mod p)"
  using assms
proof (induction fuel arbitrary: k ts d)
  case (Suc fuel)
  let ?h = "z_timer_expiration_handler c (\<lambda>n s. s)"
  let ?A = "announce_remaining k"
  show ?case
  proof (cases "?A < d")
    case True
    then show ?thesis using Suc.prems by (simp add: expiries_def)
  next
    case False
    define s where "s = fire_timeout c ?h (ObjTo n) (announce_pop (ObjTo n) d [] k, ts)"
    note f = periodic_fire [OF Suc.prems(1-6) s_def]
    have l: "announce_loop (Suc fuel) c ?h (k, ts) = announce_loop fuel c ?h (fst s, snd s)"
      using Suc.prems(1) False by (simp add: s_def)
    have w: "waitqs (fst s) (ObjQ (timer_wait_q (snd s n))) = []" "period (snd s n) = p - 1"
      using f Suc.prems by simp_all
    have A: "nat (announce_remaining (fst s)) < fuel" "0 \<le> announce_remaining (fst s)" "1 \<le> p"
      using f(3) Suc.prems(5,7,8) False by simp_all
    obtain k' ts' where r: "announce_loop fuel c ?h (fst s, snd s) = Some (k', ts')"
      "ts' n = (snd s n)\<lparr>status := status (snd s n) + of_nat (expiries p p (?A - d))\<rparr>"
      "timeout_list k' = [(ObjTo n, if ?A - d < p then p else p)]"
      "announce_remaining k' = (if ?A - d < p then ?A - d else (?A - d - p) mod p)"
      using Suc.IH [of "fst s" p "snd s", OF f(1,2) w Suc.prems(5,6) A(3,1,2)] unfolding f(3) by blast
    have "announce_remaining k' = (?A - d) mod p" using r(4) rest_step [of d ?A p] False Suc.prems(5) by simp
    then show ?thesis
      using l r f(5) expiries_step [of d ?A p] False Suc.prems(5) by auto
  qed
qed simp

lemma periodic_announce:
  assumes "timeout_list k = [(ObjTo n, d)]" "clock_elapsed k = 0" "waitqs k (ObjQ (timer_wait_q (ts n))) = []"
    and "period (ts n) = p - 1" "1 < p" "Z_TICK_ABS (p - 1) < 0" "1 \<le> d" "0 \<le> ticks"
  shows "\<exists>k' ts'. sys_clock_announce (Suc (nat ticks)) c (z_timer_expiration_handler c (\<lambda>n s. s)) ticks (k, ts) = Some (k', ts') \<and>
    status (ts' n) = status (ts n) + of_nat (expiries d p ticks) \<and>
    timeout_list k' = [(ObjTo n, if ticks < d then d - ticks else p - (ticks - d) mod p)]"
proof -
  define k1 where "k1 = (z_time_slice c ticks k)\<lparr>announce_remaining := ticks\<rparr>"
  have f: "timeout_list k1 = [(ObjTo n, d)]" "clock_elapsed k1 = 0" "waitqs k1 (ObjQ (timer_wait_q (ts n))) = []"
    and A: "announce_remaining k1 = ticks"
    using assms(1-3) by (simp_all add: k1_def z_time_slice_def move_thread_to_end_of_prio_q_def Let_def)
  have n: "nat (announce_remaining k1) < Suc (nat ticks)" "0 \<le> announce_remaining k1" using A assms(8) by simp_all
  obtain k' ts' where l: "announce_loop (Suc (nat ticks)) c (z_timer_expiration_handler c (\<lambda>n s. s)) (k1, ts) = Some (k', ts')"
    "ts' n = (ts n)\<lparr>status := status (ts n) + of_nat (expiries d p ticks)\<rparr>"
    "timeout_list k' = [(ObjTo n, if ticks < d then d else p)]"
    "announce_remaining k' = (if ticks < d then ticks else (ticks - d) mod p)"
    using periodic_loop [of k1 n d ts p "Suc (nat ticks)" c, OF f assms(4-7) n] unfolding A by blast
  have "sys_clock_announce (Suc (nat ticks)) c (z_timer_expiration_handler c (\<lambda>n s. s)) ticks (k, ts) =
      Some (announce_finish c k', ts')"
    using l(1) by (simp add: sys_clock_announce_def Let_def k1_def del: announce_loop.simps)
  moreover have "timeout_list (announce_finish c k') =
      [(ObjTo n, if ticks < d then d - ticks else p - (ticks - d) mod p)]"
    using l(3,4) by (simp add: announce_finish_def Let_def sys_clock_set_timeout_def)
  ultimately show ?thesis using l(2) by auto
qed

text \<open>The period that \<open>k_timer_start\<close> sets: one tick becomes two.\<close>

lemma k_timer_start_period:
  assumes "duration \<noteq> K_FOREVER" "0 < per" "Z_TICK_ABS per < 0"
  shows "period (snd (k_timer_start c n duration per (k, ts)) n) = max per 2 - 1"
  using assms by (auto simp: k_timer_start_def Let_def)

section \<open>The contract\<close>

text \<open>A call on timer \<open>n\<close> of a set of timers.\<close>

definition stop_fn_ok :: "timer_fn \<Rightarrow> bool" where
  "stop_fn_ok f \<longleftrightarrow> (\<forall>n s. waiters_shrink (fst s) (fst (f n s)) \<and> (sched_ok (fst s) \<longrightarrow> sched_ok (fst (f n s))))"

lemma k_timer_start_effect:
  assumes "sched_ok k" "k_timer_start 0 n duration per (k, ts) = (k', ts')"
  shows "sched_ok k'" "waiters_shrink k k'"
proof -
  let ?k = "snd (z_abort_timeout (ObjTo n) k)"
  have w: "tlist_wf (timeout_list k)" using assms(1) kinv_tlist [of "{}" k] by (simp add: sched_ok_def)
  have "sched_ok ?k" using sched_ok_object_timeout(2) [OF assms(1)] .
  moreover have "z_is_inactive_timeout ?k (ObjTo n)" using inactive_abort [OF w] by simp
  ultimately have "sched_ok (z_add_timeout 0 (ObjTo n) d ?k)" for d using sched_ok_object_timeout(1) by blast
  then show "sched_ok k'" "waiters_shrink k k'"
    using assms by (auto simp: k_timer_start_def Let_def split: if_splits)
qed

lemma k_timer_stop_effect:
  assumes "sched_ok k" "stop_fn_ok f" "k_timer_stop 0 f n (k, ts) = (k', ts')"
  shows "sched_ok k'" "waiters_shrink k k'"
proof -
  obtain r k1 where a: "z_abort_timeout (ObjTo n) k = (r, k1)" by fastforce
  obtain k2 ts2 where f: "f n (k1, ts) = (k2, ts2)" by fastforce
  have k1: "sched_ok k1" "waiters_shrink k k1"
    using sched_ok_object_timeout(2) [OF assms(1), of n] a by (auto simp: z_abort_timeout_def split: if_splits)
  have k2: "sched_ok k2" "waiters_shrink k k2"
  proof -
    have "waiters_shrink (fst (k1, ts)) (fst (f n (k1, ts)))" "sched_ok (fst (k1, ts)) \<longrightarrow> sched_ok (fst (f n (k1, ts)))"
      using assms(2) unfolding stop_fn_ok_def by blast+
    then show "sched_ok k2" "waiters_shrink k k2" using f k1 waiters_shrink_trans by auto
  qed
  let ?w = "ObjQ (timer_wait_q (ts2 n))"
  have "sched_ok k' \<and> waiters_shrink k k'"
  proof (cases "r \<noteq> 0")
    case True
    then show ?thesis using assms(3) a k1 by (simp add: k_timer_stop_def)
  next
    case False
    show ?thesis
    proof (cases "waitqs k2 ?w")
      case Nil
      then show ?thesis
        using False assms(3) a f k2 by (simp add: k_timer_stop_def z_unpend1_no_timeout_def z_priq_dumb_best_def)
    next
      case (Cons t tl)
      let ?k3 = "unpend_thread_no_timeout t k2"
      have k': "k' = z_reschedule_unlocked 0 (z_ready_thread 0 t ?k3)"
        using False assms(3) a f Cons by (simp add: k_timer_stop_def z_unpend1_no_timeout_def z_priq_dumb_best_def)
      have p: "pended_on (threads k2 t) = Some ?w" and inv: "kinv k2"
        using waitq_member [of "{}" k2 t ?w] k2(1) Cons by (simp_all add: sched_ok_def)
      have "sched_ok_but {t} ?k3"
        using sched_ok_unpend [of "{}" k2 t ?w] k2(1) p by (simp add: sched_ok_but_empty)
      then have r: "sched_ok (ready_thread 0 t ?k3)"
        using sched_ok_ready_thread [of t "{}" ?k3] kinv_pended_not_queued [OF inv _ p] pended_not_idle [OF inv p]
        by (simp add: sched_ok_but_empty bit_thread_state)
      have "z_ready_thread 0 t ?k3 = ready_thread 0 t ?k3"
        using k2(1) by (simp add: z_ready_thread_uniprocessor)
      moreover have "waiters_shrink k ?k3" using waiters_shrink_trans [OF k2(2) shrink_unpend] .
      ultimately show ?thesis
        using k' sched_ok_reschedule_unlocked [OF r] sched_ok_smp [OF r] by (simp add: waiters_shrink_def)
    qed
  qed
  then show "sched_ok k'" "waiters_shrink k k'" by blast+
qed

section \<open>Properties\<close>

lemma k_timer_start_alone:
  assumes "timeout_list k = []" "clock_elapsed k = 0" "duration \<noteq> K_FOREVER" "Z_TICK_ABS duration < 0"
    "k_timer_start c n duration per (k, ts) = (k', ts')"
  shows "timeout_list k' = [(ObjTo n, max duration 1)]" "clock_elapsed k' = 0" "waitqs k' = waitqs k"
    "status (ts' n) = 0" "timer_wait_q (ts' n) = timer_wait_q (ts n)"
proof -
  let ?d = "max (duration - 1) 0"
  have d: "?d \<noteq> K_FOREVER" "Z_TICK_ABS ?d < 0" by (auto simp: Z_TICK_ABS_def)
  have a: "z_abort_timeout (ObjTo n) k = (- EINVAL, k)"
    using assms(1) by (simp add: z_abort_timeout_def z_is_inactive_timeout_def)
  have k': "k' = z_add_timeout c (ObjTo n) ?d k" and ts': "status (ts' n) = 0" "timer_wait_q (ts' n) = timer_wait_q (ts n)"
    using assms(3-5) a by (auto simp: k_timer_start_def Let_def)
  have e: "elapsed k = 0" using assms(2) by (simp add: elapsed_def)
  show "timeout_list k' = [(ObjTo n, max duration 1)]"
    using assms(1) d e by (simp add: k' timeout_list_add timeout_dticks_def)
  show "clock_elapsed k' = 0" "waitqs k' = waitqs k" using assms(2) by (simp_all add: k')
  show "status (ts' n) = 0" "timer_wait_q (ts' n) = timer_wait_q (ts n)" by (rule ts')+
qed

text \<open>
  C27: Starting a timer with a relative duration of d ticks makes its first expiry max d 1
  ticks away and changes the remaining time of no other timeout.
\<close>

theorem timer_start_remaining:
  assumes "tlist_wf (timeout_list k)" "0 \<le> clock_elapsed k" "duration \<noteq> K_FOREVER" "Z_TICK_ABS duration < 0"
  shows "k_timer_remaining_ticks n (fst (k_timer_start c n duration per (k, ts))) = max duration 1 \<and>
    (\<forall>u. u \<noteq> ObjTo n \<longrightarrow> timeout_rem u (fst (k_timer_start c n duration per (k, ts))) = timeout_rem u k)"
  using k_timer_start_remaining [OF assms] by blast

theorem timer_start_remaining_witness:
  "k_timer_remaining_ticks 3 (fst (k_timer_start 0 3 25 0 (sample_kernel 8, \<lambda>_. \<lparr>timer_wait_q = 9, period = 0, status = 0, user_data = 0\<rparr>))) = 25"
  using timer_start_remaining [of "sample_kernel 8" 25 3 0 0]
  by (simp add: tlist_wf_def Z_TICK_ABS_def)



end
