(* ===== verification/Word_Tools.thy ===== *)
theory Word_Tools
  imports Kernel_Prelude
begin

text \<open>
  Facts on words shared by the theories of the data utilities: case analysis over small
  words, nibbles, and words that represent list lengths.
\<close>

lemma upt_expand:
  "[0..<8] = [0, 1, 2, 3, 4, 5, 6, 7 :: nat]"
  "[0..<16] = [0, 1, 2, 3, 4, 5, 6, 7, 8, 9, 10, 11, 12, 13, 14, 15 :: nat]"
  by code_simp+

lemma funpow_expand:
  "(f ^^ 4) x = f (f (f (f x)))"
  "(f ^^ 8) x = f (f (f (f (f (f (f (f x)))))))"
  by (simp_all add: eval_nat_numeral)

lemma word_below:
  fixes x :: "'a::len word"
  assumes "list_all (\<lambda>i. P (word_of_nat i)) [0..<n]" "unat x < n"
  shows "P x"
  using assms by (auto simp: list_all_iff dest: bspec [of _ _ "unat x"])

lemma unat_and_15: "unat (c AND 0x0f) < 16" for c :: "'a::len word"
proof -
  have "c AND 0x0f = take_bit 4 c" by (simp add: take_bit_eq_mask mask_eq_exp_minus_1)
  then have "unat (c AND 0x0f) = take_bit 4 (unat c)" by (simp add: unsigned_take_bit_eq)
  then show ?thesis using take_bit_nat_less_exp [of 4 "unat c"] by simp
qed

lemma unat_drop_4: "unat (drop_bit 4 b) < 16" for b :: u8
  using take_bit_nat_less_exp [of 8 "unat b"] by (simp only: unsigned_drop_bit_eq) (simp add: drop_bit_eq_div)

lemma foldl_nth: "foldl (\<lambda>c i. f c (xs ! i)) a [0..<length xs] = foldl f a xs"
proof -
  have "foldl f a (map ((!) xs) [0..<length xs]) = foldl (\<lambda>c i. f c (xs ! i)) a [0..<length xs]"
    by (simp only: foldl_map)
  then show ?thesis by (simp add: map_nth)
qed

text \<open>A buffer of bytes holds a list at an offset, and is as before elsewhere.\<close>

definition stored :: "nat \<Rightarrow> 'a list \<Rightarrow> (nat \<Rightarrow> 'a) \<Rightarrow> nat \<Rightarrow> 'a" where
  "stored i xs f = (\<lambda>j. if i \<le> j \<and> j < i + length xs then xs ! (j - i) else f j)"

lemma stored_Nil [simp]: "stored i [] f = f"
  by (rule ext) (auto simp: stored_def)

lemma stored_Cons: "stored i (x # xs) f = stored (Suc i) xs (f(i := x))"
  by (auto simp: stored_def fun_eq_iff nth_Cons' Suc_le_eq)

lemma stored_append: "stored i (xs @ ys) f = stored (i + length xs) ys (stored i xs f)"
  by (induction xs arbitrary: i f) (simp_all add: stored_Cons)

lemma stored_outside: "j < i \<or> i + length xs \<le> j \<Longrightarrow> stored i xs f j = f j"
  by (auto simp: stored_def)

lemma stored_inside: "j < length xs \<Longrightarrow> stored i xs f (i + j) = xs ! j"
  by (simp add: stored_def)

end
