(* ===== verification/Crc.thy ===== *)
theory Crc
  imports Word_Tools
begin

text \<open>
  Cyclic redundancy checks, \<^verbatim>\<open>lib/os/crc7_sw.c\<close>, \<^verbatim>\<open>crc8_sw.c\<close>, \<^verbatim>\<open>crc16_sw.c\<close>,
  \<^verbatim>\<open>crc32_sw.c\<close> and \<^verbatim>\<open>crc32c_sw.c\<close>. The optimised routines (tables of 16 entries, folded
  shifts) are shown equal to division by the polynomial bit by bit. All steps are linear
  over exclusive or, and two linear functions are equal when they agree on the powers of two.
\<close>

section \<open>Definitions\<close>

definition crc16_bit :: "u16 \<Rightarrow> u16 \<Rightarrow> u16 \<Rightarrow> u16" where
  "crc16_bit polynomial input crc =
     (let divide = crc AND 0x8000;
          crc = push_bit 1 crc;
          crc = crc OR input
      in if divide \<noteq> 0 then crc XOR polynomial else crc)"

definition crc16 :: "u8 list \<Rightarrow> u16 \<Rightarrow> u16 \<Rightarrow> bool \<Rightarrow> u16" where
  "crc16 src polynomial initial_value pad =
     foldl (\<lambda>crc i.
         foldl (\<lambda>crc b. crc16_bit polynomial
                  (if i < length src then of_bool (src ! i AND drop_bit b 0x80 \<noteq> 0) else 0) crc)
           crc [0..<8])
       initial_value [0..<length src + (if pad then 2 else 0)]"

definition crc16_ccitt :: "u16 \<Rightarrow> u8 list \<Rightarrow> u16" where
  "crc16_ccitt seed src =
     foldl (\<lambda>seed s.
         let e = ucast seed XOR s;
             f = e XOR push_bit 4 e
         in drop_bit 8 seed XOR push_bit 8 (ucast (f :: u8)) XOR push_bit 3 (ucast f) XOR drop_bit 4 (ucast f))
       seed src"

definition crc16_itu_t :: "u16 \<Rightarrow> u8 list \<Rightarrow> u16" where
  "crc16_itu_t seed src =
     foldl (\<lambda>seed s.
         let seed = drop_bit 8 seed OR push_bit 8 seed;
             seed = seed XOR ucast s;
             seed = seed XOR drop_bit 4 (seed AND 0xff);
             seed = seed XOR push_bit 12 seed
         in seed XOR push_bit 5 (seed AND 0xff))
       seed src"

definition crc32_table :: "u32 list" where
  "crc32_table =
     [0x00000000, 0x1db71064, 0x3b6e20c8, 0x26d930ac,
      0x76dc4190, 0x6b6b51f4, 0x4db26158, 0x5005713c,
      0xedb88320, 0xf00f9344, 0xd6d6a3e8, 0xcb61b38c,
      0x9b64c2b0, 0x86d3d2d4, 0xa00ae278, 0xbdbdf21c]"

definition crc32_ieee_update :: "u32 \<Rightarrow> u8 list \<Rightarrow> u32" where
  "crc32_ieee_update crc data =
     NOT (foldl (\<lambda>crc byte.
         let crc = drop_bit 4 crc XOR crc32_table ! unat ((crc XOR ucast byte) AND 0x0f)
         in drop_bit 4 crc XOR crc32_table ! unat ((crc XOR drop_bit 4 (ucast byte)) AND 0x0f))
       (NOT crc) data)"

definition crc32_ieee :: "u8 list \<Rightarrow> u32" where
  "crc32_ieee data = crc32_ieee_update 0 data"

definition crc32c_table :: "u32 list" where
  "crc32c_table =
     [0x00000000, 0x105EC76F, 0x20BD8EDE, 0x30E349B1,
      0x417B1DBC, 0x5125DAD3, 0x61C69362, 0x7198540D,
      0x82F63B78, 0x92A8FC17, 0xA24BB5A6, 0xB21572C9,
      0xC38D26C4, 0xD3D3E1AB, 0xE330A81A, 0xF36E6F75]"

definition crc32_c :: "u32 \<Rightarrow> u8 list \<Rightarrow> bool \<Rightarrow> bool \<Rightarrow> u32" where
  "crc32_c crc data first_pkt last_pkt =
     (let crc = (if first_pkt then 0xFFFFFFFF else crc);
          crc = foldl (\<lambda>crc byte.
              let crc = crc32c_table ! unat ((crc XOR ucast byte) AND 0x0F) XOR drop_bit 4 crc
              in crc32c_table ! unat ((crc XOR drop_bit 4 (ucast byte)) AND 0x0F) XOR drop_bit 4 crc)
            crc data
      in if last_pkt then crc XOR 0xFFFFFFFF else crc)"

definition crc7_be :: "u8 \<Rightarrow> u8 list \<Rightarrow> u8" where
  "crc7_be seed src =
     foldl (\<lambda>seed s.
         let e = seed XOR s;
             f = e XOR drop_bit 4 e XOR drop_bit 7 e
         in push_bit 1 f XOR push_bit 4 f)
       seed src"

definition crc8_ccitt_small_table :: "u8 list" where
  "crc8_ccitt_small_table =
     [0x00, 0x07, 0x0e, 0x09, 0x1c, 0x1b, 0x12, 0x15,
      0x38, 0x3f, 0x36, 0x31, 0x24, 0x23, 0x2a, 0x2d]"

definition crc8_ccitt :: "u8 \<Rightarrow> u8 list \<Rightarrow> u8" where
  "crc8_ccitt val buf =
     foldl (\<lambda>val p.
         let val = val XOR p;
             val = push_bit 4 val XOR crc8_ccitt_small_table ! unat (drop_bit 4 val)
         in push_bit 4 val XOR crc8_ccitt_small_table ! unat (drop_bit 4 val))
       val buf"

definition crc8_bit :: "u8 \<Rightarrow> bool \<Rightarrow> u8 \<Rightarrow> u8" where
  "crc8_bit polynomial reversed crc =
     (if reversed then
        if crc AND 0x01 \<noteq> 0 then drop_bit 1 crc XOR polynomial else drop_bit 1 crc
      else
        if crc AND 0x80 \<noteq> 0 then push_bit 1 crc XOR polynomial else push_bit 1 crc)"

definition crc8 :: "u8 list \<Rightarrow> u8 \<Rightarrow> u8 \<Rightarrow> bool \<Rightarrow> u8" where
  "crc8 src polynomial initial_value reversed =
     foldl (\<lambda>crc s. (crc8_bit polynomial reversed ^^ 8) (crc XOR s)) initial_value src"

section \<open>Division bit by bit\<close>

text \<open>
  One step divides the remainder by the polynomial: shifted to the left for the usual bit
  order, to the right for the reflected one. A byte enters at the end that is shifted out.
\<close>

definition lstep :: "'a::len word \<Rightarrow> 'a word \<Rightarrow> 'a word" where
  "lstep p c = (if bit c (LENGTH('a) - 1) then push_bit 1 c XOR p else push_bit 1 c)"

definition rstep :: "'a::len word \<Rightarrow> 'a word \<Rightarrow> 'a word" where
  "rstep p c = (if bit c 0 then drop_bit 1 c XOR p else drop_bit 1 c)"

definition poly_div :: "'a::len word \<Rightarrow> 'a word \<Rightarrow> u8 list \<Rightarrow> 'a word" where
  "poly_div p = foldl (\<lambda>c b. (lstep p ^^ 8) (c XOR push_bit (LENGTH('a) - 8) (ucast b)))"

definition poly_div_reflected :: "'a::len word \<Rightarrow> 'a word \<Rightarrow> u8 list \<Rightarrow> 'a word" where
  "poly_div_reflected p = foldl (\<lambda>c b. (rstep p ^^ 8) (c XOR ucast b))"

section \<open>Linearity\<close>

definition xor_linear :: "('a::len word \<Rightarrow> 'b::len word) \<Rightarrow> bool" where
  "xor_linear f \<longleftrightarrow> (\<forall>x y. f (x XOR y) = f x XOR f y)"

named_theorems linear_intros \<open>linearity over exclusive or\<close>

lemma xor_linearD: "xor_linear f \<Longrightarrow> f (x XOR y) = f x XOR f y"
  by (simp add: xor_linear_def)

lemma xor_linear_0: "xor_linear f \<Longrightarrow> f 0 = 0"
  using xor_linearD [of f 0 0] by simp

lemma xor_linear_id [linear_intros]: "xor_linear (\<lambda>x. x)"
  by (simp add: xor_linear_def)

lemma xor_linear_xor [linear_intros]: "xor_linear f \<Longrightarrow> xor_linear g \<Longrightarrow> xor_linear (\<lambda>x. f x XOR g x)"
  unfolding xor_linear_def by (metis (no_types, lifting) xor.assoc xor.commute)

lemma xor_linear_shift [linear_intros]:
  "xor_linear f \<Longrightarrow> xor_linear (\<lambda>x. push_bit n (f x))"
  "xor_linear f \<Longrightarrow> xor_linear (\<lambda>x. drop_bit n (f x))"
  by (simp_all add: xor_linear_def push_bit_xor drop_bit_xor)

lemma xor_linear_and [linear_intros]: "xor_linear f \<Longrightarrow> xor_linear (\<lambda>x. f x AND m)"
  by (simp add: xor_linear_def bit.conj_xor_distrib2)

lemma xor_linear_ucast [linear_intros]:
  "xor_linear f \<Longrightarrow> xor_linear (\<lambda>x. ucast (f x :: 'b::len word) :: 'c::len word)"
  by (simp add: xor_linear_def unsigned_xor_eq)

lemma xor_linear_comp: "xor_linear f \<Longrightarrow> xor_linear g \<Longrightarrow> xor_linear (\<lambda>x. f (g x))"
  by (simp add: xor_linear_def)

lemma xor_linear_funpow [linear_intros]: "xor_linear f \<Longrightarrow> xor_linear (f ^^ n)"
  for f :: "'a::len word \<Rightarrow> 'a word"
  by (induction n) (auto simp: xor_linear_def)

lemma xor_linear_conditional:
  assumes "xor_linear g"
  shows "xor_linear (\<lambda>c. if bit c n then g c XOR p else g c)"
  unfolding xor_linear_def
proof (intro allI)
  fix x y
  have "a XOR b XOR p XOR p = a XOR b" for a b :: "'b word" by (simp add: xor.assoc)
  then show "(if bit (x XOR y) n then g (x XOR y) XOR p else g (x XOR y)) =
      (if bit x n then g x XOR p else g x) XOR (if bit y n then g y XOR p else g y)"
    using xor_linearD [OF assms, of x y] by (auto simp: bit_xor_iff ac_simps xor_self_eq)
qed

lemma xor_linear_steps [linear_intros]: "xor_linear (lstep p)" "xor_linear (rstep p)"
  unfolding lstep_def [abs_def] rstep_def [abs_def]
  by (rule xor_linear_conditional, intro linear_intros)+

text \<open>A linear function is determined by its values on the powers of two.\<close>

lemma xor_linear_basis:
  fixes f g :: "'a::len word \<Rightarrow> 'b::len word"
  assumes "xor_linear f" "xor_linear g" "\<And>i. i < LENGTH('a) \<Longrightarrow> f (2 ^ i) = g (2 ^ i)"
  shows "f = g"
proof -
  have "f (take_bit n x) = g (take_bit n x)" if "n \<le> LENGTH('a)" for n x
    using that
  proof (induction n)
    case 0
    then show ?case using assms(1,2) by (simp add: xor_linear_0)
  next
    case (Suc n)
    have "take_bit (Suc n) x = take_bit n x XOR (if bit x n then 2 ^ n else 0)"
      by (rule bit_eqI) (auto simp: bit_simps less_Suc_eq)
    then show ?case
      using Suc assms xor_linearD [OF assms(1)] xor_linearD [OF assms(2)]
        xor_linear_0 [OF assms(1)] xor_linear_0 [OF assms(2)] by auto
  qed
  from this [of "LENGTH('a)"] show ?thesis by (simp add: fun_eq_iff take_bit_length_eq)
qed

lemma xor_linear_basis_list:
  fixes f g :: "'a::len word \<Rightarrow> 'b::len word"
  assumes "xor_linear f" "xor_linear g" "list_all (\<lambda>i. f (2 ^ i) = g (2 ^ i)) [0..<LENGTH('a)]"
  shows "f x = g x"
proof -
  have "f = g" using assms by (intro xor_linear_basis) (auto simp: list_all_iff)
  then show ?thesis by simp
qed

lemma drop_bit_ucast_byte: "drop_bit 8 (ucast (b :: u8) :: 'a::len word) = 0"
  by (rule bit_eqI) (auto simp: bit_simps dest: bit_imp_le_length)

text \<open>Evaluation of a step on a numeral.\<close>

lemma step_numeral:
  "rstep (numeral p) (numeral c) =
     (if bit (numeral c :: 'a::len word) 0 then drop_bit 1 (numeral c) XOR numeral p
      else (drop_bit 1 (numeral c) :: 'a word))"
  "rstep (numeral p) 1 = (numeral p :: 'a word)"
  "rstep (numeral p) 0 = (0 :: 'a word)"
  "lstep (numeral p) (numeral c) =
     (if bit (numeral c :: 'a::len word) (LENGTH('a) - 1) then push_bit 1 (numeral c) XOR numeral p
      else (push_bit 1 (numeral c) :: 'a word))"
  "lstep (numeral p) 0 = (0 :: 'a word)"
  by (simp_all add: rstep_def lstep_def)

lemmas step_eval = upt_expand funpow_expand step_numeral Let_def

section \<open>Folded shifts\<close>

definition ccitt_byte :: "u16 \<Rightarrow> u16" where
  "ccitt_byte c =
     (let e = ucast c; f = e XOR push_bit 4 e
      in drop_bit 8 c XOR push_bit 8 (ucast (f :: u8)) XOR push_bit 3 (ucast f) XOR drop_bit 4 (ucast f))"

lemma ccitt_byte_step: "ccitt_byte c = (rstep 0x8408 ^^ 8) c"
proof (rule xor_linear_basis_list [of ccitt_byte "rstep 0x8408 ^^ 8"])
  show "xor_linear ccitt_byte" unfolding ccitt_byte_def [abs_def] Let_def by (intro linear_intros)
  show "xor_linear (rstep (0x8408 :: u16) ^^ 8)" by (intro linear_intros)
  show "list_all (\<lambda>i. ccitt_byte (2 ^ i) = (rstep 0x8408 ^^ 8) (2 ^ i)) [0..<LENGTH(16)]"
    by (simp add: step_eval ccitt_byte_def)
qed

lemma crc16_ccitt_div: "crc16_ccitt seed src = poly_div_reflected 0x8408 seed src"
proof -
  have e: "ucast (c XOR ucast s) = (ucast c XOR s :: u8)" for c :: u16 and s :: u8
    by (rule bit_eqI) (auto simp: bit_simps)
  have d: "drop_bit 8 (c XOR ucast s) = drop_bit 8 c" for c :: u16 and s :: u8
    by (simp only: drop_bit_xor drop_bit_ucast_byte xor.right_neutral)
  have "(rstep 0x8408 ^^ 8) (c XOR ucast s) = (let e = ucast c XOR s; f = e XOR push_bit 4 e
      in drop_bit 8 c XOR push_bit 8 (ucast (f :: u8)) XOR push_bit 3 (ucast f) XOR drop_bit 4 (ucast f))"
    for c :: u16 and s :: u8
    unfolding ccitt_byte_step [symmetric] ccitt_byte_def e d ..
  then show ?thesis unfolding crc16_ccitt_def poly_div_reflected_def by (simp only:)
qed

definition itu_byte :: "u16 \<Rightarrow> u16" where
  "itu_byte c =
     (let seed = drop_bit 8 c XOR push_bit 8 c;
          seed = seed XOR drop_bit 4 (seed AND 0xff);
          seed = seed XOR push_bit 12 seed
      in seed XOR push_bit 5 (seed AND 0xff))"

lemma itu_byte_step: "itu_byte c = (lstep 0x1021 ^^ 8) c"
proof (rule xor_linear_basis_list [of itu_byte "lstep 0x1021 ^^ 8"])
  show "xor_linear itu_byte" unfolding itu_byte_def [abs_def] Let_def by (intro linear_intros)
  show "xor_linear (lstep (0x1021 :: u16) ^^ 8)" by (intro linear_intros)
  show "list_all (\<lambda>i. itu_byte (2 ^ i) = (lstep 0x1021 ^^ 8) (2 ^ i)) [0..<LENGTH(16)]"
    by (simp add: step_eval itu_byte_def lstep_def)
qed

lemma crc16_itu_t_div: "crc16_itu_t seed src = poly_div 0x1021 seed src"
proof -
  have sw: "drop_bit 8 c OR push_bit 8 c = drop_bit 8 c XOR push_bit 8 c" for c :: u16
    by (rule bit_eqI) (auto simp: bit_simps dest: bit_imp_le_length)
  have ps: "drop_bit 8 (push_bit 8 (ucast s)) = (ucast s :: u16)" "push_bit 8 (push_bit 8 (ucast s)) = (0 :: u16)" for s :: u8
    by (rule bit_eqI, auto simp: bit_simps dest: bit_imp_le_length)+
  have "(let seed = drop_bit 8 c OR push_bit 8 c;
             seed = seed XOR ucast s;
             seed = seed XOR drop_bit 4 (seed AND 0xff);
             seed = seed XOR push_bit 12 seed
         in seed XOR push_bit 5 (seed AND 0xff)) = (lstep 0x1021 ^^ 8) (c XOR push_bit 8 (ucast s))"
    for c :: u16 and s :: u8
  proof -
    have e: "drop_bit 8 (c XOR push_bit 8 (ucast s)) XOR push_bit 8 (c XOR push_bit 8 (ucast s)) =
        (drop_bit 8 c OR push_bit 8 c) XOR ucast s"
      by (simp add: drop_bit_xor push_bit_xor ps sw ac_simps del: push_bit_push_bit)
    show ?thesis unfolding itu_byte_step [symmetric] itu_byte_def e Let_def ..
  qed
  moreover have "push_bit (LENGTH(16) - 8) (ucast s) = (push_bit 8 (ucast s) :: u16)" for s :: u8 by simp
  ultimately show ?thesis unfolding crc16_itu_t_def poly_div_def by (simp only:)
qed

definition crc7_byte :: "u8 \<Rightarrow> u8" where
  "crc7_byte e = (let f = e XOR drop_bit 4 e XOR drop_bit 7 e in push_bit 1 f XOR push_bit 4 f)"

text \<open>The seven bits of the remainder are kept in the upper bits of the byte.\<close>

lemma crc7_be_div: "crc7_be seed src = poly_div 0x12 seed src"
proof -
  have "crc7_byte e = (lstep 0x12 ^^ 8) e" for e
  proof (rule xor_linear_basis_list [of crc7_byte "lstep 0x12 ^^ 8"])
    show "xor_linear crc7_byte" unfolding crc7_byte_def [abs_def] Let_def by (intro linear_intros)
    show "xor_linear (lstep (0x12 :: u8) ^^ 8)" by (intro linear_intros)
    show "list_all (\<lambda>i. crc7_byte (2 ^ i) = (lstep 0x12 ^^ 8) (2 ^ i)) [0..<LENGTH(8)]"
      by (simp add: step_eval crc7_byte_def lstep_def)
  qed
  moreover have "(let e = seed XOR s; f = e XOR drop_bit 4 e XOR drop_bit 7 e in push_bit 1 f XOR push_bit 4 f) =
      crc7_byte (seed XOR s)" for seed s
    by (simp only: crc7_byte_def Let_def)
  moreover have "push_bit (LENGTH(8) - 8) (ucast s) = s" for s :: u8 by simp
  ultimately show ?thesis unfolding crc7_be_def poly_div_def by (simp only:)
qed

lemma crc8_bit_step: "crc8_bit p r = (if r then rstep p else lstep p)"
  by (auto simp: crc8_bit_def rstep_def lstep_def fun_eq_iff)

lemma crc8_div:
  "crc8 src p c False = poly_div p c src" "crc8 src p c True = poly_div_reflected p c src"
  by (simp_all add: crc8_def poly_div_def poly_div_reflected_def crc8_bit_step)

section \<open>Tables of sixteen entries\<close>

text \<open>
  A table gives what four steps make of the four bits that are shifted out; the other bits
  are only shifted. The laws are those of the reflected tables.
\<close>

lemma low_nibble: "(0x0f :: u32) = mask 4"
  by (simp add: mask_eq_exp_minus_1)

locale nibble_table =
  fixes T :: "u32 list" and p :: u32
  assumes entry: "list_all (\<lambda>i. T ! i = (rstep p ^^ 4) (word_of_nat i)) [0..<16]"
begin

lemma four_steps: "drop_bit 4 c XOR T ! unat (c AND 0x0f) = (rstep p ^^ 4) c"
proof -
  have lin: "xor_linear (rstep p ^^ 4)" by (intro linear_intros)
  have "T ! unat (c AND 0x0f) = (rstep p ^^ 4) (c AND 0x0f)"
    using entry unat_and_15 [of c] by (auto simp: list_all_iff)
  moreover have "drop_bit 4 c = (rstep p ^^ 4) (c AND NOT 0x0f)"
  proof -
    have z: "rstep p x = drop_bit 1 x" if "\<not> bit x 0" for x using that by (simp add: rstep_def)
    have b: "\<not> bit (drop_bit n (c AND NOT 0x0f)) 0" if "n < 4" for n
      using that unfolding low_nibble by (simp add: bit_simps del: mask_numeral)
    have "(rstep p ^^ n) (c AND NOT 0x0f) = drop_bit n (c AND NOT 0x0f)" if "n \<le> 4" for n
      using that
    proof (induction n)
      case (Suc n)
      then have "(rstep p ^^ Suc n) (c AND NOT 0x0f) = rstep p (drop_bit n (c AND NOT 0x0f))" by simp
      also have "\<dots> = drop_bit (Suc n) (c AND NOT 0x0f)" using Suc.prems z [OF b [of n]] by simp
      finally show ?case .
    qed simp
    from this [of 4] have "(rstep p ^^ 4) (c AND NOT 0x0f) = drop_bit 4 (c AND NOT 0x0f)" by simp
    also have "\<dots> = drop_bit 4 c"
      unfolding low_nibble by (rule bit_eqI) (auto simp: bit_simps simp del: mask_numeral dest: bit_imp_le_length)
    finally show ?thesis by simp
  qed
  moreover have "c = (c AND NOT 0x0f) XOR (c AND 0x0f)"
  proof -
    have "x = (x AND NOT m) XOR (x AND m)" for x m :: u32 by (rule bit_eqI) (auto simp: bit_simps)
    then show ?thesis .
  qed
  ultimately show ?thesis using xor_linearD [OF lin, of "c AND NOT 0x0f" "c AND 0x0f"] by simp
qed

text \<open>The two lookups for one byte are eight steps.\<close>

lemma byte_steps:
  "(let c = drop_bit 4 crc XOR T ! unat ((crc XOR ucast b) AND 0x0f)
    in drop_bit 4 c XOR T ! unat ((c XOR drop_bit 4 (ucast b)) AND 0x0f)) = (rstep p ^^ 8) (crc XOR ucast (b :: u8))"
proof -
  define c where "c = drop_bit 4 crc XOR T ! unat ((crc XOR ucast b) AND 0x0f)"
  have "(rstep p ^^ 4) (crc XOR ucast b) = c XOR drop_bit 4 (ucast b)"
    unfolding four_steps [symmetric] c_def by (simp add: drop_bit_xor ac_simps)
  moreover have "drop_bit 4 (drop_bit 4 (ucast b)) = (0 :: u32)" using drop_bit_ucast_byte [of b] by simp
  ultimately have "(rstep p ^^ 4) ((rstep p ^^ 4) (crc XOR ucast b)) =
      drop_bit 4 c XOR T ! unat ((c XOR drop_bit 4 (ucast b)) AND 0x0f)"
    unfolding four_steps [symmetric] by (simp add: drop_bit_xor)
  moreover have "(rstep p ^^ 4) ((rstep p ^^ 4) x) = (rstep p ^^ 8) x" for x
    using funpow_add [of 4 4 "rstep p"] by simp
  ultimately show ?thesis by (simp add: c_def Let_def)
qed

end

interpretation ieee: nibble_table crc32_table "0xedb88320"
  by unfold_locales (simp add: step_eval crc32_table_def)

interpretation castagnoli: nibble_table crc32c_table "0x82F63B78"
  by unfold_locales (simp add: step_eval crc32c_table_def)

lemma crc32_ieee_update_div:
  "crc32_ieee_update crc data = NOT (poly_div_reflected 0xedb88320 (NOT crc) data)"
  unfolding crc32_ieee_update_def poly_div_reflected_def ieee.byte_steps ..

lemma crc32_c_div:
  "crc32_c crc data first_pkt last_pkt =
     (if last_pkt then NOT (poly_div_reflected 0x82F63B78 (if first_pkt then 0xFFFFFFFF else crc) data)
      else poly_div_reflected 0x82F63B78 (if first_pkt then 0xFFFFFFFF else crc) data)"
proof -
  have b: "(let c = crc32c_table ! unat ((crc XOR ucast byte) AND 0x0F) XOR drop_bit 4 crc
       in crc32c_table ! unat ((c XOR drop_bit 4 (ucast byte)) AND 0x0F) XOR drop_bit 4 c) =
      (rstep 0x82F63B78 ^^ 8) (crc XOR ucast (byte :: u8))" for crc :: u32 and byte
    using castagnoli.byte_steps [of crc byte] by (simp only: xor.commute Let_def)
  have x: "c XOR 0xFFFFFFFF = NOT c" for c :: u32
  proof -
    have "(0xFFFFFFFF :: u32) = - 1" by simp
    then show ?thesis by (simp only:) simp
  qed
  show ?thesis unfolding crc32_c_def b poly_div_reflected_def by (simp only: x Let_def split: if_split)
qed

lemma crc8_ccitt_nibble:
  "push_bit 4 v XOR crc8_ccitt_small_table ! unat (drop_bit 4 v) = (lstep 0x07 ^^ 4) v" for v :: u8
proof -
  have lin: "xor_linear (lstep (0x07 :: u8) ^^ 4)" by (intro linear_intros)
  have "list_all (\<lambda>i. crc8_ccitt_small_table ! i = (lstep 0x07 ^^ 4) (push_bit 4 (word_of_nat i))) [0..<16]"
    by (simp add: step_eval crc8_ccitt_small_table_def lstep_def)
  moreover have "unat (drop_bit 4 v) < 16"
    by (rule unat_drop_4)
  ultimately have "crc8_ccitt_small_table ! unat (drop_bit 4 v) = (lstep 0x07 ^^ 4) (push_bit 4 (drop_bit 4 v))"
    by (auto simp: list_all_iff)
  moreover have "(\<lambda>v. (lstep 0x07 ^^ 4) (v AND 0x0f)) v = push_bit 4 v"
  proof (rule xor_linear_basis_list [of "\<lambda>v. (lstep 0x07 ^^ 4) (v AND 0x0f)" "push_bit 4"])
    show "xor_linear (\<lambda>v :: u8. (lstep 0x07 ^^ 4) (v AND 0x0f))"
      by (rule xor_linear_comp [OF lin]) (intro linear_intros)
    show "xor_linear (push_bit 4 :: u8 \<Rightarrow> u8)" by (simp add: xor_linear_def push_bit_xor)
    show "list_all (\<lambda>i. (lstep 0x07 ^^ 4) (2 ^ i AND 0x0f) = (push_bit 4 (2 ^ i) :: u8)) [0..<LENGTH(8)]"
      by (simp add: step_eval lstep_def)
  qed
  moreover have "v = push_bit 4 (drop_bit 4 v) XOR (v AND 0x0f)"
  proof -
    have "x = push_bit 4 (drop_bit 4 x) XOR (x AND mask 4)" for x :: u8
      by (rule bit_eqI) (auto simp: bit_simps simp del: mask_numeral)
    from this [of v] show ?thesis by (simp add: mask_eq_exp_minus_1)
  qed
  ultimately show ?thesis using xor_linearD [OF lin, of "push_bit 4 (drop_bit 4 v)" "v AND 0x0f"]
    by (simp add: xor.commute)
qed

lemma crc8_ccitt_div: "crc8_ccitt val buf = poly_div 0x07 val buf"
proof -
  have "(lstep 0x07 ^^ 4) ((lstep 0x07 ^^ 4) x) = (lstep 0x07 ^^ 8) x" for x :: u8
    using funpow_add [of 4 4 "lstep (0x07 :: u8)"] by simp
  then show ?thesis by (simp add: crc8_ccitt_def poly_div_def crc8_ccitt_nibble Let_def)
qed

section \<open>The bitwise CRC-16\<close>

text \<open>
  The message bits enter at the low end and reach the divisor after sixteen more steps;
  with padding those steps are taken.
\<close>

lemma crc16_bit_step: "crc16_bit p (of_bool b) c = lstep p c XOR of_bool b"
proof -
  have "push_bit n c OR of_bool b = push_bit n c XOR of_bool b" if "0 < n" for n
    by (rule bit_eqI) (use that in \<open>auto simp: bit_simps\<close>)
  from this [of 1] have "push_bit 1 c OR of_bool b = push_bit 1 c XOR of_bool b" by simp
  moreover have "(c AND 0x8000 \<noteq> 0) = bit c (LENGTH(16) - 1)"
    unfolding bit_iff_and_push_bit_not_eq_0 by simp
  ultimately show ?thesis unfolding crc16_bit_def lstep_def Let_def by (simp add: ac_simps)
qed

lemma bit_shift_in:
  fixes x :: "'a::len word"
  assumes "k = 1" "m < LENGTH('a)"
  shows "bit (push_bit k x XOR of_bool b) m = (if m = 0 then b else bit x (m - 1))"
proof -
  have "bit (push_bit k x XOR of_bool b) m = ((m < LENGTH('a) \<and> k \<le> m \<and> bit x (m - k)) \<noteq> (b \<and> m = 0))"
    using assms(2) by (auto simp: bit_simps)
  then show ?thesis using assms by auto
qed

lemma lstep_low: "\<not> bit c (LENGTH('a) - 1) \<Longrightarrow> lstep p c = push_bit 1 c" for c :: "'a::len word"
  by (simp add: lstep_def)

lemma crc16_byte:
  assumes "j \<le> 8"
  shows "foldl (\<lambda>crc b. crc16_bit p (of_bool ((s :: u8) AND drop_bit b 0x80 \<noteq> 0)) crc) c [0..<j] =
    (lstep p ^^ j) c XOR ucast (drop_bit (8 - j) s)"
  using assms
proof (induction j)
  case 0
  have "drop_bit 8 s = 0" by (rule bit_eqI) (auto simp: bit_simps dest: bit_imp_le_length)
  then show ?case by simp
next
  case (Suc j)
  have m: "(s AND drop_bit j 0x80 \<noteq> 0) = bit s (7 - j)"
  proof -
    have "drop_bit j (0x80 :: u8) = push_bit (7 - j) 1"
    proof -
      have "list_all (\<lambda>j. drop_bit j (0x80 :: u8) = push_bit (7 - j) 1) [0..<8]" by (simp add: upt_expand)
      then show ?thesis using Suc.prems by (auto simp: list_all_iff)
    qed
    then show ?thesis by (simp only: bit_iff_and_push_bit_not_eq_0)
  qed
  have "\<not> bit (ucast (drop_bit (8 - j) s) :: u16) 15"
    by (auto simp: bit_simps dest: bit_imp_le_length)
  then have l: "lstep p (ucast (drop_bit (8 - j) s)) = push_bit 1 (ucast (drop_bit (8 - j) s))"
    by (simp add: lstep_low)
  have r: "push_bit 1 (ucast (drop_bit (8 - j) s)) XOR of_bool (bit s (7 - j)) = (ucast (drop_bit (8 - Suc j) s) :: u16)"
    using Suc.prems
    by (intro bit_eqI) (auto simp: bit_shift_in bit_unsigned_iff bit_drop_bit_eq Suc_diff_le gr0_conv_Suc dest: bit_imp_le_length
        simp del: push_bit_Suc)
  have "foldl (\<lambda>crc b. crc16_bit p (of_bool (s AND drop_bit b 0x80 \<noteq> 0)) crc) c [0..<Suc j] =
      lstep p ((lstep p ^^ j) c XOR ucast (drop_bit (8 - j) s)) XOR of_bool (bit s (7 - j))"
    using Suc by (simp add: crc16_bit_step m)
  also have "\<dots> = (lstep p ^^ Suc j) c XOR ucast (drop_bit (8 - Suc j) s)"
    by (simp only: xor_linearD [OF xor_linear_steps(1)] l xor.assoc r) simp
  finally show ?case .
qed

lemma lstep_funpow_linear:
  "(lstep p ^^ n) (x XOR y) = (lstep p ^^ n) x XOR (lstep p ^^ n) y"
  by (rule xor_linearD) (intro linear_intros)

lemma lstep_8_byte: "(lstep p ^^ 8) (ucast s) = push_bit 8 (ucast (s :: u8) :: u16)"
proof -
  have "(lstep p ^^ n) (ucast s) = push_bit n (ucast s)" if "n \<le> 8" for n
    using that
  proof (induction n)
    case (Suc n)
    have "\<not> bit (push_bit n (ucast s) :: u16) (LENGTH(16) - 1)"
      using Suc.prems by (auto simp: bit_simps dest: bit_imp_le_length)
    then have "lstep p (push_bit n (ucast s)) = push_bit 1 (push_bit n (ucast s))" by (rule lstep_low)
    then show ?case using Suc by simp
  qed simp
  then show ?thesis by simp
qed

lemma crc16_unpadded: "crc16 src p c False = foldl (\<lambda>c s. (lstep p ^^ 8) c XOR ucast s) c src"
proof -
  have "crc16 src p c False =
      foldl (\<lambda>c i. foldl (\<lambda>crc b. crc16_bit p (of_bool (src ! i AND drop_bit b 0x80 \<noteq> 0)) crc) c [0..<8]) c [0..<length src]"
    unfolding crc16_def by (auto intro!: foldl_cong)
  also have "\<dots> = foldl (\<lambda>c i. (lstep p ^^ 8) c XOR ucast (src ! i)) c [0..<length src]"
    by (simp only: crc16_byte [OF order_refl]) simp
  also have "\<dots> = foldl (\<lambda>c s. (lstep p ^^ 8) c XOR ucast s) c src" by (rule foldl_nth)
  finally show ?thesis .
qed

lemma crc16_unpadded_div: "(lstep p ^^ 16) (crc16 src p c False) = poly_div p ((lstep p ^^ 16) c) src"
proof -
  have two: "(lstep p ^^ 16) x = (lstep p ^^ 8) ((lstep p ^^ 8) x)" for x :: u16
    using funpow_add [of 8 8 "lstep p"] by simp
  have "(lstep p ^^ 16) (foldl (\<lambda>c s. (lstep p ^^ 8) c XOR ucast s) c src) = poly_div p ((lstep p ^^ 16) c) src"
  proof (induction src arbitrary: c)
    case (Cons s src)
    have "(lstep p ^^ 16) ((lstep p ^^ 8) c XOR ucast s) = (lstep p ^^ 8) ((lstep p ^^ 16) c XOR push_bit 8 (ucast s))"
      unfolding two lstep_funpow_linear lstep_8_byte ..
    then show ?case using Cons by (simp add: poly_div_def)
  qed (simp add: poly_div_def)
  then show ?thesis by (simp add: crc16_unpadded)
qed

lemma crc16_padded: "crc16 src p c True = (lstep p ^^ 16) (crc16 src p c False)"
proof -
  have z: "foldl (\<lambda>crc b. crc16_bit p 0 crc) c [0..<8] = (lstep p ^^ 8) c" for c
    using crc16_byte [of 8 p 0 c] by simp
  have "crc16 src p c True = (lstep p ^^ 8) ((lstep p ^^ 8) (crc16 src p c False))"
    unfolding crc16_def by (simp add: z cong: foldl_cong)
  then show ?thesis using funpow_add [of 8 8 "lstep p"] by simp
qed

lemma crc16_div: "crc16 src p c True = poly_div p ((lstep p ^^ 16) c) src"
  by (simp only: crc16_padded crc16_unpadded_div)

section \<open>Detection of errors\<close>

lemma xor_right_cancel: "x XOR z = y XOR z \<longleftrightarrow> x = y" for x y z :: "'a::len word"
proof
  assume "x XOR z = y XOR z"
  then have "(x XOR z) XOR z = (y XOR z) XOR z" by (rule arg_cong)
  then show "x = y" by (simp only: xor.assoc xor_self_eq xor.right_neutral)
qed simp

lemma ucast_byte_inj:
  fixes b b' :: u8
  assumes "8 \<le> LENGTH('a)" "(ucast b :: 'a::len word) = ucast b'"
  shows "b = b'"
proof (rule bit_word_eqI)
  fix n
  assume "n < LENGTH(8)"
  moreover have "bit (ucast b :: 'a word) n = bit (ucast b' :: 'a word) n" using assms(2) by simp
  ultimately show "bit b n = bit b' n" using assms(1) by (simp add: bit_unsigned_iff)
qed

text \<open>
  Where the polynomial has a constant term a step can be undone, so that a change of one
  byte survives to the end.
\<close>

lemma rstep_inj:
  fixes p :: "'a::len word"
  assumes "bit p (LENGTH('a) - 1)" "rstep p x = rstep p y"
  shows "x = y"
proof -
  have top: "bit (rstep p x) (LENGTH('a) - 1) = bit x 0" for x :: "'a word"
    using assms(1) by (auto simp: rstep_def bit_simps)
  have low: "bit x 0 = bit y 0" using top [of x] top [of y] assms(2) by simp
  have "drop_bit 1 x = drop_bit 1 y"
    using assms(2) low by (auto simp: rstep_def xor_right_cancel split: if_splits)
  then have "bit x (Suc n) = bit y (Suc n)" for n by (metis bit_drop_bit_eq comp_apply plus_1_eq_Suc)
  then have "bit x n = bit y n" for n using low by (cases n) auto
  then show ?thesis by (simp add: bit_eq_iff)
qed

lemma rstep_funpow_inj:
  fixes p :: "'a::len word"
  assumes "bit p (LENGTH('a) - 1)" "(rstep p ^^ n) x = (rstep p ^^ n) y"
  shows "x = y"
  using assms(2) by (induction n) (use rstep_inj [OF assms(1)] in auto)

lemma poly_div_reflected_inj:
  fixes p :: "'a::len word"
  assumes "bit p (LENGTH('a) - 1)" "poly_div_reflected p x m = poly_div_reflected p y m"
  shows "x = y"
  using assms(2)
proof (induction m arbitrary: x y)
  case (Cons b m)
  then have "(rstep p ^^ 8) (x XOR ucast b) = (rstep p ^^ 8) (y XOR ucast b)"
    by (simp add: poly_div_reflected_def)
  then have "x XOR ucast b = y XOR ucast b" by (rule rstep_funpow_inj [OF assms(1)])
  then show ?case by (simp only: xor_right_cancel)
qed (simp add: poly_div_reflected_def)

lemma poly_div_reflected_detects:
  fixes p :: "'a::len word"
  assumes "bit p (LENGTH('a) - 1)" "8 \<le> LENGTH('a)" "b \<noteq> b'"
  shows "poly_div_reflected p c (m @ b # m') \<noteq> poly_div_reflected p c (m @ b' # m')"
proof
  define d where "d = poly_div_reflected p c m"
  assume "poly_div_reflected p c (m @ b # m') = poly_div_reflected p c (m @ b' # m')"
  then have "poly_div_reflected p ((rstep p ^^ 8) (d XOR ucast b)) m' =
      poly_div_reflected p ((rstep p ^^ 8) (d XOR ucast b')) m'"
    by (simp add: poly_div_reflected_def d_def)
  from poly_div_reflected_inj [OF assms(1) this]
  have "d XOR ucast b = d XOR ucast b'" by (rule rstep_funpow_inj [OF assms(1)])
  then have "ucast b XOR d = ucast b' XOR d" by (simp only: xor.commute)
  then have "b = b'" unfolding xor_right_cancel by (rule ucast_byte_inj [OF assms(2)])
  with assms(3) show False ..
qed

lemma crc32_ieee_detects:
  "b \<noteq> b' \<Longrightarrow> crc32_ieee (m @ b # m') \<noteq> crc32_ieee (m @ b' # m')"
  unfolding crc32_ieee_def crc32_ieee_update_div
  using poly_div_reflected_detects [of "0xedb88320 :: u32" b b' "NOT 0" m m'] by simp

text \<open>A message may be fed in parts.\<close>

lemma crc32_ieee_update_append:
  "crc32_ieee_update crc (m @ m') = crc32_ieee_update (crc32_ieee_update crc m) m'"
  by (simp add: crc32_ieee_update_div poly_div_reflected_def)

section \<open>Properties\<close>

text \<open>
  C35: Every CRC routine of the library, with its table or its folded shifts, computes the
  remainder of the division bit by bit by its polynomial: CRC-16-CCITT and the two CRC-32
  in the reflected bit order, ITU-T, CRC-7 and CRC-8-CCITT in the usual one, and the two
  generic routines for any polynomial; the generic CRC-16 does so with its padding.
\<close>

theorem crc_equals_division:
  "crc16_ccitt seed m = poly_div_reflected 0x8408 seed m \<and>
   crc16_itu_t seed m = poly_div 0x1021 seed m \<and>
   crc16 m p16 c16 True = poly_div p16 ((lstep p16 ^^ 16) c16) m \<and>
   crc7_be seed8 m = poly_div 0x12 seed8 m \<and>
   crc8_ccitt seed8 m = poly_div 0x07 seed8 m \<and>
   crc8 m p8 c8 False = poly_div p8 c8 m \<and> crc8 m p8 c8 True = poly_div_reflected p8 c8 m \<and>
   crc32_ieee_update crc m = NOT (poly_div_reflected 0xedb88320 (NOT crc) m) \<and>
   crc32_c crc m True True = NOT (poly_div_reflected 0x82F63B78 0xFFFFFFFF m)"
  by (intro conjI crc16_ccitt_div crc16_itu_t_div crc16_div crc7_be_div crc8_ccitt_div crc8_div
      crc32_ieee_update_div) (simp add: crc32_c_div)

text \<open>
  C36: A change of one byte of a message changes its CRC-32, and a message may be fed in
  parts: the CRC of the first part continued over the second is that of the whole.
\<close>

theorem crc32_detects_byte_errors:
  "(b \<noteq> b' \<longrightarrow> crc32_ieee (m @ b # m') \<noteq> crc32_ieee (m @ b' # m')) \<and>
   crc32_ieee (m @ m') = crc32_ieee_update (crc32_ieee m) m'"
  using crc32_ieee_detects [of b b' m m'] crc32_ieee_update_append [of 0 m m']
  by (simp add: crc32_ieee_def)

theorem crc32_detects_byte_errors_witness:
  "crc32_ieee [0x31, 0x32, 0x33] \<noteq> crc32_ieee [0x31, 0x36, 0x33]"
  using crc32_detects_byte_errors [of "0x32" "0x36" "[0x31]" "[0x33]"] by simp

end
