(* ===== verification/Codec.thy ===== *)
theory Codec
  imports Word_Tools
begin

text \<open>
  Text encodings of bytes: \<^verbatim>\<open>lib/os/hex.c\<close>, \<^verbatim>\<open>lib/os/dec.c\<close> and \<^verbatim>\<open>lib/os/base64.c\<close>. An input
  buffer is the list of its bytes, a length being the length of the list. An output buffer of
  \<^verbatim>\<open>hex.c\<close> is a function from offsets to bytes, so that what is written past its end is
  visible; \<^verbatim>\<open>dec.c\<close> and \<^verbatim>\<open>base64.c\<close> only append, and give the list of the bytes written.
  Characters are bytes; every character that is tested for is below 128, so that the sign of
  \<^verbatim>\<open>char\<close> does not matter.
\<close>

section \<open>Hexadecimal\<close>

type_synonym buffer = "nat \<Rightarrow> u8"

definition char2hex :: "u8 \<Rightarrow> u8 option" where
  "char2hex c =
     (if 0x30 \<le> c \<and> c \<le> 0x39 then Some (c - 0x30)
      else if 0x61 \<le> c \<and> c \<le> 0x66 then Some (c - 0x61 + 10)
      else if 0x41 \<le> c \<and> c \<le> 0x46 then Some (c - 0x41 + 10)
      else None)"

definition hex2char :: "u8 \<Rightarrow> u8 option" where
  "hex2char x =
     (if x \<le> 9 then Some (x + 0x30)
      else if x \<le> 15 then Some (x - 10 + 0x61)
      else None)"

text \<open>The loop gives the buffer and whether it ran to its end.\<close>

fun bin2hex_loop :: "nat \<Rightarrow> u8 list \<Rightarrow> buffer \<Rightarrow> bool \<times> buffer" where
  "bin2hex_loop i [] hex = (True, hex)"
| "bin2hex_loop i (b # bs) hex =
     (case hex2char (drop_bit 4 b) of
        None \<Rightarrow> (False, hex)
      | Some c \<Rightarrow>
          let hex = hex(2 * i := c)
          in case hex2char (b AND 0xf) of
               None \<Rightarrow> (False, hex)
             | Some c \<Rightarrow> bin2hex_loop (i + 1) bs (hex(2 * i + 1 := c)))"

definition bin2hex :: "u8 list \<Rightarrow> buffer \<Rightarrow> u64 \<Rightarrow> u64 \<times> buffer" where
  "bin2hex buf hex hexlen =
     (let buflen = word_of_nat (length buf)
      in if hexlen + 1 < buflen * 2 then (0, hex)
         else case bin2hex_loop 0 buf hex of
                (False, hex) \<Rightarrow> (0, hex)
              | (True, hex) \<Rightarrow> (2 * buflen, hex(2 * length buf := 0)))"

fun hex2bin_loop :: "nat \<Rightarrow> u8 list \<Rightarrow> buffer \<Rightarrow> bool \<times> buffer" where
  "hex2bin_loop i (h # l # hex) buf =
     (case char2hex h of
        None \<Rightarrow> (False, buf)
      | Some dec \<Rightarrow>
          let buf = buf(i := push_bit 4 dec)
          in case char2hex l of
               None \<Rightarrow> (False, buf)
             | Some dec \<Rightarrow> hex2bin_loop (i + 1) hex (buf(i := buf i + dec)))"
| "hex2bin_loop i _ buf = (True, buf)"

definition hex2bin :: "u8 list \<Rightarrow> buffer \<Rightarrow> u64 \<Rightarrow> u64 \<times> buffer" where
  "hex2bin hex buf buflen =
     (let hexlen = word_of_nat (length hex)
      in if buflen < hexlen div 2 + hexlen mod 2 then (0, buf)
         else
           let (started, hex', i, buf') =
                 (if hexlen mod 2 \<noteq> 0 then
                    case char2hex (hd hex) of
                      None \<Rightarrow> (False, hex, 0, buf)
                    | Some dec \<Rightarrow> (True, tl hex, 1, buf(0 := dec))
                  else (True, hex, 0, buf))
           in if \<not> started then (0, buf')
              else case hex2bin_loop i hex' buf' of
                     (False, buf) \<Rightarrow> (0, buf)
                   | (True, buf) \<Rightarrow> (hexlen div 2 + hexlen mod 2, buf))"

section \<open>Decimal\<close>

text \<open>The digits written, and what is left of the buffer.\<close>

function u8_to_dec_loop :: "u8 \<Rightarrow> u8 \<Rightarrow> u8 \<Rightarrow> u8 \<Rightarrow> u8 list \<Rightarrow> u8 list \<times> u8 \<times> u8" where
  "u8_to_dec_loop buflen divisor value num_digits out =
     (if 0 < buflen \<and> 0 < divisor then
        let digit = value div divisor;
            value' = value - digit * divisor
        in if digit \<noteq> 0 \<or> divisor = 1 \<or> num_digits \<noteq> 0
           then u8_to_dec_loop (buflen - 1) (divisor div 10) value' (num_digits + 1) (out @ [digit + 0x30])
           else u8_to_dec_loop buflen (divisor div 10) value' num_digits out
      else (out, buflen, num_digits))"
  by pat_completeness auto
termination
  by (relation "measure (\<lambda>(_, divisor, _). unat divisor)")
    (auto simp: unat_div word_less_nat_alt)

declare u8_to_dec_loop.simps [simp del]

definition u8_to_dec :: "u8 \<Rightarrow> u8 \<Rightarrow> u8 list \<times> u8" where
  "u8_to_dec buflen value =
     (let (out, buflen, num_digits) = u8_to_dec_loop buflen 100 value 0 []
      in (if buflen \<noteq> 0 then out @ [0] else out, num_digits))"

section \<open>Base 64\<close>

definition base64_enc_map :: "u8 list" where
  "base64_enc_map =
     [0x41, 0x42, 0x43, 0x44, 0x45, 0x46, 0x47, 0x48, 0x49, 0x4A,
      0x4B, 0x4C, 0x4D, 0x4E, 0x4F, 0x50, 0x51, 0x52, 0x53, 0x54,
      0x55, 0x56, 0x57, 0x58, 0x59, 0x5A, 0x61, 0x62, 0x63, 0x64,
      0x65, 0x66, 0x67, 0x68, 0x69, 0x6A, 0x6B, 0x6C, 0x6D, 0x6E,
      0x6F, 0x70, 0x71, 0x72, 0x73, 0x74, 0x75, 0x76, 0x77, 0x78,
      0x79, 0x7A, 0x30, 0x31, 0x32, 0x33, 0x34, 0x35, 0x36, 0x37,
      0x38, 0x39, 0x2B, 0x2F]"

definition base64_dec_map :: "u8 list" where
  "base64_dec_map =
     [127, 127, 127, 127, 127, 127, 127, 127, 127, 127,
      127, 127, 127, 127, 127, 127, 127, 127, 127, 127,
      127, 127, 127, 127, 127, 127, 127, 127, 127, 127,
      127, 127, 127, 127, 127, 127, 127, 127, 127, 127,
      127, 127, 127,  62, 127, 127, 127,  63,  52,  53,
       54,  55,  56,  57,  58,  59,  60,  61, 127, 127,
      127,  64, 127, 127, 127,   0,   1,   2,   3,   4,
        5,   6,   7,   8,   9,  10,  11,  12,  13,  14,
       15,  16,  17,  18,  19,  20,  21,  22,  23,  24,
       25, 127, 127, 127, 127, 127, 127,  26,  27,  28,
       29,  30,  31,  32,  33,  34,  35,  36,  37,  38,
       39,  40,  41,  42,  43,  44,  45,  46,  47,  48,
       49,  50,  51, 127, 127, 127, 127, 127]"

text \<open>The result of a call: the status, the length stored in \<^verbatim>\<open>olen\<close> and the bytes written to \<^verbatim>\<open>dst\<close>.\<close>

record base64_result =
  b64_ret :: int
  b64_olen :: u64
  b64_dst :: "u8 list"

definition enc :: "u32 \<Rightarrow> u8" where
  "enc x = base64_enc_map ! unat (x AND 0x3F)"

fun base64_encode_loop :: "u32 list \<Rightarrow> u8 list" where
  "base64_encode_loop (C1 # C2 # C3 # src) =
     enc (drop_bit 2 C1) #
     enc (push_bit 4 (C1 AND 3) + drop_bit 4 C2) #
     enc (push_bit 2 (C2 AND 15) + drop_bit 6 C3) #
     enc C3 # base64_encode_loop src"
| "base64_encode_loop [C1, C2] =
     [enc (drop_bit 2 C1), enc (push_bit 4 (C1 AND 3) + drop_bit 4 C2), enc (push_bit 2 (C2 AND 15)), 0x3D]"
| "base64_encode_loop [C1] =
     [enc (drop_bit 2 C1), enc (push_bit 4 (C1 AND 3) + drop_bit 4 0), 0x3D, 0x3D]"
| "base64_encode_loop [] = []"

definition base64_encode :: "bool \<Rightarrow> u64 \<Rightarrow> u8 list \<Rightarrow> base64_result" where
  "base64_encode dst_null dlen src =
     (let slen = word_of_nat (length src) :: u64
      in if slen = 0 then \<lparr>b64_ret = 0, b64_olen = 0, b64_dst = []\<rparr>
         else
           let n = slen div 3 + of_bool (slen mod 3 \<noteq> 0)
           in if (- 1 - 1) div 4 < n then \<lparr>b64_ret = - ENOMEM, b64_olen = - 1, b64_dst = []\<rparr>
              else
                let n = n * 4
                in if dlen < n + 1 \<or> dst_null then \<lparr>b64_ret = - ENOMEM, b64_olen = n + 1, b64_dst = []\<rparr>
                   else
                     let out = base64_encode_loop (map ucast src)
                     in \<lparr>b64_ret = 0, b64_olen = word_of_nat (length out), b64_dst = out @ [0]\<rparr>)"

text \<open>The first pass: the number of significant characters and of padding characters.\<close>

definition skip_spaces :: "u8 list \<Rightarrow> u8 list" where
  "skip_spaces src = dropWhile (\<lambda>c. c = 0x20) src"

lemma skip_spaces_Cons:
  assumes "c # cs = skip_spaces src"
  shows "length cs < length src"
proof -
  have "length (skip_spaces src) \<le> length src" unfolding skip_spaces_def by (rule length_dropWhile_le)
  then show ?thesis by (simp flip: assms)
qed

function base64_check :: "u8 list \<Rightarrow> nat \<Rightarrow> nat \<Rightarrow> (nat \<times> nat) option" where
  "base64_check src n j =
     (let rest = skip_spaces src
      in case rest of
           [] \<Rightarrow> Some (n, j)
         | c # cs \<Rightarrow>
             if (cs \<noteq> [] \<and> c = 0x0D \<and> hd cs = 0x0A) \<or> c = 0x0A then base64_check cs n j
             else if length rest < length src then None
             else
               let j = (if c = 0x3D then j + 1 else j)
               in if c = 0x3D \<and> 2 < j then None
                  else if 127 < c \<or> base64_dec_map ! unat c = 127 then None
                  else if base64_dec_map ! unat c < 64 \<and> j \<noteq> 0 then None
                  else base64_check cs (n + 1) j)"
  by pat_completeness auto
termination
  by (relation "measure (\<lambda>(src, _). length src)") (auto dest: skip_spaces_Cons split: if_splits)

declare base64_check.simps [simp del]

text \<open>The second pass, over the same characters. An input that is refused leaves \<^verbatim>\<open>olen\<close> as it was.\<close>

fun base64_decode_loop :: "u8 list \<Rightarrow> u32 \<Rightarrow> u32 \<Rightarrow> nat \<Rightarrow> u8 list" where
  "base64_decode_loop [] j x n = []"
| "base64_decode_loop (c # src) j x n =
     (if c = 0x0D \<or> c = 0x0A \<or> c = 0x20 then base64_decode_loop src j x n
      else
        let j = j - of_bool (base64_dec_map ! unat c = 64);
            x = push_bit 6 x OR (ucast (base64_dec_map ! unat c) AND 0x3F);
            n = n + 1
        in if n = 4 then
             (if 0 < j then [ucast (drop_bit 16 x)] else []) @
             (if 1 < j then [ucast (drop_bit 8 x)] else []) @
             (if 2 < j then [ucast x] else []) @
             base64_decode_loop src j x 0
           else base64_decode_loop src j x n)"

definition base64_decoded_size :: "nat \<Rightarrow> nat \<Rightarrow> u64" where
  "base64_decoded_size n j =
     (let n = word_of_nat n in 6 * drop_bit 3 n + drop_bit 3 (6 * (n AND 7) + 7) - word_of_nat j)"

definition base64_decode :: "u64 \<Rightarrow> bool \<Rightarrow> u64 \<Rightarrow> u8 list \<Rightarrow> base64_result" where
  "base64_decode olen dst_null dlen src =
     (case base64_check src 0 0 of
        None \<Rightarrow> \<lparr>b64_ret = - EINVAL, b64_olen = olen, b64_dst = []\<rparr>
      | Some (n, j) \<Rightarrow>
          if n = 0 then \<lparr>b64_ret = 0, b64_olen = 0, b64_dst = []\<rparr>
          else if dst_null \<or> dlen < base64_decoded_size n j
            then \<lparr>b64_ret = - ENOMEM, b64_olen = base64_decoded_size n j, b64_dst = []\<rparr>
          else
            let out = base64_decode_loop src 3 0 0
            in \<lparr>b64_ret = 0, b64_olen = word_of_nat (length out), b64_dst = out\<rparr>)"

section \<open>Hexadecimal: correctness\<close>

definition hex_value :: "u8 \<Rightarrow> nat" where
  "hex_value c = (if c \<le> 0x39 then unat c - 0x30 else if c \<le> 0x46 then unat c - 0x37 else unat c - 0x57)"

lemma hex_digit:
  assumes "unat x < 16"
  shows "\<exists>c. hex2char x = Some c \<and> char2hex c = Some x \<and> c \<noteq> 0"
proof (rule word_below [of "\<lambda>x. \<exists>c. hex2char x = Some c \<and> char2hex c = Some x \<and> c \<noteq> 0" 16])
  show "list_all (\<lambda>i. \<exists>c. hex2char (word_of_nat i) = Some c \<and> char2hex c = Some (word_of_nat i) \<and> c \<noteq> 0) [0..<16]"
    by (simp add: upt_expand hex2char_def char2hex_def)
qed (rule assms)

definition hi_digit :: "u8 \<Rightarrow> u8" where
  "hi_digit b = the (hex2char (drop_bit 4 b))"

definition lo_digit :: "u8 \<Rightarrow> u8" where
  "lo_digit b = the (hex2char (b AND 0xf))"

lemma hi_digit [codec_simps]:
  "hex2char (drop_bit 4 b) = Some (hi_digit b)" "char2hex (hi_digit b) = Some (drop_bit 4 b)" "hi_digit b \<noteq> 0"
  using hex_digit [OF unat_drop_4 [of b]] by (auto simp: hi_digit_def)

lemma lo_digit [codec_simps]:
  "hex2char (b AND 0xf) = Some (lo_digit b)" "char2hex (lo_digit b) = Some (b AND 0xf)" "lo_digit b \<noteq> 0"
  using hex_digit [OF unat_and_15 [of b]] by (auto simp: lo_digit_def)

lemma nibbles_byte [codec_simps]: "push_bit 4 (drop_bit 4 b) + (b AND 0xf) = b" for b :: u8
proof -
  have "push_bit 4 (drop_bit 4 b) AND (b AND mask 4) = 0"
    by (rule bit_eqI) (auto simp: bit_simps simp del: mask_numeral)
  then have "push_bit 4 (drop_bit 4 b) + (b AND mask 4) = push_bit 4 (drop_bit 4 b) OR (b AND mask 4)"
    by (rule disjunctive_add_eq_or [symmetric, THEN sym])
  also have "\<dots> = b" by (rule bit_eqI) (auto simp: bit_simps simp del: mask_numeral)
  finally show ?thesis by (simp add: mask_eq_exp_minus_1)
qed

definition hex_string :: "u8 list \<Rightarrow> u8 list" where
  "hex_string buf = concat (map (\<lambda>b. [hi_digit b, lo_digit b]) buf)"

lemma length_hex_string [simp]: "length (hex_string buf) = 2 * length buf"
  by (induction buf) (auto simp: hex_string_def)

lemma hex_string_Cons: "hex_string (b # buf) = hi_digit b # lo_digit b # hex_string buf"
  by (simp add: hex_string_def)

lemma bin2hex_loop_ok: "bin2hex_loop i buf hex = (True, stored (2 * i) (hex_string buf) hex)"
proof (induction buf arbitrary: i hex)
  case (Cons b buf)
  then show ?case by (simp add: hex_string_Cons stored_Cons codec_simps fun_upd_def)
qed (simp add: hex_string_def)

lemma hex2bin_loop_ok: "hex2bin_loop i (hex_string bs) buf = (True, stored i bs buf)"
proof (induction bs arbitrary: i buf)
  case (Cons b bs)
  then show ?case by (simp add: hex_string_Cons stored_Cons codec_simps Let_def fun_upd_def cong: if_cong)
qed (simp add: hex_string_def)

text \<open>
  The size check lets a buffer pass that has no room for the terminator, nor for the last
  digit: with \<^verbatim>\<open>hexlen = 2 * buflen - 1\<close> two bytes are written past its end.
\<close>

lemma bin2hex_result:
  assumes "2 * length buf < 2 ^ 64"
  shows "bin2hex buf hex hexlen =
    (if hexlen + 1 < 2 * word_of_nat (length buf) then (0, hex)
     else (2 * word_of_nat (length buf), stored 0 (hex_string buf @ [0]) hex))"
proof -
  have "(stored 0 (hex_string buf) hex)(2 * length buf := 0) = stored 0 (hex_string buf @ [0]) hex"
    by (auto simp: stored_def fun_eq_iff nth_append)
  then show ?thesis by (simp add: bin2hex_def bin2hex_loop_ok Let_def mult.commute)
qed

lemma hex2bin_ok:
  assumes "2 * length bs < 2 ^ 64" "length bs \<le> unat buflen"
  shows "hex2bin (hex_string bs) buf buflen = (word_of_nat (length bs), stored 0 bs buf)"
proof -
  have u: "unat (word_of_nat (2 * length bs) :: u64) = 2 * length bs"
    using assms(1) by (simp only: unat_of_nat) simp
  have m: "(word_of_nat (2 * length bs) :: u64) mod 2 = 0"
    by (rule word_unat_eq_iff [THEN iffD2]) (simp only: unat_mod u, simp)
  have d: "(word_of_nat (2 * length bs) :: u64) div 2 = word_of_nat (length bs)"
    by (rule word_unat_eq_iff [THEN iffD2]) (use assms(1) in \<open>simp only: unat_div u, simp add: unat_of_nat\<close>)
  have l: "\<not> buflen < word_of_nat (length bs)"
    using assms by (simp add: word_less_nat_alt unat_of_nat)
  show ?thesis
    unfolding hex2bin_def length_hex_string Let_def m d
    using l by (simp add: hex2bin_loop_ok)
qed

lemma char2hex_None: "char2hex c = None \<longleftrightarrow> c \<notin> {0x30..0x39} \<union> {0x41..0x46} \<union> {0x61..0x66}"
  by (auto simp: char2hex_def)

text \<open>A character that is no digit makes the conversion fail.\<close>

lemma hex2bin_loop_fails:
  "even (length hex) \<Longrightarrow> fst (hex2bin_loop i hex buf) = (\<forall>c\<in>set hex. char2hex c \<noteq> None)"
  by (induction i hex buf rule: hex2bin_loop.induct) (auto simp: Let_def split: option.splits)

section \<open>Decimal: correctness\<close>

definition dec_digits :: "nat \<Rightarrow> nat list" where
  "dec_digits v =
     (if v < 10 then [v] else if v < 100 then [v div 10, v mod 10]
      else [v div 100, v div 10 mod 10, v mod 10])"

lemma dec_digits_value: "v < 1000 \<Longrightarrow> foldl (\<lambda>n d. 10 * n + d) 0 (dec_digits v) = v"
proof -
  have "v div 100 = v div 10 div 10" by (simp add: div_mult2_eq [symmetric])
  moreover have "10 * (v div 10 div 10) + v div 10 mod 10 = v div 10" "10 * (v div 10) + v mod 10 = v" by simp_all
  ultimately have "10 * (10 * (v div 100) + v div 10 mod 10) + v mod 10 = v" by (simp only:)
  then show ?thesis unfolding dec_digits_def by auto
qed

lemma u8_to_dec_loop_step:
  assumes "0 < buflen" "0 < divisor"
  shows "u8_to_dec_loop buflen divisor value n out =
    (if value div divisor \<noteq> 0 \<or> divisor = 1 \<or> n \<noteq> 0
     then u8_to_dec_loop (buflen - 1) (divisor div 10) (value mod divisor) (n + 1) (out @ [value div divisor + 0x30])
     else u8_to_dec_loop buflen (divisor div 10) (value mod divisor) n out)"
proof -
  have "value - value div divisor * divisor = value mod divisor" by (rule minus_div_mult_eq_mod)
  then show ?thesis using assms by (subst u8_to_dec_loop.simps) (simp only: Let_def if_True simp_thms)
qed

lemma u8_to_dec_loop_end: "u8_to_dec_loop buflen 0 value n out = (out, buflen, n)"
  by (subst u8_to_dec_loop.simps) simp

lemma u8_to_dec_loop_digits:
  assumes "0 < buflen"
  shows "u8_to_dec_loop buflen 1 value n out = (out @ [value + 0x30], buflen - 1, n + 1)"
    and "u8_to_dec_loop buflen 10 value n out =
      (if value div 10 \<noteq> 0 \<or> n \<noteq> 0
       then u8_to_dec_loop (buflen - 1) 1 (value mod 10) (n + 1) (out @ [value div 10 + 0x30])
       else u8_to_dec_loop buflen 1 (value mod 10) n out)"
    and "u8_to_dec_loop buflen 100 value n out =
      (if value div 100 \<noteq> 0 \<or> n \<noteq> 0
       then u8_to_dec_loop (buflen - 1) 10 (value mod 100) (n + 1) (out @ [value div 100 + 0x30])
       else u8_to_dec_loop buflen 10 (value mod 100) n out)"
proof -
  have "(1 :: u8) div 10 = 0" "(10 :: u8) div 10 = 1" "(100 :: u8) div 10 = 10" by code_simp+
  moreover have "0 < (1 :: u8)" "0 < (10 :: u8)" "0 < (100 :: u8)" "(10 :: u8) \<noteq> 1" "(100 :: u8) \<noteq> 1" by simp_all
  ultimately show "u8_to_dec_loop buflen 1 value n out = (out @ [value + 0x30], buflen - 1, n + 1)"
    "u8_to_dec_loop buflen 10 value n out =
      (if value div 10 \<noteq> 0 \<or> n \<noteq> 0
       then u8_to_dec_loop (buflen - 1) 1 (value mod 10) (n + 1) (out @ [value div 10 + 0x30])
       else u8_to_dec_loop buflen 1 (value mod 10) n out)"
    "u8_to_dec_loop buflen 100 value n out =
      (if value div 100 \<noteq> 0 \<or> n \<noteq> 0
       then u8_to_dec_loop (buflen - 1) 10 (value mod 100) (n + 1) (out @ [value div 100 + 0x30])
       else u8_to_dec_loop buflen 10 (value mod 100) n out)"
    using u8_to_dec_loop_step [OF assms, of 1 "value" n out] u8_to_dec_loop_step [OF assms, of 10 "value" n out]
      u8_to_dec_loop_step [OF assms, of 100 "value" n out] u8_to_dec_loop_end
    by (simp_all only: simp_thms div_by_1 if_True mod_by_1)
qed

lemma u8_to_dec_correct:
  assumes "3 \<le> unat buflen"
  shows "u8_to_dec buflen value =
    (map (\<lambda>d. word_of_nat d + 0x30) (dec_digits (unat value)) @
       (if unat buflen = length (dec_digits (unat value)) then [] else [0]),
     word_of_nat (length (dec_digits (unat value))))"
proof -
  have ge: "b - c = 0 \<longleftrightarrow> unat b = unat c" for b c :: u8 by (simp add: word_unat_eq_iff [symmetric])
  have p: "0 < buflen" "0 < buflen - 1" "0 < buflen - 2" "0 < buflen - 1 - 1"
    using assms by (auto simp: word_gt_0)
  have m: "unat (value mod 100) = unat value mod 100" "unat (value mod 10) = unat value mod 10" by (simp_all add: unat_mod)
  have d: "value div 100 = word_of_nat (unat value div 100)" "value mod 100 div 10 = word_of_nat (unat value mod 100 div 10)"
     "value mod 100 mod 10 = word_of_nat (unat value mod 10)"
    using word_arith_nat_div [of "value" 100] word_arith_nat_div [of "value mod 100" 10]
      word_arith_nat_mod [of "value mod 100" 10]
    by (simp_all only: m) (simp_all add: mod_mod_cancel)
  have z: "value div 100 = 0 \<longleftrightarrow> unat value < 100" "value mod 100 div 10 = 0 \<longleftrightarrow> unat value mod 100 < 10"
    by (simp_all add: word_unat_eq_iff unat_div unat_mod div_eq_0_iff)
  consider "unat value < 10" | "10 \<le> unat value" "unat value < 100" | "100 \<le> unat value" by linarith
  then show ?thesis
  proof cases
    case 1
    then have "u8_to_dec_loop buflen 100 value 0 [] = ([word_of_nat (unat value mod 10) + 0x30], buflen - 1, 1)"
      unfolding u8_to_dec_loop_digits(3) [OF p(1)] u8_to_dec_loop_digits(2) [OF p(1)] u8_to_dec_loop_digits(1) [OF p(1)] z unfolding d(3)
      by simp
    then show ?thesis using 1 assms p(2) by (simp add: u8_to_dec_def dec_digits_def word_gt_0)
  next
    case 2
    have "u8_to_dec_loop buflen 100 value 0 [] =
        ([word_of_nat (unat value mod 100 div 10) + 0x30, word_of_nat (unat value mod 10) + 0x30], buflen - 1 - 1, 1 + 1)"
      using 2
      unfolding u8_to_dec_loop_digits(3) [OF p(1)] u8_to_dec_loop_digits(2) [OF p(1)] u8_to_dec_loop_digits(1) [OF p(2)] z unfolding d(2,3)
      by simp
    moreover have "buflen - 1 - 1 = 0 \<longleftrightarrow> unat buflen = 2" using ge [of buflen 2] by (simp add: diff_diff_eq)
    ultimately show ?thesis using 2 assms by (simp add: u8_to_dec_def dec_digits_def)
  next
    case 3
    have "u8_to_dec_loop buflen 100 value 0 [] =
        ([word_of_nat (unat value div 100) + 0x30, word_of_nat (unat value mod 100 div 10) + 0x30,
          word_of_nat (unat value mod 10) + 0x30], buflen - 1 - 1 - 1, 1 + 1 + 1)"
      using 3
      unfolding u8_to_dec_loop_digits(3) [OF p(1)] u8_to_dec_loop_digits(2) [OF p(2)] u8_to_dec_loop_digits(1) [OF p(4)] z unfolding d
      by simp
    moreover have "buflen - 1 - 1 - 1 = 0 \<longleftrightarrow> unat buflen = 3" using ge [of buflen 3] by (simp add: diff_diff_eq)
    moreover have "unat value mod 100 div 10 = unat value div 10 mod 10"
      using mod_mult2_eq [of "unat value" 10 10] by simp
    ultimately show ?thesis using 3 assms by (simp add: u8_to_dec_def dec_digits_def)
  qed
qed

section \<open>Base 64: correctness\<close>

abbreviation (input) dmap :: "u8 \<Rightarrow> u8" where
  "dmap c \<equiv> base64_dec_map ! unat c"

definition data_char :: "u8 \<Rightarrow> bool" where
  "data_char c \<longleftrightarrow> c \<notin> {0x20, 0x0D, 0x0A, 0x3D} \<and> c \<le> 127 \<and> dmap c < 64"

lemma enc_map_inverse:
  "list_all (\<lambda>i. data_char (base64_enc_map ! i) \<and> dmap (base64_enc_map ! i) = word_of_nat i) [0..<64]"
  unfolding data_char_def by code_simp

lemma and_0x3F: "x AND 0x3F = take_bit 6 x" for x :: "'a::len word"
  by (simp add: take_bit_eq_mask mask_eq_exp_minus_1)

lemma enc_data: "data_char (enc x)" and dmap_enc: "dmap (enc x) = ucast (take_bit 6 x)"
proof -
  have "unat (x AND 0x3F) < 64"
    unfolding and_0x3F using take_bit_nat_less_exp [of 6 "unat x"] by (simp add: unsigned_take_bit_eq)
  then have *: "data_char (enc x) \<and> dmap (enc x) = word_of_nat (unat (x AND 0x3F))"
    using enc_map_inverse by (simp add: list_all_iff enc_def)
  then show "data_char (enc x)" "dmap (enc x) = ucast (take_bit 6 x)"
    by (simp_all only: and_0x3F) simp
qed

text \<open>One group of four characters gives back its three bytes.\<close>

lemma byte_bits:
  assumes "\<And>n. n \<in> {0, 1, 2, 3, 4, 5, 6, 7} \<Longrightarrow> bit x n = bit y n"
  shows "x = (y :: u8)"
proof (rule bit_word_eqI)
  fix n
  assume "n < LENGTH(8)"
  then have "n \<in> {0, 1, 2, 3, 4, 5, 6, 7}" by auto
  then show "bit x n = bit y n" by (rule assms)
qed

lemma byte_high: "8 \<le> n \<Longrightarrow> \<not> bit b n" for b :: u8
  by (auto dest: bit_imp_le_length)

lemma group_bytes:
  fixes b1 b2 b3 :: u8 and x :: u32
  defines "x4 \<equiv> push_bit 6 (push_bit 6 (push_bit 6 (push_bit 6 x OR take_bit 6 (drop_bit 2 (ucast b1)))
      OR take_bit 6 (push_bit 4 (take_bit 2 (ucast b1)) OR drop_bit 4 (ucast b2)))
      OR take_bit 6 (push_bit 2 (take_bit 4 (ucast b2)) OR drop_bit 6 (ucast b3)))
      OR take_bit 6 (ucast b3)"
  shows "ucast (drop_bit 16 x4) = b1" "ucast (drop_bit 8 x4) = b2" "ucast x4 = b3"
  unfolding x4_def
  by (rule byte_bits, elim insertE emptyE;
      simp only: bit_unsigned_iff bit_drop_bit_eq bit_push_bit_iff bit_or_iff bit_take_bit_iff o_apply; simp add: byte_high)+

lemma disjoint_sums:
  fixes b c :: u8
  shows "push_bit 4 (ucast b AND 3) + drop_bit 4 (ucast c) = (push_bit 4 (take_bit 2 (ucast b)) OR drop_bit 4 (ucast c) :: u32)"
    "push_bit 2 (ucast b AND 15) + drop_bit 6 (ucast c) = (push_bit 2 (take_bit 4 (ucast b)) OR drop_bit 6 (ucast c) :: u32)"
proof -
  have m: "x AND 3 = take_bit 2 x" "x AND 15 = take_bit 4 x" for x :: u32
    by (simp_all add: take_bit_eq_mask mask_eq_exp_minus_1)
  have "push_bit 4 (take_bit 2 (ucast b)) AND drop_bit 4 (ucast c) = (0 :: u32)"
    "push_bit 2 (take_bit 4 (ucast b)) AND drop_bit 6 (ucast c) = (0 :: u32)"
    by (rule bit_eqI, auto simp: bit_simps dest: bit_imp_le_length)+
  then show "push_bit 4 (ucast b AND 3) + drop_bit 4 (ucast c) = (push_bit 4 (take_bit 2 (ucast b)) OR drop_bit 4 (ucast c) :: u32)"
    "push_bit 2 (ucast b AND 15) + drop_bit 6 (ucast c) = (push_bit 2 (take_bit 4 (ucast b)) OR drop_bit 6 (ucast c) :: u32)"
    unfolding m by (simp_all only: disjunctive_add_eq_or)
qed

lemma base64_check_data: "data_char c \<Longrightarrow> base64_check (c # cs) n 0 = base64_check cs (n + 1) 0"
  by (subst base64_check.simps) (auto simp: skip_spaces_def data_char_def)

lemma base64_check_pad: "j < 2 \<Longrightarrow> base64_check (0x3D # cs) n j = base64_check cs (n + 1) (j + 1)"
proof -
  have "dmap 0x3D = 64" by code_simp
  then show "j < 2 \<Longrightarrow> base64_check (0x3D # cs) n j = base64_check cs (n + 1) (j + 1)"
    by (subst base64_check.simps) (simp add: skip_spaces_def)
qed

lemma base64_check_Nil [simp]: "base64_check [] n j = Some (n, j)"
  by (subst base64_check.simps) (simp add: skip_spaces_def)

definition pads :: "nat \<Rightarrow> nat" where
  "pads n = (3 - n mod 3) mod 3"

definition groups :: "nat \<Rightarrow> nat" where
  "groups n = (n + 2) div 3"

lemma base64_check_encode:
  "base64_check (base64_encode_loop src) n 0 = Some (n + 4 * groups (length src), pads (length src))"
proof (induction src arbitrary: n rule: base64_encode_loop.induct)
  case (1 C1 C2 C3 src)
  have "groups (length (C1 # C2 # C3 # src)) = 1 + groups (length src)" by (simp add: groups_def)
  moreover have "pads (length (C1 # C2 # C3 # src)) = pads (length src)" by (simp add: pads_def)
  ultimately show ?case using 1 by (simp add: base64_check_data enc_data)
qed (simp_all add: base64_check_data base64_check_pad enc_data groups_def pads_def)

lemma data_step:
  assumes "data_char c"
  shows "base64_decode_loop (c # cs) j x n =
    (let x = push_bit 6 x OR (ucast (dmap c) AND 0x3F)
     in if n + 1 = 4 then
          (if 0 < j then [ucast (drop_bit 16 x)] else []) @
          (if 1 < j then [ucast (drop_bit 8 x)] else []) @
          (if 2 < j then [ucast x] else []) @ base64_decode_loop cs j x 0
        else base64_decode_loop cs j x (n + 1))"
  using assms by (auto simp: data_char_def Let_def)

lemma pad_step:
  "base64_decode_loop (0x3D # cs) j x n =
    (let j = j - 1; x = push_bit 6 x
     in if n + 1 = 4 then
          (if 0 < j then [ucast (drop_bit 16 x)] else []) @
          (if 1 < j then [ucast (drop_bit 8 x)] else []) @
          (if 2 < j then [ucast x] else []) @ base64_decode_loop cs j x 0
        else base64_decode_loop cs j x (n + 1))"
proof -
  have "dmap 0x3D = 64" by code_simp
  moreover have "(64 AND 0x3F :: u32) = 0" by simp
  ultimately show ?thesis by (simp add: Let_def)
qed

lemma sextet: "ucast (dmap (enc x)) AND 0x3F = (take_bit 6 x :: u32)"
  by (simp add: dmap_enc and_0x3F) (rule bit_eqI, auto simp: bit_simps)

lemma masks: "x AND 3 = take_bit 2 x" "x AND 15 = take_bit 4 x" for x :: u32
  by (simp_all add: take_bit_eq_mask mask_eq_exp_minus_1)

declare base64_decode_loop.simps(2) [simp del]

lemmas group_steps = data_step [OF enc_data] pad_step sextet Let_def

lemma decode_encode_loop: "base64_decode_loop (base64_encode_loop (map ucast src)) 3 x 0 = src"
proof (induction "length src" arbitrary: src x rule: less_induct)
  case less
  consider "src = []" | a where "src = [a]" | a b where "src = [a, b]" | a b c rest where "src = a # b # c # rest"
    by (metis list.exhaust)
  then show ?case
  proof cases
    case 2
    then show ?thesis
      using group_bytes(1) [of x a 0 0] disjoint_sums(1) [of a 0]
      by (simp add: group_steps masks)
  next
    case 3
    then show ?thesis
      using group_bytes(1,2) [of x a b 0] disjoint_sums(1) [of a b]
      by (simp add: group_steps masks)
  next
    case 4
    have "length rest < length src" by (simp add: 4)
    then have rest: "base64_decode_loop (base64_encode_loop (map ucast rest)) 3 y 0 = rest" for y
      by (rule less)
    show ?thesis
      using group_bytes [of x a b c] disjoint_sums(1) [of a b] disjoint_sums(2) [of b c]
      by (simp add: 4 group_steps rest)
  qed simp
qed

lemma length_base64_encode_loop: "length (base64_encode_loop src) = 4 * groups (length src)"
proof (induction src rule: base64_encode_loop.induct)
  case (1 C1 C2 C3 src)
  have "groups (length (C1 # C2 # C3 # src)) = 1 + groups (length src)" by (simp add: groups_def)
  then show ?case using 1 by simp
qed (simp_all add: groups_def)

text \<open>The size computed without overflow is the number of whole bytes in the sextets, less the padding.\<close>

lemma drop_bit_3_word:
  assumes "n < 2 ^ 64"
  shows "drop_bit 3 (word_of_nat n :: u64) = word_of_nat (n div 8)"
proof (rule word_unat_eq_iff [THEN iffD2])
  have "n div 8 < 2 ^ 64" using assms div_le_dividend [of n 8] by (rule le_less_trans [rotated])
  then have "unat (word_of_nat (n div 8) :: u64) = n div 8" by (simp add: unat_of_nat)
  moreover have "unat (word_of_nat n :: u64) = n" using assms by (simp add: unat_of_nat)
  then have "unat (drop_bit 3 (word_of_nat n :: u64)) = n div 8"
    using assms by (simp only: unsigned_drop_bit_eq) (simp add: drop_bit_eq_div take_bit_eq_mod)
  ultimately show "unat (drop_bit 3 (word_of_nat n :: u64)) = unat (word_of_nat (n div 8) :: u64)" by simp
qed

lemma and_7_word: "(word_of_nat n :: u64) AND 7 = word_of_nat (n mod 8)"
proof -
  have "(word_of_nat n :: u64) AND 7 = take_bit 3 (word_of_nat n)" by (simp add: take_bit_eq_mask mask_eq_exp_minus_1)
  also have "\<dots> = word_of_nat (take_bit 3 n)" by (simp add: take_bit_of_nat)
  finally show ?thesis by (simp add: take_bit_eq_mod)
qed

lemma sextets_bytes: "6 * (n div 8) + (6 * (n mod 8) + 7) div 8 = (6 * n + 7) div (8 :: nat)"
proof -
  have "6 * q + (6 * r + 7) div 8 = (6 * (q * 8 + r) + 7) div 8" for q r :: nat
  proof -
    have "6 * (q * 8 + r) + 7 = (6 * r + 7) + (6 * q) * 8" by simp
    then show ?thesis by (simp only: div_mult_self1)
  qed
  from this [of "n div 8" "n mod 8"] show ?thesis by simp
qed

lemma base64_decoded_size_eq:
  assumes "n < 2 ^ 64" "j \<le> (6 * n + 7) div 8"
  shows "base64_decoded_size n j = word_of_nat ((6 * n + 7) div 8 - j)"
proof -
  have "n mod 8 < 8" by simp
  then have "6 * (n mod 8) + 7 < 6 * 8 + 7" by simp
  then have e: "6 * (n mod 8) + 7 < 2 ^ 64" by (rule less_trans) simp
  have "base64_decoded_size n j =
      6 * word_of_nat (n div 8) + drop_bit 3 (word_of_nat (6 * (n mod 8) + 7)) - word_of_nat j"
    unfolding base64_decoded_size_def Let_def drop_bit_3_word [OF assms(1)] and_7_word
    by (simp only: of_nat_add of_nat_mult of_nat_numeral)
  also have "\<dots> = word_of_nat (6 * (n div 8) + (6 * (n mod 8) + 7) div 8) - word_of_nat j"
    unfolding drop_bit_3_word [OF e] by (simp only: of_nat_add of_nat_mult of_nat_numeral)
  also have "\<dots> = word_of_nat ((6 * n + 7) div 8 - j)"
    unfolding sextets_bytes using assms(2) by (simp only: of_nat_diff)
  finally show ?thesis .
qed

definition significant :: "u8 \<Rightarrow> bool" where
  "significant c \<longleftrightarrow> c \<notin> {0x20, 0x0D, 0x0A}"

lemma base64_decode_loop_significant:
  "base64_decode_loop src j x n = base64_decode_loop (filter significant src) j x n"
proof (induction src arbitrary: j x n)
  case (Cons c src)
  show ?case
  proof (cases "significant c")
    case True
    then have "filter significant (c # src) = c # filter significant src" by simp
    then show ?thesis
      by (simp only: base64_decode_loop.simps(2) Cons [symmetric])
  next
    case False
    then have "base64_decode_loop (c # src) j x n = base64_decode_loop src j x n"
      by (auto simp: significant_def base64_decode_loop.simps(2))
    then show ?thesis using False Cons by simp
  qed
qed simp

lemma filter_skip_spaces: "filter significant (skip_spaces src) = filter significant src"
  by (induction src) (auto simp: skip_spaces_def significant_def)

lemma dmap_table:
  "c \<le> 127 \<Longrightarrow> dmap c < 64 \<or> dmap c = 127 \<or> c = 0x3D" "dmap 0x0D = 127"
proof -
  have "list_all (\<lambda>i. base64_dec_map ! i < 64 \<or> base64_dec_map ! i = 127 \<or> i = 0x3D) [0..<128]"
    by code_simp
  moreover assume "c \<le> 127"
  then have "unat c < 128" by (simp add: word_le_nat_alt)
  ultimately have "dmap c < 64 \<or> dmap c = 127 \<or> unat c = 0x3D" by (simp add: list_all_iff)
  moreover have "unat c = 0x3D \<Longrightarrow> c = 0x3D" by (simp add: word_unat_eq_iff)
  ultimately show "dmap c < 64 \<or> dmap c = 127 \<or> c = 0x3D" by blast
next
  show "dmap 0x0D = 127" by code_simp
qed

lemma base64_check_shape:
  assumes "base64_check src n j = Some (n', j')" "j \<le> 2"
  shows "\<exists>xs. filter significant src = xs @ replicate (j' - j) 0x3D \<and>
    n' = n + length xs + (j' - j) \<and> list_all data_char xs \<and> j \<le> j' \<and> j' \<le> 2 \<and> (0 < j \<longrightarrow> xs = [])"
  using assms
proof (induction src n j rule: base64_check.induct)
  case (1 src n j)
  show ?case
  proof (cases "skip_spaces src")
    case Nil
    then have "filter significant src = []" by (metis filter.simps(1) filter_skip_spaces)
    moreover have "n' = n" "j' = j" using 1(3) Nil by (simp_all add: base64_check.simps [of src])
    ultimately show ?thesis using 1(4) by auto
  next
    case (Cons c cs)
    have f: "filter significant src = filter significant (c # cs)" by (metis Cons filter_skip_spaces)
    show ?thesis
    proof (cases "(cs \<noteq> [] \<and> c = 0x0D \<and> hd cs = 0x0A) \<or> c = 0x0A")
      case True
      then have "base64_check cs n j = Some (n', j')" using 1(3) Cons by (simp add: base64_check.simps [of src])
      moreover have "filter significant src = filter significant cs" using True f by (auto simp: significant_def)
      ultimately show ?thesis using 1(1) [OF refl Cons True] 1(4) by simp
    next
      case False
      let ?j = "if c = 0x3D then j + 1 else j"
      have "base64_check src n j =
          (if length (skip_spaces src) < length src then None
           else if c = 0x3D \<and> 2 < ?j then None
           else if 127 < c \<or> dmap c = 127 then None
           else if dmap c < 64 \<and> ?j \<noteq> 0 then None
           else base64_check cs (n + 1) ?j)"
        by (subst base64_check.simps) (simp only: Cons list.case if_not_P [OF False] Let_def)
      with 1(3) have "(if length (skip_spaces src) < length src then None
           else if c = 0x3D \<and> 2 < ?j then None
           else if 127 < c \<or> dmap c = 127 then None
           else if dmap c < 64 \<and> ?j \<noteq> 0 then None
           else base64_check cs (n + 1) ?j) = Some (n', j')" by simp
      then have r: "\<not> length (skip_spaces src) < length src" "\<not> (c = 0x3D \<and> 2 < ?j)"
        "\<not> (127 < c \<or> dmap c = 127)" "\<not> (dmap c < 64 \<and> ?j \<noteq> 0)" "base64_check cs (n + 1) ?j = Some (n', j')"
        by (metis option.distinct(1))+
      have "?j \<le> 2" using r(2) 1(4) by auto
      with 1(2) [OF refl Cons False r(1) refl r(2,3,4)] r(5)
      obtain xs where xs: "filter significant cs = xs @ replicate (j' - ?j) 0x3D" "n' = n + 1 + length xs + (j' - ?j)"
        "list_all data_char xs" "?j \<le> j'" "j' \<le> 2" "0 < ?j \<longrightarrow> xs = []" by auto
      show ?thesis
      proof (cases "c = 0x3D")
        case True
        then have "filter significant src = 0x3D # filter significant cs" using f by (simp add: significant_def)
        moreover have "xs = []" "?j = j + 1" "j + 1 \<le> j'" using True xs(4,6) by simp_all
        moreover from this have "j' - j = Suc (j' - ?j)" by simp
        ultimately have "filter significant src = [] @ replicate (j' - j) 0x3D" "n' = n + length [] + (j' - j)" "j \<le> j'"
          using xs(1,2) by simp_all
        then show ?thesis using xs(5) by (intro exI [of _ "[]"]) simp
      next
        case nopad: False
        have "skip_spaces src \<noteq> []" by (simp add: Cons)
        then have "hd (skip_spaces src) \<noteq> 0x20" unfolding skip_spaces_def by (rule hd_dropWhile)
        then have "c \<noteq> 0x20" by (simp add: Cons)
        moreover have "c \<noteq> 0x0D" using r(3) dmap_table(2) by auto
        moreover have "dmap c < 64" using r(3) nopad dmap_table(1) [of c] by auto
        ultimately have c: "data_char c" "significant c" using False nopad r(3) by (auto simp: data_char_def significant_def)
        have j: "?j = j" "j = 0" using nopad r(4) \<open>dmap c < 64\<close> by simp_all
        have "filter significant src = (c # xs) @ replicate (j' - j) 0x3D" using f c xs(1) j by simp
        moreover have "n' = n + length (c # xs) + (j' - j)" using xs(2) j by simp
        moreover have "list_all data_char (c # xs)" using c xs(3) by simp
        ultimately show ?thesis using xs(5) j by (intro exI [of _ "c # xs"]) simp
      qed
    qed
  qed
qed

lemma length_decode_data:
  assumes "list_all data_char xs" "n < 4"
  shows "\<exists>x'. length (base64_decode_loop (xs @ ys) 3 x n) =
    3 * ((n + length xs) div 4) + length (base64_decode_loop ys 3 x' ((n + length xs) mod 4))"
  using assms
proof (induction xs arbitrary: x n)
  case (Cons c xs)
  define x1 where "x1 = push_bit 6 x OR (ucast (dmap c) AND 0x3F)"
  show ?case
  proof (cases "n + 1 = 4")
    case True
    from Cons.IH [of 0 x1] Cons.prems obtain x' where
      "length (base64_decode_loop (xs @ ys) 3 x1 0) =
        3 * (length xs div 4) + length (base64_decode_loop ys 3 x' (length xs mod 4))" by auto
    moreover have "n + length (c # xs) = length xs + 4" using True by simp
    moreover have "(length xs + 4) div 4 = length xs div 4 + 1" "(length xs + 4) mod 4 = length xs mod 4" by simp_all
    ultimately have "length (base64_decode_loop ((c # xs) @ ys) 3 x n) =
        3 * ((n + length (c # xs)) div 4) + length (base64_decode_loop ys 3 x' ((n + length (c # xs)) mod 4))"
      using Cons.prems True by (simp only:) (simp add: data_step x1_def Let_def)
    then show ?thesis ..
  next
    case False
    from Cons.IH [of "n + 1" x1] Cons.prems False obtain x' where
      "length (base64_decode_loop (xs @ ys) 3 x1 (n + 1)) =
        3 * ((n + 1 + length xs) div 4) + length (base64_decode_loop ys 3 x' ((n + 1 + length xs) mod 4))" by auto
    then show ?thesis using Cons.prems False
      by (intro exI [of _ x']) (simp add: data_step x1_def Let_def)
  qed
qed auto

lemma length_decode_pads:
  assumes "j \<le> 2" "r < 4"
  shows "length (base64_decode_loop (replicate j 0x3D) 3 x r) = (if 4 \<le> r + j then r - 1 else 0)"
proof -
  have "j \<in> {0, 1, 2}" "r \<in> {0, 1, 2, 3}" using assms by auto
  then show ?thesis by (elim insertE emptyE) (simp_all add: pad_step numeral_2_eq_2 Let_def)
qed

text \<open>What is written fits into the size that was computed.\<close>

lemma base64_decode_length:
  assumes "base64_check src 0 0 = Some (n, j)"
  shows "length (base64_decode_loop src 3 0 0) \<le> (6 * n + 7) div 8 - j" "j \<le> (6 * n + 7) div 8" "n \<le> length src"
proof -
  from base64_check_shape [OF assms] obtain xs where
    xs: "filter significant src = xs @ replicate j 0x3D" "n = length xs + j" "list_all data_char xs" "j \<le> 2" by auto
  from length_decode_data [OF xs(3), of 0 "replicate j 0x3D" 0] obtain x' where
    "length (base64_decode_loop (filter significant src) 3 0 0) =
      3 * (length xs div 4) + length (base64_decode_loop (replicate j 0x3D) 3 x' (length xs mod 4))"
    by (auto simp: xs(1))
  then have l: "length (base64_decode_loop src 3 0 0) =
      3 * (length xs div 4) + (if 4 \<le> length xs mod 4 + j then length xs mod 4 - 1 else 0)"
    by (simp add: base64_decode_loop_significant [of src] length_decode_pads [OF xs(4)])
  define q where "q = length xs div 4"
  define r where "r = length xs mod 4"
  have qr: "length xs = 4 * q + r" "r < 4" by (simp_all add: q_def r_def)
  have e: "(6 * n + 7) div 8 = 3 * q + (6 * r + 6 * j + 7) div 8"
  proof -
    have "6 * n + 7 = 6 * r + 6 * j + 7 + 8 * (3 * q)" using xs(2) qr by simp
    then show ?thesis by (metis add.commute div_mult_self2 zero_neq_numeral)
  qed
  have "j \<in> {0, 1, 2}" "r \<in> {0, 1, 2, 3}" using xs(4) qr by auto
  then have "3 * q + (if 4 \<le> r + j then r - 1 else 0) \<le> (6 * n + 7) div 8 - j \<and> j \<le> (6 * n + 7) div 8"
    unfolding e by (elim insertE emptyE) simp_all
  then show "length (base64_decode_loop src 3 0 0) \<le> (6 * n + 7) div 8 - j" "j \<le> (6 * n + 7) div 8"
    unfolding l q_def [symmetric] r_def [symmetric] by simp_all
  show "n \<le> length src" using arg_cong [OF xs(1), of length] xs(2) length_filter_le [of significant src] by simp
qed

lemma unat_small: "n < 2 ^ 64 \<Longrightarrow> unat (word_of_nat n :: u64) = n"
  by (simp add: unat_of_nat)

lemma groups_le: "groups n \<le> n" "0 < n \<Longrightarrow> 0 < groups n"
  by (simp_all add: groups_def)

lemma groups_split:
  assumes "r < 3"
  shows "groups (q * 3 + r) = q + of_bool (r \<noteq> 0)"
proof -
  have "r \<in> {0, 1, 2}" using assms by auto
  then show ?thesis by (auto simp: groups_def)
qed

lemma groups_word:
  assumes "n < 2 ^ 64"
  shows "(word_of_nat n :: u64) div 3 + of_bool ((word_of_nat n :: u64) mod 3 \<noteq> 0) = word_of_nat (groups n)"
proof -
  have u: "unat (word_of_nat n :: u64) = n" using assms by (rule unat_small)
  have d: "(word_of_nat n :: u64) div 3 = word_of_nat (n div 3)"
    using word_arith_nat_div [of "word_of_nat n :: u64" 3] by (simp only: u) simp
  have m: "(word_of_nat n :: u64) mod 3 \<noteq> 0 \<longleftrightarrow> n mod 3 \<noteq> 0"
    by (simp only: word_unat_eq_iff unat_mod u) simp
  have "groups n = n div 3 + of_bool (n mod 3 \<noteq> 0)" using groups_split [of "n mod 3" "n div 3"] by simp
  then show ?thesis by (simp only: d m) simp
qed

lemma base64_encode_eq:
  assumes "length src < 2 ^ 62" "src \<noteq> []"
  shows "base64_encode nl dlen src =
    (if unat dlen < 4 * groups (length src) + 1 \<or> nl
     then \<lparr>b64_ret = - ENOMEM, b64_olen = word_of_nat (4 * groups (length src) + 1), b64_dst = []\<rparr>
     else \<lparr>b64_ret = 0, b64_olen = word_of_nat (4 * groups (length src)),
            b64_dst = base64_encode_loop (map ucast src) @ [0]\<rparr>)"
proof -
  have l: "length src < 2 ^ 64" by (rule less_trans [OF assms(1)]) simp
  have g: "groups (length src) < 2 ^ 62" using groups_le(1) assms(1) by (rule le_less_trans)
  have z: "(word_of_nat (length src) :: u64) \<noteq> 0"
    using assms(2) unat_small [OF l] by auto
  have n: "\<not> (- 1 - 1) div 4 < (word_of_nat (groups (length src)) :: u64)"
  proof -
    have "(- 1 - 1 :: u64) div 4 = 0x3FFFFFFFFFFFFFFF" by simp
    moreover have "unat (word_of_nat (groups (length src)) :: u64) = groups (length src)"
      by (rule unat_small) (use g in simp)
    ultimately show ?thesis using g by (simp only: word_less_nat_alt) simp
  qed
  have c: "dlen < word_of_nat (groups (length src)) * 4 + 1 \<longleftrightarrow> unat dlen < 4 * groups (length src) + 1"
  proof -
    have "(word_of_nat (groups (length src)) * 4 + 1 :: u64) = word_of_nat (4 * groups (length src) + 1)" by simp
    moreover have "unat (word_of_nat (4 * groups (length src) + 1) :: u64) = 4 * groups (length src) + 1"
      using g by (intro unat_small) simp
    ultimately show ?thesis by (simp only: word_less_nat_alt)
  qed
  show ?thesis
    unfolding base64_encode_def Let_def groups_word [OF l] if_not_P [OF z] if_not_P [OF n] c
    by (simp add: length_base64_encode_loop mult.commute)
qed

lemma base64_decode_eq:
  assumes "length src < 2 ^ 64" "base64_check src 0 0 = Some (n, j)"
  shows "base64_decode olen nl dlen src =
    (if n = 0 then \<lparr>b64_ret = 0, b64_olen = 0, b64_dst = []\<rparr>
     else if nl \<or> unat dlen < (6 * n + 7) div 8 - j
       then \<lparr>b64_ret = - ENOMEM, b64_olen = word_of_nat ((6 * n + 7) div 8 - j), b64_dst = []\<rparr>
     else \<lparr>b64_ret = 0, b64_olen = word_of_nat (length (base64_decode_loop src 3 0 0)),
            b64_dst = base64_decode_loop src 3 0 0\<rparr>)"
proof -
  note len = base64_decode_length [OF assms(2)]
  have n: "n < 2 ^ 64" using len(3) assms(1) by (rule le_less_trans)
  have "(6 * n + 7) div 8 - j < 2 ^ 64"
  proof -
    have "(6 * n + 7) div 8 \<le> n + 1" by linarith
    moreover have "(6 * n + 7) div 8 \<le> n \<or> n = 0" by linarith
    ultimately show ?thesis using n by auto
  qed
  then have u: "unat (word_of_nat ((6 * n + 7) div 8 - j) :: u64) = (6 * n + 7) div 8 - j" by (rule unat_small)
  show ?thesis
    by (simp add: base64_decode_def assms(2) base64_decoded_size_eq [OF n len(2)] word_less_nat_alt u Let_def)
qed

lemma base64_roundtrip:
  assumes "length src < 2 ^ 62" "length src \<le> unat dlen"
  shows "base64_decode olen False dlen (base64_encode_loop (map ucast src)) =
    \<lparr>b64_ret = 0, b64_olen = word_of_nat (length src), b64_dst = src\<rparr>"
proof -
  let ?e = "base64_encode_loop (map ucast src)"
  have e: "length ?e = 4 * groups (length src)" by (simp add: length_base64_encode_loop)
  have c: "base64_check ?e 0 0 = Some (4 * groups (length src), pads (length src))"
    using base64_check_encode [of "map ucast src" 0] by simp
  have "groups (length src) < 2 ^ 62" using groups_le(1) assms(1) by (rule le_less_trans)
  then have l: "length ?e < 2 ^ 64" unfolding e by simp
  have s: "(6 * (4 * groups (length src)) + 7) div 8 - pads (length src) = length src"
  proof -
    have "(6 * (4 * k) + 7) div 8 = 3 * k" for k :: nat by simp
    moreover have "3 * (q + of_bool (r \<noteq> 0)) - (3 - r) mod 3 = q * 3 + r" if "r < 3" for q r :: nat
      using that by (cases "r = 0") (auto simp: mod_less)
    from this [of "length src mod 3" "length src div 3"]
    have "3 * groups (length src) - pads (length src) = length src"
      using groups_split [of "length src mod 3" "length src div 3"] by (simp add: pads_def)
    ultimately show ?thesis by simp
  qed
  show ?thesis
    unfolding base64_decode_eq [OF l c] s decode_encode_loop using assms(2) groups_le(2) [of "length src"]
    by (cases "src = []") (auto simp: groups_def)
qed

section \<open>Properties\<close>

text \<open>
  C37: Encoding loses nothing. The hexadecimal text that \<^verbatim>\<open>bin2hex\<close> stores is read back by
  \<^verbatim>\<open>hex2bin\<close> as the same bytes, and nothing around them is touched; the base 64 text that
  \<^verbatim>\<open>base64_encode\<close> stores is read back by \<^verbatim>\<open>base64_decode\<close> as the same bytes, padding included.
\<close>

theorem codec_roundtrip:
  assumes "length bs < 2 ^ 62" "2 * length bs + 1 \<le> unat hexlen" "hexlen \<noteq> - 1" "length bs \<le> unat buflen"
    "4 * groups (length bs) + 1 \<le> unat dlen"
  shows "(\<exists>text. bin2hex bs hex hexlen = (word_of_nat (length text), stored 0 (text @ [0]) hex) \<and>
      length text = 2 * length bs \<and> hex2bin text buf buflen = (word_of_nat (length bs), stored 0 bs buf)) \<and>
    (bs \<noteq> [] \<longrightarrow> (\<exists>text. base64_encode False dlen bs =
        \<lparr>b64_ret = 0, b64_olen = word_of_nat (length text), b64_dst = text @ [0]\<rparr> \<and>
      base64_decode olen False buflen text = \<lparr>b64_ret = 0, b64_olen = word_of_nat (length bs), b64_dst = bs\<rparr>))"
proof -
  have l: "2 * length bs < 2 ^ 64" using assms(1) by simp
  have "unat (hexlen + 1) = unat hexlen + 1"
  proof -
    have "1 + hexlen \<noteq> 0" using assms(3) by (simp add: add_eq_0_iff)
    then have "unat (1 + hexlen) = Suc (unat hexlen)" by (rule unatSuc)
    then show ?thesis by (simp add: add.commute)
  qed
  moreover have "unat (2 * word_of_nat (length bs) :: u64) = 2 * length bs"
    using unat_small [OF l] by (simp only: of_nat_mult of_nat_numeral)
  ultimately have "\<not> hexlen + 1 < 2 * word_of_nat (length bs)" using assms(2) by (simp only: word_less_nat_alt)
  then have "bin2hex bs hex hexlen = (word_of_nat (length (hex_string bs)), stored 0 (hex_string bs @ [0]) hex)"
    using bin2hex_result [OF l, of hex hexlen] by simp
  moreover have "hex2bin (hex_string bs) buf buflen = (word_of_nat (length bs), stored 0 bs buf)"
    by (rule hex2bin_ok [OF l assms(4)])
  moreover have "base64_encode False dlen bs =
      \<lparr>b64_ret = 0, b64_olen = word_of_nat (length (base64_encode_loop (map ucast bs))),
       b64_dst = base64_encode_loop (map ucast bs) @ [0]\<rparr>" if "bs \<noteq> []"
    using base64_encode_eq [OF assms(1) that, of False dlen] assms(5) by (simp add: length_base64_encode_loop)
  ultimately show ?thesis using base64_roundtrip [OF assms(1,4)]
    by (intro conjI impI exI [of _ "hex_string bs"] exI [of _ "base64_encode_loop (map ucast bs)"]) simp_all
qed

theorem codec_roundtrip_witness:
  "\<exists>text. base64_encode False 9 [1, 2, 3, 4] =
        \<lparr>b64_ret = 0, b64_olen = word_of_nat (length text), b64_dst = text @ [0]\<rparr> \<and>
      base64_decode 0 False 4 text = \<lparr>b64_ret = 0, b64_olen = 4, b64_dst = [1, 2, 3, 4]\<rparr>"
  using codec_roundtrip [of "[1, 2, 3, 4]" 9 4 9 "\<lambda>_. 0" "\<lambda>_. 0" 0] by (simp add: groups_def)

text \<open>
  C38: The base 64 routines never write past the destination: whatever the input and the size
  given, the bytes written, the terminator of the encoder included, are at most that many.
\<close>

theorem base64_stays_in_bounds:
  assumes "length src < 2 ^ 62"
  shows "length (b64_dst (base64_encode nl dlen src)) \<le> unat dlen \<and>
    length (b64_dst (base64_decode olen nl dlen src)) \<le> unat dlen"
proof
  show "length (b64_dst (base64_encode nl dlen src)) \<le> unat dlen"
  proof (cases "src = []")
    case False
    then show ?thesis by (simp add: base64_encode_eq [OF assms] length_base64_encode_loop)
  qed (simp add: base64_encode_def)
  have l: "length src < 2 ^ 64" by (rule less_trans [OF assms]) simp
  show "length (b64_dst (base64_decode olen nl dlen src)) \<le> unat dlen"
  proof (cases "base64_check src 0 0")
    case None
    then show ?thesis by (simp add: base64_decode_def)
  next
    case (Some r)
    then obtain n j where c: "base64_check src 0 0 = Some (n, j)" by (cases r) auto
    show ?thesis using base64_decode_length(1) [OF c] by (auto simp: base64_decode_eq [OF l c])
  qed
qed

theorem base64_stays_in_bounds_witness:
  "length (b64_dst (base64_encode False 3 [1, 2])) \<le> 3 \<and> length (b64_dst (base64_decode 0 False 3 [0x51, 0x51])) \<le> 3"
  using base64_stays_in_bounds [of "[1, 2]" False 3 0] base64_stays_in_bounds [of "[0x51, 0x51]" False 3 0] by simp

text \<open>
  C39: The size check of \<^verbatim>\<open>bin2hex\<close> is off by two: with a text buffer of one byte less than the
  digits need, the conversion is made, its last digit and the terminator being stored past
  the end of the buffer.
\<close>

theorem bin2hex_overflows:
  assumes "buf \<noteq> []" "2 * length buf < 2 ^ 64"
  shows "\<exists>hex'. bin2hex buf hex (word_of_nat (2 * length buf - 1)) = (2 * word_of_nat (length buf), hex') \<and>
    hex' (2 * length buf - 1) = lo_digit (last buf) \<and> hex' (2 * length buf) = 0"
proof -
  define n where "n = 2 * length buf"
  have n: "0 < n" "n < 2 ^ 64" using assms by (simp_all add: n_def)
  have "(word_of_nat (n - 1) + 1 :: u64) = word_of_nat n" using n(1) by (simp add: of_nat_diff)
  then have "\<not> (word_of_nat (n - 1) + 1 :: u64) < 2 * word_of_nat (length buf)" by (simp add: n_def)
  then have r: "bin2hex buf hex (word_of_nat (n - 1)) = (2 * word_of_nat (length buf), stored 0 (hex_string buf @ [0]) hex)"
    using bin2hex_result [OF assms(2), of hex "word_of_nat (n - 1)"] by simp
  have "hex_string buf = hex_string (butlast buf) @ [hi_digit (last buf), lo_digit (last buf)]"
    using arg_cong [OF append_butlast_last_id [OF assms(1)], of hex_string] by (simp add: hex_string_def)
  then have "last (hex_string buf) = lo_digit (last buf)" "hex_string buf \<noteq> []" by simp_all
  then have "hex_string buf ! (n - 1) = lo_digit (last buf)"
    using n(1) last_conv_nth [of "hex_string buf"] by (auto simp: n_def)
  then have "stored 0 (hex_string buf @ [0]) hex (n - 1) = lo_digit (last buf)"
    "stored 0 (hex_string buf @ [0]) hex n = 0"
    using n(1) by (auto simp: stored_def n_def nth_append)
  then show ?thesis using r by (auto simp: n_def)
qed

theorem bin2hex_overflows_witness:
  "\<exists>hex'. bin2hex [0xAB] (\<lambda>_. 0x55) 1 = (2, hex') \<and> hex' 1 = 0x62 \<and> hex' 2 = 0"
proof -
  have "lo_digit 0xAB = 0x62" by (simp add: lo_digit_def hex2char_def)
  then show ?thesis using bin2hex_overflows [of "[0xAB]" "\<lambda>_. 0x55"] by simp
qed

end
