(* ===== verification/Spec2Isabelle.thy ===== *)
theory Spec2Isabelle
  imports Hello_Progress Objects Timer Crc Codec
begin

text \<open>
  Verification of the Zephyr kernel and applications of
  \<^verbatim>\<open>polarfire-soc-zephyr-applications\<close>.

  \<^bold>\<open>The program.\<close> The repository holds the Zephyr RTOS (\<^verbatim>\<open>src/zephyr\<close>) and three applications for
  the PolarFire SoC (\<^verbatim>\<open>src/mpfs-applications\<close>). The applications create threads, share the
  processor through the scheduler (\<^verbatim>\<open>kernel/sched.c\<close>), wait on kernel objects (\<^verbatim>\<open>kernel/sem.c\<close>,
  \<^verbatim>\<open>mutex.c\<close>, \<^verbatim>\<open>queue.c\<close> and the like) and sleep. A call that waits links its thread into the
  wait queue of the object, gives it a timeout in the queue of \<^verbatim>\<open>kernel/timeout.c\<close> and
  switches to the best ready thread; the tick interrupt (\<^verbatim>\<open>sys_clock_announce\<close>) or another
  thread makes it ready again. Below the kernel are the intrusive lists of \<^verbatim>\<open>include/sys\<close>
  and, beside it, the data utilities of \<^verbatim>\<open>lib/os\<close>.

  \<^bold>\<open>How the code is represented.\<close> A C struct is a record, a pointer to a thread, a wait queue
  or a timeout is its name (\<open>tid\<close>, \<open>wqid\<close>, \<open>toid\<close>), an unsigned integer of \<open>n\<close> bits is a word of
  \<open>n\<close> bits wherever its width matters. The record \<open>kernel\<close> of \<open>Kernel_State\<close> is \<^verbatim>\<open>struct z_kernel\<close>
  with the file-scope variables of \<^verbatim>\<open>sched.c\<close> and \<^verbatim>\<open>timeout.c\<close>. A function that changes state
  takes the state last and returns the new one. A function that may block its caller gives
  \<open>Blocked\<close> after the context switch, and what it does when the thread runs again is the
  definition with the same name and the ending \<open>_resume\<close>. An error return is the negative
  errno value of the code. A spinlock has no state: each definition is the section that
  holds the lock. The configuration is that of the board \<^verbatim>\<open>mpfs_icicle\<close>: sorted-list ready
  and wait queues, tickless clock, time slicing; \<open>CONFIG_SMP\<close>, the number of processors and
  \<open>CONFIG_SCHED_CPU_MASK\<close> are fields of the kernel record, so that the definitions cover
  both variants, while the invariants are proved for one processor.

  \<^bold>\<open>Theories.\<close>
  \<^item> \<open>Kernel_Prelude\<close>, \<open>Word_Tools\<close>: machine types, errno values, the collections of facts,
    lemmas on bits, sorted lists and buffers.
  \<^item> \<open>Dlist\<close> (\<^verbatim>\<open>sys/dlist.h\<close>) and \<open>Sflist\<close> (\<^verbatim>\<open>sys/sflist.h\<close>, \<^verbatim>\<open>list_gen.h\<close>): linked lists at the level of
    pointers and tagged words, refined to lists.
  \<^item> \<open>Kernel_State\<close>, \<open>Priq\<close>, \<open>Timeout\<close>, \<open>Time_Units\<close>, \<open>Sched\<close>: the kernel's data, the priority
    queues (two back ends behind the locale \<open>prio_queue\<close>), the delta list of timeouts
    (locale \<open>deadline_queue\<close>), conversion of time units, the scheduler.
  \<^item> \<open>Sched_Inv\<close>, \<open>Sched_Ops\<close>, \<open>Clock\<close>, \<open>Thread\<close>, \<open>Sched_Machine\<close>: the invariants of the scheduler,
    that every operation keeps them, the clock interrupt, creation of threads and boot,
    and the kernel as a state machine (\<open>kstep\<close>, \<open>reachable\<close>).
  \<^item> \<open>Wait_Object\<close>: the contract of a kernel object, locale \<open>kernel_object\<close>, interpreted by
    \<open>Sem\<close>, \<open>Mutex\<close>, \<open>Condvar\<close>, \<open>Stack\<close>, \<open>Msgq\<close>, \<open>Mem_Slab\<close> and \<open>Queue\<close>; \<open>Timer\<close> interprets the contract of
    expiry functions, locale \<open>expiry_handlers\<close>. \<open>Sample_State\<close> is a concrete kernel for the
    witnesses.
  \<^item> \<open>Crc\<close>, \<open>Codec\<close>: checksums and text encodings of \<^verbatim>\<open>lib/os\<close>.

  \<^bold>\<open>What is shown.\<close> The lemmas of the scheduler show that in every reachable state the ready
  queue, the wait queues and the thread states agree, and that the processor runs the best
  ready thread whenever it may switch; those of the clock that an announcement ends and
  expires exactly what is due; those of each object its invariant, what each operation does
  on each branch, and that a waiting thread receives what it waited for; those of the data
  utilities the equality with a reference definition or a round trip, and the bounds of
  what they write. Where the code does not do what it means to, a theorem shows the run.

  \<^bold>\<open>Bounds and fuel.\<close> Loops over lists are structural. The loop of \<^verbatim>\<open>sys_clock_announce\<close>, whose
  expiry functions may start timeouts again, and the wake-up loops take fuel; each has a
  lemma that gives an amount of fuel that is enough, and the properties are stated with
  it. Capacities, sizes and tick counts are arbitrary within the width of their C types.

  \<^bold>\<open>Not modelled.\<close> Assembler (\<^verbatim>\<open>isr.S\<close>, \<^verbatim>\<open>swap.S\<close>, \<^verbatim>\<open>reset.S\<close>): the switch of registers is the change
  of the current thread. Device drivers, the network, Bluetooth, USB, file system, logging
  and shell subsystems, other architectures and boards, samples and tests: they are not
  linked into the applications or only call the hardware. User mode, system-call
  verification, memory protection, tracing hooks and assertions: they do not change what
  the modelled calls do for a supervisor thread. Interleavings of several processors: the
  functions are modelled for any processor, their concurrent execution is not.
\<close>

section \<open>A concrete kernel\<close>

text \<open>The kernel after boot, with thread 1 running the application's main function.\<close>

definition boot_kernel :: kernel where
  "boot_kernel = z_cstart 0 1 (\<lambda>_. 2) (bss_kernel False True 1)"

lemma boot_kernel_reachable: "reachable boot_kernel"
  unfolding boot_kernel_def by (rule reachable.boot) simp

lemma boot_kernel_fields:
  "sched_ok boot_kernel" "cur0 boot_kernel = 1" "runq boot_kernel = [1]" "timeout_list boot_kernel = []"
  "idle0 boot_kernel = 2" "nested (cpus boot_kernel 0) = 0" "\<not> irq_masked (cpus boot_kernel 0)"
  using boot_uniprocessor [of 0 1 2 True] boot_interrupts [of 0 1 "\<lambda>_. 2" True]
  by (simp_all add: boot_kernel_def)

section \<open>The scheduler\<close>

text \<open>
  C1: In every state the kernel can reach, the ready queue holds exactly the ready threads
  other than the idle thread, each once, ordered by priority, and a thread's queued flag
  tells whether it is in the queue.
\<close>

theorem ready_queue_exact:
  assumes "reachable k"
  shows "distinct (runq k) \<and> sorted_key (\<lambda>t. prio_of (threads k t)) (runq k) \<and>
    set (runq k) = {t. t \<noteq> idle0 k \<and> z_is_thread_ready k t} \<and>
    (\<forall>t. z_is_thread_queued (threads k t) = (t \<in> set (runq k)))"
proof -
  have i: "runq_ok k" "ready_ok {} k"
    using reachable_sched_ok [OF assms] by (simp_all add: sched_ok_def kinv_but_def)
  have "t \<in> set (runq k) \<longleftrightarrow> t \<noteq> idle0 k \<and> z_is_thread_ready k t" for t
    using i unfolding runq_ok_def ready_ok_def by (metis empty_iff)
  then show ?thesis using i(1) by (auto simp: runq_ok_def prio_key_def [abs_def])
qed

theorem ready_queue_exact_witness:
  "set (runq boot_kernel) = {t. t \<noteq> idle0 boot_kernel \<and> z_is_thread_ready boot_kernel t}"
  using ready_queue_exact [OF boot_kernel_reachable] by simp

text \<open>
  C2: In every reachable state a thread is linked in a wait queue exactly when that is the
  queue it records as pended on, it is linked once, and its pending flag says so: no
  thread waits in two queues.
\<close>

theorem wait_queues_exact:
  assumes "reachable k"
  shows "distinct (waitqs k w) \<and> (t \<in> set (waitqs k w) \<longleftrightarrow> pended_on (threads k t) = Some w) \<and>
    (z_is_thread_pending (threads k t) \<longleftrightarrow> (\<exists>w. t \<in> set (waitqs k w)))"
  using reachable_sched_ok [OF assms] by (auto simp: sched_ok_def kinv_but_def waitq_ok_def)

theorem wait_queues_exact_witness:
  "z_is_thread_pending (threads boot_kernel 1) \<longleftrightarrow> (\<exists>w. 1 \<in> set (waitqs boot_kernel w))"
  using wait_queues_exact [OF boot_kernel_reachable, of _ 1] by blast





section \<open>Timeouts\<close>





text \<open>
  C7: A thread that sleeps or waits with a timeout runs again: when an announcement covers
  the thread's deadline, the announcement ends with that thread in the ready queue, unless
  the thread has been aborted or was never set up.
\<close>

theorem timeout_wakes_thread:
  assumes "sched_ok k" "(ThreadTo t, d) \<in> set (deadlines 0 (timeout_list k))" "d \<le> ticks"
    and "thread_state (threads k t) AND THREAD_DUMMY = 0" "thread_state (threads k t) AND THREAD_DEAD = 0"
  shows "\<exists>k'. sys_clock_announce (Suc (length (timeout_list k))) 0 (\<lambda>n s. s) ticks (k, ()) = Some (k', ()) \<and>
    t \<in> set (runq k')"
  using announce_wakes_thread [of "(k, ())" "\<lambda>n s. s" "Suc (length (timeout_list k))" t d ticks] assms quiet_id
  by auto

theorem timeout_wakes_thread_witness:
  "\<exists>k'. sys_clock_announce 2 0 (\<lambda>n s. s) 20 (z_add_thread_timeout 0 2 10 (sample_kernel 8), ()) = Some (k', ()) \<and>
     2 \<in> set (runq k')"
proof -
  let ?k = "z_add_thread_timeout 0 2 10 (sample_kernel 8)"
  have th: "thread_state (threads ?k 2) = THREAD_PENDING"
    by (simp add: z_add_thread_timeout_def sample_kernel_def no_thread_def)
  have l: "timeout_list ?k = [(ThreadTo 2, 11)]"
    by (simp add: z_add_thread_timeout_def timeout_list_add timeout_dticks_def Z_TICK_ABS_def elapsed_def)
  have "sched_ok ?k"
    by (rule sched_ok_z_add_thread_timeout [OF sample_kernel_ok])
      (simp_all add: z_is_thread_timeout_active_def z_is_inactive_timeout_def
        z_is_thread_prevented_from_running_def sample_kernel_def no_thread_def bss_kernel_def current_thread_def)
  from timeout_wakes_thread [OF this, of 2 11 20] th l show ?thesis
    by (simp add: numeral_2_eq_2)
qed

section \<open>Boot\<close>

text \<open>
  C8: Booting one processor from zeroed memory ends with the main thread running, as the only
  thread in the ready queue, with interrupts enabled, no timeout pending and all invariants
  of the scheduler established.
\<close>

theorem boot_runs_main:
  assumes "distinct [dummy, main, idle]"
  shows "let k = z_cstart dummy main (\<lambda>_. idle) (bss_kernel False masks 1)
    in sched_ok k \<and> cur0 k = main \<and> runq k = [main] \<and> timeout_list k = [] \<and> idle0 k = idle \<and>
       nested (cpus k 0) = 0 \<and> \<not> irq_masked (cpus k 0)"
  using boot_uniprocessor [OF assms] boot_interrupts by (simp add: Let_def)

theorem boot_runs_main_witness: "cur0 (z_cstart 0 3 (\<lambda>_. 2) (bss_kernel False True 1)) = 3"
  using boot_runs_main [of 0 3 2 True] by (simp add: Let_def)

end
